(* ===== verification/Prelude.thy ===== *)
theory Prelude
  imports Main "HOL-Library.Word" "HOL-Library.Multiset"
begin

text \<open>
  Shared vocabulary of the development.

  \<^item> Rust's \<^verbatim>\<open>u64\<close> is a natural number below \<open>2 ^ 64\<close>. The saturating operations are
    written out; \<^verbatim>\<open>saturating_sub\<close> is subtraction of naturals. A plain \<^verbatim>\<open>+\<close> or \<^verbatim>\<open>-\<close> whose
    operands come from a request wraps in the release profile, so it is \<open>add64\<close> or \<open>sub64\<close>;
    the sums and differences of values the program itself keeps ordered are written with
    \<open>+\<close> and \<open>-\<close>, and the invariants proved later show that they do not wrap.
  \<^item> A Rust \<^verbatim>\<open>String\<close> is the list of its UTF-8 bytes, so \<open>length\<close> is \<^verbatim>\<open>str::len\<close>.
  \<^item> \<open>starts_with\<close>, \<open>split_on\<close>, \<open>split_once\<close>, \<open>rsplit_once\<close>, \<open>show_nat\<close> and \<open>parse_u64\<close>
    are the \<^verbatim>\<open>str\<close> and \<^verbatim>\<open>u64\<close> operations of the standard library the sources call.
  \<^item> The last section has the generic facts on sorted lists and sums the components share.
\<close>

type_synonym u64 = nat
type_synonym millis = nat
type_synonym byte = "8 word"

named_theorems u64_simps \<open>unfolding rules for the 64-bit operations\<close>
named_theorems inv_intros \<open>every operation keeps its component's invariant\<close>

subsection \<open>64-bit arithmetic\<close>

definition U64_MAX :: nat where
  "U64_MAX = 2 ^ 64 - 1"

definition add64 :: "u64 \<Rightarrow> u64 \<Rightarrow> u64" where
  "add64 a b = (a + b) mod 2 ^ 64"

definition sub64 :: "u64 \<Rightarrow> u64 \<Rightarrow> u64" where
  "sub64 a b = (if b \<le> a then a - b else 2 ^ 64 + a - b)"

definition sat_add :: "u64 \<Rightarrow> u64 \<Rightarrow> u64" where
  "sat_add a b = min (a + b) U64_MAX"

definition sat_mul :: "u64 \<Rightarrow> u64 \<Rightarrow> u64" where
  "sat_mul a b = min (a * b) U64_MAX"

lemma add64_exact [simp]: "a + b < 2 ^ 64 \<Longrightarrow> add64 a b = a + b"
  by (simp add: add64_def)

lemma add64_lt [simp]: "add64 a b < 2 ^ 64"
  by (simp add: add64_def)

lemma sub64_exact [simp]: "b \<le> a \<Longrightarrow> sub64 a b = a - b"
  by (simp add: sub64_def)

lemma sat_add_le_sum: "sat_add a b \<le> a + b"
  by (simp add: sat_add_def)

lemma sat_add_ge_left: "a \<le> U64_MAX \<Longrightarrow> a \<le> sat_add a b"
  by (simp add: sat_add_def)

lemma sat_add_le_max: "sat_add a b \<le> U64_MAX"
  by (simp add: sat_add_def)

lemma sat_add_exact: "a + b \<le> U64_MAX \<Longrightarrow> sat_add a b = a + b"
  by (simp add: sat_add_def)

lemma sat_add_0 [simp]: "a \<le> U64_MAX \<Longrightarrow> sat_add a 0 = a"
  by (simp add: sat_add_def)

lemma sat_mul_exact: "a * b \<le> U64_MAX \<Longrightarrow> sat_mul a b = a * b"
  by (simp add: sat_mul_def)

lemmas [u64_simps] = U64_MAX_def sat_add_def sat_mul_def

subsection \<open>Strings\<close>

definition starts_with :: "string \<Rightarrow> string \<Rightarrow> bool" where
  "starts_with s p = (take (length p) s = p)"

definition strip_prefix :: "string \<Rightarrow> string \<Rightarrow> string option" where
  "strip_prefix p s = (if starts_with s p then Some (drop (length p) s) else None)"

fun split_on :: "char \<Rightarrow> string \<Rightarrow> string list" where
  "split_on c [] = [[]]"
| "split_on c (x # xs) =
     (if x = c then [] # split_on c xs
      else (case split_on c xs of [] \<Rightarrow> [[x]] | w # ws \<Rightarrow> (x # w) # ws))"

fun split_once :: "char \<Rightarrow> string \<Rightarrow> (string \<times> string) option" where
  "split_once c [] = None"
| "split_once c (x # xs) =
     (if x = c then Some ([], xs)
      else map_option (\<lambda>(a, b). (x # a, b)) (split_once c xs))"

definition rsplit_once :: "char \<Rightarrow> string \<Rightarrow> (string \<times> string) option" where
  "rsplit_once c s = map_option (\<lambda>(a, b). (rev b, rev a)) (split_once c (rev s))"

fun show_nat :: "nat \<Rightarrow> string" where
  "show_nat n = (if n < 10 then [char_of (48 + n)] else show_nat (n div 10) @ [char_of (48 + n mod 10)])"

declare show_nat.simps [simp del]

definition digit_of :: "char \<Rightarrow> nat option" where
  "digit_of c = (let n = of_char c in if 48 \<le> n \<and> n \<le> 57 then Some (n - 48) else None)"

fun parse_digits :: "nat \<Rightarrow> string \<Rightarrow> nat option" where
  "parse_digits acc [] = Some acc"
| "parse_digits acc (c # cs) =
     (case digit_of c of
        None \<Rightarrow> None
      | Some d \<Rightarrow> (let v = acc * 10 + d in if v < 2 ^ 64 then parse_digits v cs else None))"

text \<open>\<^verbatim>\<open>u64::from_str\<close>: one optional leading plus, at least one digit, no overflow.\<close>

definition parse_u64 :: "string \<Rightarrow> nat option" where
  "parse_u64 s =
     (let t = (case s of [] \<Rightarrow> [] | c # cs \<Rightarrow> if c = CHR ''+'' then cs else s)
      in if t = [] then None else parse_digits 0 t)"

lemma starts_with_append [simp]: "starts_with (p @ s) p"
  by (simp add: starts_with_def)

lemma starts_with_iff: "starts_with s p \<longleftrightarrow> (\<exists>t. s = p @ t)"
  by (auto simp: starts_with_def) (metis append_take_drop_id)

lemma starts_with_Nil [simp]: "starts_with s []"
  by (simp add: starts_with_def)

lemma strip_prefix_append [simp]: "strip_prefix p (p @ s) = Some s"
  by (simp add: strip_prefix_def)

lemma split_on_ne [simp]: "split_on c s \<noteq> []"
  by (induction s) (auto split: list.splits)

lemma split_once_append:
  "c \<notin> set a \<Longrightarrow> split_once c (a @ c # b) = Some (a, b)"
  by (induction a) auto

lemma split_once_None: "c \<notin> set a \<Longrightarrow> split_once c a = None"
  by (induction a) auto

lemma split_once_SomeD: "split_once c s = Some (a, b) \<Longrightarrow> s = a @ c # b \<and> c \<notin> set a"
  by (induction s arbitrary: a) (auto split: if_splits)

lemma rsplit_once_append:
  assumes "c \<notin> set b"
  shows "rsplit_once c (a @ c # b) = Some (a, b)"
proof -
  have "split_once c (rev b @ c # rev a) = Some (rev b, rev a)"
    by (rule split_once_append) (use assms in simp)
  then show ?thesis by (simp add: rsplit_once_def)
qed

subsection \<open>Decimal numbers\<close>

lemma digit_of_char_of [simp]: "d < 10 \<Longrightarrow> digit_of (char_of (48 + d)) = Some d"
  by (simp add: digit_of_def)

lemma parse_digits_snoc:
  "parse_digits acc (s @ [c]) =
     (case parse_digits acc s of
        None \<Rightarrow> None
      | Some v \<Rightarrow> parse_digits v [c])"
  by (induction s arbitrary: acc) (auto split: option.splits simp: Let_def)

lemma parse_digits_show_nat: "n < 2 ^ 64 \<Longrightarrow> parse_digits 0 (show_nat n) = Some n"
proof (induction n rule: show_nat.induct)
  case (1 n)
  show ?case
  proof (cases "n < 10")
    case True
    then show ?thesis using "1.prems" by (simp add: show_nat.simps [of n])
  next
    case False
    then have "parse_digits 0 (show_nat (n div 10)) = Some (n div 10)"
      using "1.IH" "1.prems" by simp
    moreover have "n div 10 * 10 + n mod 10 = n" by simp
    ultimately show ?thesis
      using False "1.prems" by (simp add: show_nat.simps [of n] parse_digits_snoc)
  qed
qed

lemma show_nat_digits: "c \<in> set (show_nat n) \<Longrightarrow> \<exists>d<(10::nat). c = char_of (48 + d)"
proof (induction n rule: show_nat.induct)
  case (1 n)
  show ?case
  proof (cases "n < 10")
    case True
    then show ?thesis using "1.prems" by (auto simp: show_nat.simps [of n])
  next
    case False
    then show ?thesis using 1
      by (auto simp: show_nat.simps [of n] intro: exI [of _ "n mod 10"])
  qed
qed

lemma show_nat_ne [simp]: "show_nat n \<noteq> []"
  by (subst show_nat.simps) auto

lemma digit_char_neq:
  assumes "d < (10::nat)" and "of_char c < (48::nat) \<or> (57::nat) < of_char c"
  shows "char_of (48 + d) \<noteq> c"
proof
  assume "char_of (48 + d) = c"
  then have "of_char c = 48 + d" using assms(1) by (auto simp flip: \<open>char_of (48 + d) = c\<close>)
  with assms show False by simp
qed

lemma show_nat_no_char:
  assumes "of_char c < (48::nat) \<or> (57::nat) < of_char c"
  shows "c \<notin> set (show_nat n)"
  using show_nat_digits digit_char_neq [OF _ assms] by metis

lemma show_nat_no_dot [simp]: "CHR ''.'' \<notin> set (show_nat n)"
  by (rule show_nat_no_char) simp

lemma show_nat_no_dash [simp]: "CHR ''-'' \<notin> set (show_nat n)"
  by (rule show_nat_no_char) simp

lemma show_nat_no_slash [simp]: "CHR ''/'' \<notin> set (show_nat n)"
  by (rule show_nat_no_char) simp

lemma show_nat_hd_plus: "show_nat n = c # cs \<Longrightarrow> c \<noteq> CHR ''+''"
  using show_nat_no_char [of "CHR ''+''" n] by auto

lemma parse_u64_show_nat [simp]: "n < 2 ^ 64 \<Longrightarrow> parse_u64 (show_nat n) = Some n"
  using parse_digits_show_nat [of n] show_nat_hd_plus [of n]
  by (auto simp: parse_u64_def Let_def split: list.splits)

lemma show_nat_inj: "show_nat a = show_nat b \<Longrightarrow> a < 2 ^ 64 \<Longrightarrow> b < 2 ^ 64 \<Longrightarrow> a = b"
  by (metis option.inject parse_u64_show_nat)

subsection \<open>Lists, sums and sorting\<close>

lemma sum_list_ge_elem: "x \<in> set xs \<Longrightarrow> f x \<le> (\<Sum>y\<leftarrow>xs. f y :: nat)"
  by (induction xs) auto

lemma sum_list_filter_split:
  "(\<Sum>x\<leftarrow>xs. f x :: nat) = (\<Sum>x\<leftarrow>filter P xs. f x) + (\<Sum>x\<leftarrow>filter (\<lambda>x. \<not> P x) xs. f x)"
  by (induction xs) auto

lemma sum_list_filter_le: "(\<Sum>x\<leftarrow>filter P xs. f x :: nat) \<le> (\<Sum>x\<leftarrow>xs. f x)"
  by (induction xs) auto

lemma set_sort_key [simp]: "set (sort_key f xs) = set xs"
  by (metis mset_sort set_mset_mset)

lemma distinct_map_filter_neq:
  "distinct (map fst xs) \<Longrightarrow> distinct (map fst (filter P xs))"
  by (induction xs) auto


subsection \<open>Hash maps\<close>

text \<open>
  A \<^verbatim>\<open>HashMap\<close> is the list of its entries in iteration order, with distinct keys;
  \<open>map_of\<close> is \<^verbatim>\<open>get\<close>, \<open>hm_put\<close> is \<^verbatim>\<open>insert\<close> and \<open>hm_del\<close> is \<^verbatim>\<open>remove\<close>.
\<close>

definition hm_wf :: "('k \<times> 'v) list \<Rightarrow> bool" where
  "hm_wf m = distinct (map fst m)"

definition hm_del :: "'k \<Rightarrow> ('k \<times> 'v) list \<Rightarrow> ('k \<times> 'v) list" where
  "hm_del k m = filter (\<lambda>(k', _). k' \<noteq> k) m"

definition hm_put :: "'k \<Rightarrow> 'v \<Rightarrow> ('k \<times> 'v) list \<Rightarrow> ('k \<times> 'v) list" where
  "hm_put k v m = (k, v) # hm_del k m"

lemma map_of_hm_del [simp]: "map_of (hm_del k m) q = (if q = k then None else map_of m q)"
  by (induction m) (auto simp: hm_del_def)

lemma map_of_hm_put [simp]: "map_of (hm_put k v m) q = (if q = k then Some v else map_of m q)"
  by (simp add: hm_put_def)

lemma hm_wf_Nil [simp]: "hm_wf []"
  by (simp add: hm_wf_def)

lemma hm_wf_filter [inv_intros]: "hm_wf m \<Longrightarrow> hm_wf (filter P m)"
  by (simp add: hm_wf_def distinct_map_filter_neq)

lemma hm_wf_del [inv_intros]: "hm_wf m \<Longrightarrow> hm_wf (hm_del k m)"
  by (simp add: hm_del_def hm_wf_filter)

lemma hm_wf_put [inv_intros]: "hm_wf m \<Longrightarrow> hm_wf (hm_put k v m)"
  using hm_wf_del [of m k] by (auto simp: hm_wf_def hm_put_def hm_del_def)

lemma hm_mem_iff: "hm_wf m \<Longrightarrow> (k, v) \<in> set m \<longleftrightarrow> map_of m k = Some v"
  by (simp add: hm_wf_def)

lemma map_of_hm_filter:
  "hm_wf m \<Longrightarrow> map_of (filter (\<lambda>(k, v). P k v) m) k =
     (case map_of m k of Some v \<Rightarrow> if P k v then Some v else None | None \<Rightarrow> None)"
  by (induction m) (auto simp: hm_wf_def map_of_eq_None_iff image_iff split: option.splits)

lemma sum_hm_del:
  "hm_wf m \<Longrightarrow> map_of m k = Some v \<Longrightarrow>
     (\<Sum>(_, x)\<leftarrow>m. f x :: nat) = f v + (\<Sum>(_, x)\<leftarrow>hm_del k m. f x)"
proof (induction m)
  case (Cons a m)
  obtain k' v' where a: "a = (k', v')" by (cases a)
  show ?case
  proof (cases "k' = k")
    case True
    then have "hm_del k (a # m) = m"
      using Cons.prems a by (force simp: hm_wf_def hm_del_def filter_id_conv)
    then show ?thesis using True Cons.prems a by simp
  next
    case False
    then show ?thesis using Cons a by (simp add: hm_wf_def hm_del_def)
  qed
qed simp

lemma hm_del_absent: "map_of m k = None \<Longrightarrow> hm_del k m = m"
  by (force simp: hm_del_def map_of_eq_None_iff filter_id_conv)

subsection \<open>Fallible steps in sequence\<close>

text \<open>\<^verbatim>\<open>?\<close> on a result, \<^verbatim>\<open>ok_or\<close>, and an early return.\<close>

definition ok_or :: "'a option \<Rightarrow> 'e \<Rightarrow> 'e + 'a" where
  "ok_or x e = (case x of Some v \<Rightarrow> Inr v | None \<Rightarrow> Inl e)"

definition res_bind :: "'e + 'a \<Rightarrow> ('a \<Rightarrow> 'e + 'b) \<Rightarrow> 'e + 'b" where
  "res_bind r f = (case r of Inl e \<Rightarrow> Inl e | Inr v \<Rightarrow> f v)"

definition guard_that :: "bool \<Rightarrow> 'e \<Rightarrow> 'e + 'b \<Rightarrow> 'e + 'b" where
  "guard_that b e k = (if b then k else Inl e)"

lemma res_bind_simps [simp]: "res_bind (Inr v) f = f v" "res_bind (Inl e) f = Inl e"
  by (simp_all add: res_bind_def)

lemma ok_or_simps [simp]: "ok_or (Some v) e = Inr v" "ok_or None e = Inl e"
  by (simp_all add: ok_or_def)

lemma guard_that_simps [simp]: "guard_that True e k = k" "guard_that False e k = Inl e"
  by (simp_all add: guard_that_def)

lemma res_bind_Inr: "res_bind r f = Inr v \<longleftrightarrow> (\<exists>a. r = Inr a \<and> f a = Inr v)"
  by (cases r) simp_all

lemma ok_or_Inr: "ok_or x e = Inr v \<longleftrightarrow> x = Some v"
  by (cases x) simp_all

lemma guard_that_Inr: "guard_that b e k = Inr v \<longleftrightarrow> b \<and> k = Inr v"
  by (simp add: guard_that_def)

lemmas checks_passed = res_bind_Inr ok_or_Inr guard_that_Inr

end
