(* ===== verification/Client_Range.thy ===== *)
theory Client_Range
  imports Prelude
begin

text \<open>
  The client's Range request: \<^verbatim>\<open>src/client_range.rs\<close> and the \<^verbatim>\<open>ByteRange\<close> and
  \<^verbatim>\<open>ContentRange\<close> types of \<^verbatim>\<open>src/backend/mod.rs\<close>.

  The header grammar itself belongs to the crate \<^verbatim>\<open>http_range_header\<close>: \<open>parse\<close> takes its
  \<^verbatim>\<open>parse_range_header\<close> as an argument. \<open>requested_bytes\<close> is the specification, the set of
  byte positions RFC 9110 says a request names; \<open>resolve\<close> is shown to compute it for every
  range the parser builds without wrapping, and the wrapping input is exhibited.
\<close>

subsection \<open>Data\<close>

record byte_range =
  br_offset :: u64
  br_length :: "u64 option"

definition from_offset :: "u64 \<Rightarrow> byte_range" where
  "from_offset off = \<lparr>br_offset = off, br_length = None\<rparr>"

definition bounded :: "u64 \<Rightarrow> u64 \<Rightarrow> byte_range" where
  "bounded off len = \<lparr>br_offset = off, br_length = Some len\<rparr>"

text \<open>The value of the \<^verbatim>\<open>Range\<close> header sent to the provider.\<close>

definition http_header_value :: "byte_range \<Rightarrow> string" where
  "http_header_value r =
     (case br_length r of
        None \<Rightarrow> ''bytes='' @ show_nat (br_offset r) @ ''-''
      | Some len \<Rightarrow> ''bytes='' @ show_nat (br_offset r) @ ''-''
                     @ show_nat (sub64 (add64 (br_offset r) len) 1))"

datatype client_range =
    Absent
  | Single byte_range
  | Suffix u64
  | Multi

datatype start_position = StartIndex u64 | FromLast u64
datatype end_position = EndIndex u64 | LastByte

datatype range_error = Malformed | Index_panic

datatype requested_span =
    Whole
  | Span (span_offset: u64) (span_len: u64)
  | Unsatisfiable

record content_range =
  cr_first :: u64
  cr_last :: u64
  cr_total :: u64

subsection \<open>Operations\<close>

text \<open>
  \<open>raw\<close> is the text of the Range header when there is one; \<open>parse_range_header\<close> is the
  crate's parser. Indexing an empty range list would panic.
\<close>

definition parse ::
  "(string \<Rightarrow> (start_position \<times> end_position) list option) \<Rightarrow> string option
     \<Rightarrow> range_error + client_range" where
  "parse parse_range_header raw =
     (case raw of
        None \<Rightarrow> Inr Absent
      | Some r \<Rightarrow>
          (case parse_range_header r of
             None \<Rightarrow> Inl Malformed
           | Some ranges \<Rightarrow>
               if length ranges > 1 then Inr Multi
               else (case ranges of
                       [] \<Rightarrow> Inl Index_panic
                     | (FromLast n, _) # _ \<Rightarrow> Inr (Suffix n)
                     | (StartIndex s, LastByte) # _ \<Rightarrow> Inr (Single (from_offset s))
                     | (StartIndex s, EndIndex e) # _ \<Rightarrow>
                         if s > e then Inl Malformed
                         else Inr (Single (bounded s (add64 (sub64 e s) 1))))))"

fun resolve :: "client_range \<Rightarrow> u64 \<Rightarrow> requested_span" where
  "resolve Absent sz = Whole"
| "resolve Multi sz = Unsatisfiable"
| "resolve (Suffix n) sz =
     (if sz = 0 \<or> n = 0 then Unsatisfiable
      else (let len = min n sz in Span (sz - len) len))"
| "resolve (Single r) sz =
     (if br_offset r \<ge> sz then Unsatisfiable
      else (let e = (case br_length r of None \<Rightarrow> sz
                     | Some l \<Rightarrow> min (add64 (br_offset r) l) sz)
            in Span (br_offset r) (sub64 e (br_offset r))))"

definition resolve_byte_range :: "byte_range option \<Rightarrow> u64 \<Rightarrow> (u64 \<times> u64) option" where
  "resolve_byte_range rng tot =
     (let parsed = (case rng of None \<Rightarrow> Absent | Some r \<Rightarrow> Single r)
      in case resolve parsed tot of
           Whole \<Rightarrow> Some (0, tot)
         | Span off len \<Rightarrow> Some (off, add64 off len)
         | Unsatisfiable \<Rightarrow> None)"

definition for_span :: "u64 \<Rightarrow> u64 \<Rightarrow> u64 \<Rightarrow> bool \<Rightarrow> content_range option" where
  "for_span tot first e range_requested =
     (if range_requested \<and> e > first
      then Some \<lparr>cr_first = first, cr_last = e - 1, cr_total = tot\<rparr> else None)"

definition header_value :: "content_range \<Rightarrow> string" where
  "header_value cr = ''bytes '' @ show_nat (cr_first cr) @ ''-'' @ show_nat (cr_last cr)
     @ ''/'' @ show_nat (cr_total cr)"

definition unsatisfiable :: "u64 \<Rightarrow> string" where
  "unsatisfiable tot = ''bytes */'' @ show_nat tot"

subsection \<open>Specification and correctness\<close>

text \<open>The byte positions of an object of \<open>sz\<close> bytes that a request names.\<close>

fun requested_bytes :: "client_range \<Rightarrow> nat \<Rightarrow> nat set" where
  "requested_bytes Absent sz = {0..<sz}"
| "requested_bytes Multi sz = {}"
| "requested_bytes (Suffix n) sz = {b. b < sz \<and> sz \<le> b + n}"
| "requested_bytes (Single r) sz =
     {b. b < sz \<and> br_offset r \<le> b \<and> (case br_length r of None \<Rightarrow> True | Some l \<Rightarrow> b < br_offset r + l)}"

text \<open>A range whose length is positive and whose end does not wrap.\<close>

fun exact_range :: "client_range \<Rightarrow> bool" where
  "exact_range (Single r) =
     (case br_length r of None \<Rightarrow> True | Some l \<Rightarrow> 0 < l \<and> br_offset r + l < 2 ^ 64)"
| "exact_range _ = True"

lemma exact_range_from_offset [simp]: "exact_range (Single (from_offset s))"
  by (simp add: from_offset_def)

lemma parse_Some:
  "p r = Some [(s, e)] \<Longrightarrow> parse p (Some r) =
     (case (s, e) of
        (FromLast n, _) \<Rightarrow> Inr (Suffix n)
      | (StartIndex a, LastByte) \<Rightarrow> Inr (Single (from_offset a))
      | (StartIndex a, EndIndex b) \<Rightarrow>
          if a > b then Inl Malformed else Inr (Single (bounded a (add64 (sub64 b a) 1))))"
  by (simp add: parse_def split: start_position.split end_position.split)

lemma parse_cases:
  assumes "parse p raw = Inr cr"
  obtains "cr = Absent" | "cr = Multi"
  | r s e where "raw = Some r" and "p r = Some [(s, e)]"
proof (cases "\<exists>r s e. raw = Some r \<and> p r = Some [(s, e)]")
  case True
  then show ?thesis using that(3) by blast
next
  case False
  have "cr = Absent \<or> cr = Multi"
  proof (cases raw)
    case None
    then show ?thesis using assms by (simp add: parse_def)
  next
    case (Some r)
    then obtain rs where rs: "p r = Some rs" using assms by (cases "p r") (auto simp: parse_def)
    moreover have "length rs > 1"
      using False Some rs assms
      by (cases rs; cases "tl rs") (auto simp: parse_def)
    ultimately show ?thesis using Some assms by (simp add: parse_def)
  qed
  then show ?thesis using that(1,2) by blast
qed

lemma parse_exact:
  assumes "parse p raw = Inr cr"
    and "\<And>r rs s e. raw = Some r \<Longrightarrow> p r = Some rs \<Longrightarrow> (s, EndIndex e) \<in> set rs \<Longrightarrow> e < U64_MAX"
  shows "exact_range cr"
  using assms(1)
proof (cases rule: parse_cases)
  case (3 r s e)
  note val = parse_Some [of p r s e, OF 3(2)]
  show ?thesis
  proof (cases s)
    case (StartIndex a)
    show ?thesis
    proof (cases e)
      case (EndIndex b)
      then have "b < U64_MAX" using assms(2) [of r, OF 3(1,2), of s b] by simp
      moreover have "a \<le> b" "cr = Single (bounded a (add64 (sub64 b a) 1))"
        using assms(1) 3 val StartIndex EndIndex by (auto split: if_splits)
      ultimately show ?thesis by (simp add: bounded_def U64_MAX_def)
    qed (use assms(1) 3 val StartIndex in \<open>auto simp: from_offset_def\<close>)
  qed (use assms(1) 3 val in auto)
qed auto

lemma resolve_Single_exact:
  assumes "exact_range (Single r)" and "br_offset r < sz"
  shows "resolve (Single r) sz =
    Span (br_offset r) ((case br_length r of None \<Rightarrow> sz | Some l \<Rightarrow> min (br_offset r + l) sz) - br_offset r)"
  using assms by (auto split: option.splits)

lemma resolve_Single_bytes:
  assumes "exact_range (Single r)" and "resolve (Single r) sz = Span off len"
  shows "requested_bytes (Single r) sz = {off..<off + len} \<and> 0 < len \<and> off + len \<le> sz"
proof -
  have lt: "br_offset r < sz" using assms(2) by (auto split: if_splits)
  with resolve_Single_exact [OF assms(1) lt] assms show ?thesis
    by (auto split: option.splits)
qed

lemma resolve_bytes:
  assumes "exact_range cr" and "resolve cr sz = Span off len"
  shows "requested_bytes cr sz = {off..<off + len} \<and> 0 < len \<and> off + len \<le> sz"
proof (cases cr)
  case (Single r)
  then show ?thesis using resolve_Single_bytes assms by blast
next
  case (Suffix n)
  then show ?thesis using assms by (auto simp: Let_def split: if_splits)
qed (use assms in auto)

lemma resolve_unsatisfiable_iff:
  assumes "exact_range cr"
  shows "resolve cr sz = Unsatisfiable \<longleftrightarrow> cr \<noteq> Absent \<and> requested_bytes cr sz = {}"
proof (cases cr)
  case (Single r)
  show ?thesis
  proof (cases "br_offset r < sz")
    case True
    then have "br_offset r \<in> requested_bytes cr sz"
      using Single assms by (auto split: option.splits)
    then show ?thesis
      using True Single resolve_Single_exact [of r sz] assms by auto
  next
    case False
    then show ?thesis using Single by auto
  qed
next
  case (Suffix n)
  show ?thesis
  proof (cases "sz = 0 \<or> n = 0")
    case True
    then show ?thesis using Suffix by auto
  next
    case False
    then have "sz - 1 \<in> requested_bytes cr sz" using Suffix by auto
    then show ?thesis using False Suffix by (auto simp: Let_def)
  qed
qed auto

subsection \<open>Properties\<close>



text \<open>
  The largest 64-bit number as a Range header's upper bound escapes that guarantee. With
  a first byte inside the object, the computed length wraps and the span reaches past the
  object's end.
\<close>

lemma parse_resolve_overflow:
  assumes "p r = Some [(StartIndex s, EndIndex U64_MAX)]" and "0 < s" and "s < sz" and "sz < 2 ^ 64"
  shows "parse p (Some r) = Inr (Single (bounded s (2 ^ 64 - s)))
    \<and> resolve (Single (bounded s (2 ^ 64 - s))) sz = Span s (2 ^ 64 - s)
    \<and> sz < s + (2 ^ 64 - s)"
proof -
  have len: "add64 (sub64 U64_MAX s) 1 = 2 ^ 64 - s"
    using assms(2,3,4) by (simp add: add64_def U64_MAX_def sub64_def)
  have e: "add64 s (2 ^ 64 - s) = 0"
    using assms(3,4) by (simp add: add64_def)
  show ?thesis
    using assms len e parse_Some [of p r, OF assms(1)]
    by (auto simp: bounded_def U64_MAX_def sub64_def)
qed

end
