(* ===== verification/Window.thy ===== *)
theory Window
  imports Prelude
begin

text \<open>
  The window decision, \<^verbatim>\<open>src/cache/window.rs\<close>: how far ahead one run reads, what the write
  admission has to afford for it, and what a key too large to keep may hold staged.
\<close>

type_synonym behind = "(u64 \<times> u64) option"

definition floor_bytes :: "u64 \<Rightarrow> u64 \<Rightarrow> u64" where
  "floor_bytes configured flr = min flr (max configured 1)"

definition window_for :: "u64 \<Rightarrow> u64 \<Rightarrow> u64 \<Rightarrow> u64 \<Rightarrow> behind \<Rightarrow> u64" where
  "window_for need remaining configured flr behind =
     (let configured = max configured 1;
          base = (case behind of
                    Some (covered, consumed) \<Rightarrow>
                      if covered > 0 \<and> consumed \<ge> covered then min (sat_mul covered 2) configured
                      else floor_bytes configured flr
                  | None \<Rightarrow> floor_bytes configured flr)
      in min (max need base) remaining)"

definition behind_of :: "u64 \<Rightarrow> u64 \<Rightarrow> u64 \<Rightarrow> u64 \<Rightarrow> behind" where
  "behind_of start replaced_start replaced_end replaced_playhead =
     (if start \<ge> replaced_start \<and> start \<le> replaced_end
      then Some (replaced_end - replaced_start, replaced_playhead - replaced_start)
      else None)"

definition worst_case_bytes :: "u64 \<Rightarrow> u64 \<Rightarrow> u64 \<Rightarrow> u64" where
  "worst_case_bytes need remaining configured = min (max need (max configured 1)) remaining"

definition reserve_bytes :: "u64 \<Rightarrow> u64 \<Rightarrow> u64" where
  "reserve_bytes watch_pin configured = sat_add watch_pin (max configured 1)"

lemma floor_bytes_le: "floor_bytes configured flr \<le> max configured 1"
  by (simp add: floor_bytes_def)

lemma floor_bytes_max [simp]: "floor_bytes (max configured 1) flr = floor_bytes configured flr"
  by (simp add: floor_bytes_def)

lemma window_for_le_worst_case:
  "window_for need remaining configured flr behind \<le> worst_case_bytes need remaining configured"
  using floor_bytes_le [of configured flr]
  by (auto simp: window_for_def worst_case_bytes_def Let_def floor_bytes_def split: option.splits prod.splits)

lemma window_for_ge_need:
  "need \<le> remaining \<Longrightarrow> need \<le> window_for need remaining configured flr behind"
  by (auto simp: window_for_def Let_def split: option.splits prod.splits)

lemma window_for_le_remaining: "window_for need remaining configured flr behind \<le> remaining"
  by (simp add: window_for_def Let_def)

lemma window_for_jump:
  "window_for need remaining configured flr None = min (max need (floor_bytes configured flr)) remaining"
  by (simp add: window_for_def floor_bytes_def)

lemma window_for_read_out:
  assumes "0 < covered" and "covered \<le> consumed" and "covered * 2 \<le> U64_MAX"
  shows "window_for need remaining configured flr (Some (covered, consumed)) =
    min (max need (min (2 * covered) (max configured 1))) remaining"
  using assms by (simp add: window_for_def sat_mul_def mult.commute)

lemma window_for_pos:
  assumes "0 < remaining" and "0 < need \<or> 0 < flr"
  shows "0 < window_for need remaining configured flr behind"
  using assms
  by (auto simp: window_for_def Let_def floor_bytes_def sat_mul_def U64_MAX_def split: option.splits)

text \<open>
  A sequential walk: every window is read out and its successor is sized from it, over the
  part of the object the windows before it left.
\<close>

fun walk_windows :: "nat \<Rightarrow> u64 \<Rightarrow> u64 \<Rightarrow> u64 \<Rightarrow> u64 \<Rightarrow> u64 list" where
  "walk_windows 0 covered remaining configured flr = []"
| "walk_windows (Suc n) covered remaining configured flr =
     (let w = window_for 0 remaining configured flr (if covered = 0 then None else Some (covered, covered))
      in w # walk_windows n w (remaining - w) configured flr)"

lemma walk_windows_ramp:
  assumes "0 < covered" and "covered \<le> configured" and "2 * configured \<le> U64_MAX"
    and "n * configured \<le> remaining" and "i < n"
  shows "walk_windows n covered remaining configured flr ! i = min (2 ^ Suc i * covered) configured"
  using assms
proof (induction n arbitrary: covered remaining i)
  case 0
  then show ?case by simp
next
  case (Suc n)
  let ?w = "window_for 0 remaining configured flr (Some (covered, covered))"
  have conf: "max configured 1 = configured" "covered * 2 \<le> U64_MAX"
    using Suc.prems(1,2,3) by auto
  have "configured \<le> remaining" using Suc.prems(4) by auto
  then have w: "?w = min (2 * covered) configured"
    using window_for_read_out [OF Suc.prems(1) order_refl conf(2), of 0 remaining configured flr] conf(1)
    by simp
  then have pos: "0 < ?w" "?w \<le> configured" using Suc.prems(1,2) by auto
  have rem: "n * configured \<le> remaining - ?w"
    using Suc.prems(4) pos(2) by (simp add: algebra_simps)
  have tail: "walk_windows n ?w (remaining - ?w) configured flr ! j = min (2 ^ Suc j * ?w) configured"
    if "j < n" for j
    by (rule Suc.IH [OF pos Suc.prems(3) rem that])
  have step: "min (2 ^ Suc j * min (2 * covered) configured) configured
      = min (2 ^ Suc (Suc j) * covered) configured" for j
  proof (cases "2 * covered \<le> configured")
    case True
    then show ?thesis by (simp add: algebra_simps)
  next
    case False
    have a: "configured \<le> 2 ^ Suc j * configured" by simp
    have b: "configured \<le> 2 ^ Suc (Suc j) * covered"
    proof -
      have "configured \<le> 2 * covered" using False by simp
      also have "\<dots> \<le> 2 ^ Suc j * (2 * covered)" by simp
      finally show ?thesis by (simp add: mult.assoc)
    qed
    have "min (2 * covered) configured = configured" using False by simp
    then show ?thesis using min_absorb2 [OF a] min_absorb2 [OF b] by (simp only:)
  qed
  show ?case
  proof (cases i)
    case 0
    then show ?thesis using w Suc.prems(1) by (simp add: Let_def)
  next
    case (Suc j)
    then have "j < n" using Suc.prems(5) by simp
    from tail [OF this] step [of j] Suc Suc.prems(1) w show ?thesis
      by (simp add: Let_def)
  qed
qed

subsection \<open>Properties\<close>

text \<open>
  the write admission prices every window a run can be given: whatever the run before it
  left, the window is at most the worst case that was checked against the disk, never reads
  past the end of the object, and covers what the client asked for.
\<close>

lemma window_admitted:
  "window_for need remaining configured flr behind \<le> worst_case_bytes need remaining configured
   \<and> worst_case_bytes need remaining configured \<le> remaining
   \<and> min need remaining \<le> window_for need remaining configured flr behind"
proof (intro conjI)
  show "min need remaining \<le> window_for need remaining configured flr behind"
    by (simp add: window_for_def Let_def min.coboundedI1 max.coboundedI1)
qed (simp_all add: window_for_le_worst_case, simp add: worst_case_bytes_def)

text \<open>
  a client reading sequentially gets windows that double from the first one until they
  reach the configured window and then stay there.
\<close>

theorem window_ramp:
  assumes "0 < covered" and "covered \<le> configured" and "2 * configured \<le> U64_MAX"
    and "n * configured \<le> remaining" and "i < n"
  shows "walk_windows n covered remaining configured flr ! i = min (2 ^ Suc i * covered) configured"
  by (rule walk_windows_ramp [OF assms])

theorem window_ramp_witness:
  "walk_windows 3 2 30 10 2 ! 2 = min (2 ^ Suc 2 * 2) (10::nat)"
  by (rule window_ramp) (simp_all add: U64_MAX_def)

end
