(* ===== verification/Store.thy ===== *)
theory Store
  imports Prelude "HOL-Library.Product_Lexorder" "HOL-Library.List_Lexorder" "HOL-Library.Char_ord"
begin

text \<open>
  The cache directory, \<^verbatim>\<open>src/cache/store.rs\<close>: how its file names are made and read back,
  which names are reserved, and the scans and sweeps over it.

  The directory is the list of its regular files in \<^verbatim>\<open>read_dir\<close> order, each under its path
  relative to \<^verbatim>\<open>cache_dir\<close>; a path without a slash is a top-level file. \<open>remove_file\<close>,
  \<open>write_file\<close> and \<open>rename_file\<close> are the \<^verbatim>\<open>std::fs\<close> operations on it. Directories themselves
  (\<^verbatim>\<open>create_dir_all\<close>, \<^verbatim>\<open>prune_empty_parents\<close>) hold no bytes and are not represented. The
  free-space probe (\<^verbatim>\<open>statvfs\<close>) and the JSON decoder are arguments.
\<close>

subsection \<open>The directory\<close>

record stored_file =
  f_data :: "byte list"
  f_mtime :: "millis option"

type_synonym dir = "(string \<times> stored_file) list"

definition wf_dir :: "dir \<Rightarrow> bool" where
  "wf_dir d = distinct (map fst d)"

definition file_exists :: "dir \<Rightarrow> string \<Rightarrow> bool" where
  "file_exists d p = (map_of d p \<noteq> None)"

text \<open>\<^verbatim>\<open>metadata(path).map(|m| m.len()).unwrap_or(0)\<close>\<close>

definition file_len :: "dir \<Rightarrow> string \<Rightarrow> nat" where
  "file_len d p = (case map_of d p of None \<Rightarrow> 0 | Some f \<Rightarrow> length (f_data f))"

definition remove_file :: "string \<Rightarrow> dir \<Rightarrow> dir" where
  "remove_file p d = filter (\<lambda>(q, _). q \<noteq> p) d"

definition write_file :: "string \<Rightarrow> stored_file \<Rightarrow> dir \<Rightarrow> dir" where
  "write_file p f d = (p, f) # remove_file p d"

definition rename_file :: "string \<Rightarrow> string \<Rightarrow> dir \<Rightarrow> dir option" where
  "rename_file src dst d =
     (case map_of d src of
        None \<Rightarrow> None
      | Some f \<Rightarrow> Some (write_file dst f (remove_file src d)))"

definition top_level_files :: "dir \<Rightarrow> string list" where
  "top_level_files d = filter (\<lambda>p. CHR ''/'' \<notin> set p) (map fst d)"

fun remove_files :: "string list \<Rightarrow> dir \<Rightarrow> dir" where
  "remove_files [] d = d"
| "remove_files (p # ps) d = remove_files ps (remove_file p d)"

subsection \<open>Names\<close>

definition META_STORE_FILE :: string where
  "META_STORE_FILE = ''redb.db''"

definition NAME_MAX_BYTES :: nat where
  "NAME_MAX_BYTES = 255"

definition file_path :: "string \<Rightarrow> string" where
  "file_path key = key"

definition is_meta_store_name :: "string \<Rightarrow> bool" where
  "is_meta_store_name name = starts_with name META_STORE_FILE"

definition is_reserved_key :: "string \<Rightarrow> bool" where
  "is_reserved_key key =
     (let first = hd (split_on CHR ''/'' key)
      in starts_with first ''.'' \<or> is_meta_store_name first)"

definition replace_char :: "char \<Rightarrow> string \<Rightarrow> string \<Rightarrow> string" where
  "replace_char c r s = concat (map (\<lambda>x. if x = c then r else [x]) s)"

definition escape_key :: "string \<Rightarrow> string" where
  "escape_key key = replace_char CHR ''/'' ''%2F'' (replace_char CHR ''%'' ''%25'' key)"

definition hex_val :: "char \<Rightarrow> nat option" where
  "hex_val c =
     (let n = of_char c in
      if 48 \<le> n \<and> n \<le> 57 then Some (n - 48)
      else if 97 \<le> n \<and> n \<le> 102 then Some (n - 97 + 10)
      else if 65 \<le> n \<and> n \<le> 70 then Some (n - 65 + 10)
      else None)"

text \<open>
  \<^verbatim>\<open>String::push(byte as char)\<close>: a byte of 128 or more is the code point of that number,
  two bytes of UTF-8.
\<close>

definition push_byte_as_char :: "nat \<Rightarrow> string" where
  "push_byte_as_char n =
     (if n < 128 then [char_of n] else [char_of (192 + n div 64), char_of (128 + n mod 64)])"

fun unescape_key :: "string \<Rightarrow> string option" where
  "unescape_key [] = Some []"
| "unescape_key (c # cs) =
     (if c = CHR ''%'' then
        (case cs of
           a # b # rest \<Rightarrow>
             (case (hex_val a, hex_val b) of
                (Some hi, Some lo) \<Rightarrow> map_option (\<lambda>t. push_byte_as_char (hi * 16 + lo) @ t) (unescape_key rest)
              | _ \<Rightarrow> None)
         | _ \<Rightarrow> None)
      else if c = CHR ''/'' then None
      else map_option (\<lambda>t. push_byte_as_char (of_char c) @ t) (unescape_key cs))"

definition tmp_path :: "string \<Rightarrow> string \<Rightarrow> string" where
  "tmp_path key rand_hex = ''.tmp.'' @ replace_char CHR ''/'' ''_'' key @ ''.'' @ rand_hex"

definition seg_path :: "string \<Rightarrow> u64 \<Rightarrow> u64 \<Rightarrow> string" where
  "seg_path key s e = ''.seg.'' @ escape_key key @ ''.'' @ show_nat s @ ''-'' @ show_nat e"

definition segpart_path :: "string \<Rightarrow> u64 \<Rightarrow> u64 \<Rightarrow> string" where
  "segpart_path key s e = ''.segpart.'' @ escape_key key @ ''.'' @ show_nat s @ ''-'' @ show_nat e"

definition segmeta_path :: "string \<Rightarrow> string" where
  "segmeta_path key = ''.segmeta.'' @ escape_key key"

definition parse_seg_name :: "string \<Rightarrow> (string \<times> u64 \<times> u64) option" where
  "parse_seg_name name =
     Option.bind (strip_prefix ''.seg.'' name) (\<lambda>rest.
     Option.bind (rsplit_once CHR ''.'' rest) (\<lambda>(esc, rng).
     Option.bind (split_once CHR ''-'' rng) (\<lambda>(s, e).
     Option.bind (unescape_key esc) (\<lambda>k.
     Option.bind (parse_u64 s) (\<lambda>s'.
     Option.bind (parse_u64 e) (\<lambda>e'. Some (k, s', e')))))))"

datatype unstorable = TooLong | Reserved

definition storable :: "string \<Rightarrow> string \<Rightarrow> unstorable option" where
  "storable raw cache_key =
     (if length (escape_key raw) > NAME_MAX_BYTES then Some TooLong
      else if is_reserved_key cache_key then Some Reserved
      else None)"

definition is_meta_store_path :: "string \<Rightarrow> bool" where
  "is_meta_store_path dest = (CHR ''/'' \<notin> set dest \<and> is_meta_store_name dest)"

text \<open>\<^verbatim>\<open>None\<close> is the refused or failed install.\<close>

definition install_tmp :: "string \<Rightarrow> string \<Rightarrow> dir \<Rightarrow> dir option" where
  "install_tmp tmp dest d = (if is_meta_store_path dest then None else rename_file tmp dest d)"

subsection \<open>Scans and sweeps\<close>

definition has_room_for :: "u64 option \<Rightarrow> u64 \<Rightarrow> u64 \<Rightarrow> bool" where
  "has_room_for free want reserve =
     (case free of Some f \<Rightarrow> f - reserve \<ge> want | None \<Rightarrow> True)"

definition cleanup_tmps :: "dir \<Rightarrow> nat \<times> dir" where
  "cleanup_tmps d =
     (let tmps = filter (\<lambda>p. starts_with p ''.tmp.'') (top_level_files d)
      in (length tmps, remove_files tmps d))"

definition mtime_old :: "dir \<Rightarrow> u64 \<Rightarrow> millis \<Rightarrow> string \<Rightarrow> bool" where
  "mtime_old d ttl now p =
     (case map_of d p of
        None \<Rightarrow> True
      | Some f \<Rightarrow> (case f_mtime f of None \<Rightarrow> True | Some m \<Rightarrow> now - m \<ge> ttl))"

definition cleanup_stale_tmps :: "u64 \<Rightarrow> millis \<Rightarrow> dir \<Rightarrow> u64 \<times> dir" where
  "cleanup_stale_tmps ttl now d =
     (let olds = filter (\<lambda>p. starts_with p ''.tmp.'' \<and> mtime_old d ttl now p) (top_level_files d)
      in ((\<Sum>p\<leftarrow>olds. file_len d p), remove_files olds d))"

definition scan_object_files :: "dir \<Rightarrow> (string \<times> u64) list" where
  "scan_object_files d =
     map (\<lambda>(p, f). (replace_char CHR 0x5C ''/'' p, length (f_data f)))
       (filter (\<lambda>(p, f). \<not> is_reserved_key p \<and> p \<noteq> []) d)"

record seg_meta =
  sm_etag :: "string option"
  sm_total :: u64

record segment_file =
  sf_key :: string
  sf_start :: u64
  sf_end :: u64
  sf_len :: u64
  sf_etag :: "string option"
  sf_total :: u64

definition seg_meta_of :: "(byte list \<Rightarrow> seg_meta option) \<Rightarrow> dir \<Rightarrow> string \<Rightarrow> seg_meta" where
  "seg_meta_of decode d key =
     (case Option.bind (map_of d (segmeta_path key)) (\<lambda>f. decode (f_data f)) of
        Some m \<Rightarrow> m
      | None \<Rightarrow> \<lparr>sm_etag = None, sm_total = 0\<rparr>)"

definition is_seg_junk :: "string \<Rightarrow> bool" where
  "is_seg_junk p = (starts_with p ''.segpart.'' \<or> (starts_with p ''.seg.'' \<and> parse_seg_name p = None))"

definition scan_segment_files ::
  "(byte list \<Rightarrow> seg_meta option) \<Rightarrow> dir \<Rightarrow> segment_file list \<times> dir" where
  "scan_segment_files decode d =
     (let names = top_level_files d;
          d' = remove_files (filter is_seg_junk names) d;
          segs = filter (\<lambda>p. \<not> starts_with p ''.segpart.'' \<and> starts_with p ''.seg.'' \<and> parse_seg_name p \<noteq> None) names
      in (map (\<lambda>p. case parse_seg_name p of
                     Some (key, s, e) \<Rightarrow>
                       (let m = seg_meta_of decode d' key
                        in \<lparr>sf_key = key, sf_start = s, sf_end = e, sf_len = file_len d' p,
                            sf_etag = sm_etag m, sf_total = sm_total m\<rparr>)
                   | None \<Rightarrow> \<lparr>sf_key = [], sf_start = 0, sf_end = 0, sf_len = 0, sf_etag = None, sf_total = 0\<rparr>)
            segs, d'))"

definition key_segment_files :: "dir \<Rightarrow> string \<Rightarrow> string list" where
  "key_segment_files d key =
     (let pre = ''.seg.'' @ escape_key key @ ''.''
      in filter (\<lambda>p. starts_with p pre \<and> parse_seg_name p \<noteq> None) (top_level_files d))"

definition segments_for_key :: "dir \<Rightarrow> string \<Rightarrow> (u64 \<times> u64 \<times> string) list" where
  "segments_for_key d key =
     sort (List.map_filter (\<lambda>p. map_option (\<lambda>(_, s, e). (s, e, p)) (parse_seg_name p))
             (key_segment_files d key))"

definition remove_key_segments :: "string \<Rightarrow> string option \<Rightarrow> dir \<Rightarrow> u64 \<times> dir" where
  "remove_key_segments key keep d =
     (let gone = filter (\<lambda>p. keep \<noteq> Some p) (key_segment_files d key)
      in ((\<Sum>p\<leftarrow>gone. file_len d p), remove_file (segmeta_path key) (remove_files gone d)))"

definition segment_index :: "dir \<Rightarrow> string \<Rightarrow> string list" where
  "segment_index d key =
     filter (\<lambda>p. starts_with p ''.seg.'' \<and>
                 (case parse_seg_name p of Some (k, _, _) \<Rightarrow> k = key | None \<Rightarrow> False))
       (top_level_files d)"

definition sweep_segparts :: "u64 \<Rightarrow> millis \<Rightarrow> dir \<Rightarrow> u64 \<times> dir" where
  "sweep_segparts ttl now d =
     (let olds = filter (\<lambda>p. starts_with p ''.segpart.'' \<and> mtime_old d ttl now p) (top_level_files d)
      in ((\<Sum>p\<leftarrow>olds. file_len d p), remove_files olds d))"

definition sweep_orphan_metas :: "dir \<Rightarrow> dir" where
  "sweep_orphan_metas d =
     (let files = top_level_files d;
          live = List.map_filter (\<lambda>p. if starts_with p ''.seg.''
                   then map_option (\<lambda>(k, _, _). k) (parse_seg_name p) else None) files;
          orphans = filter (\<lambda>p. case strip_prefix ''.segmeta.'' p of
                      None \<Rightarrow> False
                    | Some esc \<Rightarrow>
                        (let key = (case unescape_key esc of Some k \<Rightarrow> k | None \<Rightarrow> [])
                         in key \<notin> set live)) files
      in remove_files orphans d)"


subsection \<open>Lemmas: the directory\<close>

lemma map_of_remove_file [simp]: "map_of (remove_file p d) q = (if q = p then None else map_of d q)"
  by (induction d) (auto simp: remove_file_def)

lemma map_of_write_file [simp]: "map_of (write_file p f d) q = (if q = p then Some f else map_of d q)"
  by (simp add: write_file_def)

lemma map_of_remove_files [simp]:
  "map_of (remove_files ps d) q = (if q \<in> set ps then None else map_of d q)"
  by (induction ps arbitrary: d) auto

lemma wf_dir_remove_file [inv_intros]: "wf_dir d \<Longrightarrow> wf_dir (remove_file p d)"
  by (auto simp: wf_dir_def remove_file_def intro: distinct_map_filter_neq)

lemma wf_dir_remove_files [inv_intros]: "wf_dir d \<Longrightarrow> wf_dir (remove_files ps d)"
  by (induction ps arbitrary: d) (auto intro: wf_dir_remove_file)

lemma wf_dir_write_file [inv_intros]: "wf_dir d \<Longrightarrow> wf_dir (write_file p f d)"
proof -
  assume "wf_dir d"
  then have "wf_dir (remove_file p d)" by (rule wf_dir_remove_file)
  moreover have "p \<notin> fst ` set (remove_file p d)" by (auto simp: remove_file_def)
  ultimately show ?thesis by (simp add: wf_dir_def write_file_def)
qed

lemma file_exists_iff: "file_exists d p \<longleftrightarrow> p \<in> fst ` set d"
  by (simp add: file_exists_def map_of_eq_None_iff)

lemma file_exists_remove [simp]: "file_exists (remove_file p d) q \<longleftrightarrow> q \<noteq> p \<and> file_exists d q"
  by (simp add: file_exists_def)

lemma file_exists_removes [simp]: "file_exists (remove_files ps d) q \<longleftrightarrow> q \<notin> set ps \<and> file_exists d q"
  by (simp add: file_exists_def)

lemma file_exists_write [simp]: "file_exists (write_file p f d) q \<longleftrightarrow> q = p \<or> file_exists d q"
  by (simp add: file_exists_def)

lemma file_len_remove [simp]: "file_len (remove_file p d) q = (if q = p then 0 else file_len d q)"
  by (simp add: file_len_def)

lemma file_len_removes [simp]: "file_len (remove_files ps d) q = (if q \<in> set ps then 0 else file_len d q)"
  by (simp add: file_len_def)

lemma file_len_write [simp]:
  "file_len (write_file p f d) q = (if q = p then length (f_data f) else file_len d q)"
  by (simp add: file_len_def)

lemma rename_file_Some:
  "rename_file src dst d = Some d' \<longleftrightarrow>
     (\<exists>f. map_of d src = Some f \<and> d' = write_file dst f (remove_file src d))"
  by (auto simp: rename_file_def split: option.splits)

lemma top_level_mem: "p \<in> set (top_level_files d) \<longleftrightarrow> file_exists d p \<and> CHR ''/'' \<notin> set p"
  by (auto simp: top_level_files_def file_exists_iff)

lemma top_level_distinct: "wf_dir d \<Longrightarrow> distinct (top_level_files d)"
  by (simp add: wf_dir_def top_level_files_def)

subsection \<open>Lemmas: names are read back\<close>

definition esc_char :: "char \<Rightarrow> string" where
  "esc_char c = (if c = CHR ''%'' then ''%25'' else if c = CHR ''/'' then ''%2F'' else [c])"

lemma escape_key_Nil [simp]: "escape_key [] = []"
  by (simp add: escape_key_def replace_char_def)

lemma escape_key_Cons [simp]: "escape_key (c # k) = esc_char c @ escape_key k"
  by (simp add: escape_key_def replace_char_def esc_char_def)

lemma escape_key_append [simp]: "escape_key (a @ b) = escape_key a @ escape_key b"
  by (induction a) auto

lemma escape_key_no_slash [simp]: "CHR ''/'' \<notin> set (escape_key k)"
  by (induction k) (auto simp: esc_char_def)

lemma esc_char_dot [simp]: "esc_char CHR ''.'' = ''.''"
  by (simp add: esc_char_def)

lemma esc_char_cancel: "esc_char c @ xs = esc_char c' @ ys \<Longrightarrow> c = c' \<and> xs = ys"
  by (auto simp: esc_char_def split: if_splits)

lemma escape_key_prefix:
  "escape_key y = escape_key x @ t \<Longrightarrow> \<exists>u. y = x @ u \<and> t = escape_key u"
proof (induction x arbitrary: y)
  case Nil
  then show ?case by simp
next
  case (Cons c x)
  have "escape_key y \<noteq> []" using Cons.prems by (auto simp: esc_char_def)
  then obtain c' y' where y: "y = c' # y'" by (cases y) auto
  have "esc_char c' @ escape_key y' = esc_char c @ (escape_key x @ t)"
    using Cons.prems y by simp
  from esc_char_cancel [OF this] have eq: "c' = c" "escape_key y' = escape_key x @ t" by simp_all
  from Cons.IH [OF eq(2)] obtain u where "y' = x @ u \<and> t = escape_key u" by blast
  then show ?case using y eq(1) by simp
qed

lemma escape_key_eq_Nil: "escape_key u = [] \<longleftrightarrow> u = []"
  by (cases u) (auto simp: esc_char_def)

lemma escape_key_inj: "escape_key x = escape_key y \<Longrightarrow> x = y"
proof -
  assume "escape_key x = escape_key y"
  then have "escape_key x = escape_key y @ []" by simp
  from escape_key_prefix [OF this] obtain u where "x = y @ u" and "[] = escape_key u" by blast
  then show ?thesis using escape_key_eq_Nil [of u] by simp
qed

definition mangle :: "string \<Rightarrow> string" where
  "mangle k = concat (map (\<lambda>c. push_byte_as_char (of_char c)) k)"

definition ascii :: "string \<Rightarrow> bool" where
  "ascii k = (\<forall>c\<in>set k. of_char c < (128::nat))"

lemma push_byte_ascii [simp]: "of_char c < (128::nat) \<Longrightarrow> push_byte_as_char (of_char c) = [c]"
  by (simp add: push_byte_as_char_def)

lemma mangle_Nil [simp]: "mangle [] = []" by (simp add: mangle_def)

lemma mangle_Cons: "mangle (c # k) = push_byte_as_char (of_char c) @ mangle k"
  by (simp add: mangle_def)

lemma mangle_ascii: "ascii k \<Longrightarrow> mangle k = k"
  by (induction k) (auto simp: mangle_Cons ascii_def)

lemma length_mangle: "length k \<le> length (mangle k)"
  by (induction k) (auto simp: mangle_Cons push_byte_as_char_def)

lemma mangle_fixed_iff: "mangle k = k \<longleftrightarrow> ascii k"
proof
  show "ascii k \<Longrightarrow> mangle k = k" by (rule mangle_ascii)
  show "mangle k = k \<Longrightarrow> ascii k"
  proof (induction k)
    case (Cons c k)
    show ?case
    proof (cases "of_char c < (128::nat)")
      case True
      then show ?thesis using Cons by (simp add: mangle_Cons ascii_def)
    next
      case False
      then have "length (mangle (c # k)) = 2 + length (mangle k)"
        by (simp add: mangle_Cons push_byte_as_char_def)
      then show ?thesis using Cons.prems length_mangle [of k] by simp
    qed
  qed (simp add: ascii_def)
qed

lemma char_of_escaped [simp]: "char_of (37::nat) = CHR ''%''" "char_of (47::nat) = CHR ''/''"
  by (simp_all add: char_of_eq_iff)

lemma unescape_escape: "unescape_key (escape_key k) = Some (mangle k)"
  by (induction k) (auto simp: esc_char_def mangle_Cons hex_val_def push_byte_as_char_def)

lemma parse_seg_path:
  assumes "s < 2 ^ 64" and "e < 2 ^ 64"
  shows "parse_seg_name (seg_path k s e) = Some (mangle k, s, e)"
proof -
  have dot: "CHR ''.'' \<notin> set (show_nat s @ CHR ''-'' # show_nat e)" by simp
  have 1: "strip_prefix ''.seg.'' (seg_path k s e)
      = Some (escape_key k @ CHR ''.'' # (show_nat s @ CHR ''-'' # show_nat e))"
    using strip_prefix_append [of "''.seg.''"] by (simp add: seg_path_def)
  note 2 = rsplit_once_append [OF dot, of "escape_key k"]
  have 3: "split_once CHR ''-'' (show_nat s @ CHR ''-'' # show_nat e) = Some (show_nat s, show_nat e)"
    by (rule split_once_append) simp
  show ?thesis
    using assms by (simp add: parse_seg_name_def 1 2 3 unescape_escape)
qed

lemma seg_path_top [simp]: "CHR ''/'' \<notin> set (seg_path k s e)"
  by (simp add: seg_path_def)

lemma segpart_path_top [simp]: "CHR ''/'' \<notin> set (segpart_path k s e)"
  by (simp add: segpart_path_def)

lemma segmeta_path_top [simp]: "CHR ''/'' \<notin> set (segmeta_path k)"
  by (simp add: segmeta_path_def)

lemma seg_path_inj:
  assumes "seg_path k s e = seg_path k' s' e'"
    and "s < 2 ^ 64" "e < 2 ^ 64" "s' < 2 ^ 64" "e' < 2 ^ 64"
  shows "k = k' \<and> s = s' \<and> e = e'"
proof -
  have se: "s = s' \<and> e = e'"
    using parse_seg_path [OF assms(2,3), of k] parse_seg_path [OF assms(4,5), of k'] assms(1) by simp
  then have "escape_key k = escape_key k'" using assms(1) by (simp add: seg_path_def)
  then show ?thesis using se escape_key_inj by blast
qed

lemma seg_not_segpart [simp]: "\<not> starts_with (seg_path k s e) ''.segpart.''"
  by (auto simp: seg_path_def starts_with_iff)

lemma seg_neq_segmeta [simp]: "seg_path k s e \<noteq> segmeta_path k'"
  by (simp add: seg_path_def segmeta_path_def)

lemma seg_neq_segpart [simp]: "seg_path k s e \<noteq> segpart_path k' s' e'"
  by (simp add: seg_path_def segpart_path_def)

lemma seg_starts [simp]: "starts_with (seg_path k s e) ''.seg.''"
  by (simp add: seg_path_def starts_with_def)

subsection \<open>Lemmas: which files a key's scan finds\<close>

lemma seg_path_prefix_iff:
  "starts_with (seg_path k' s e) (''.seg.'' @ escape_key k @ ''.'') \<longleftrightarrow> k' = k \<or> starts_with k' (k @ ''.'')"
proof
  let ?R = "show_nat s @ CHR ''-'' # show_nat e"
  assume "starts_with (seg_path k' s e) (''.seg.'' @ escape_key k @ ''.'')"
  then obtain t where "escape_key k' @ CHR ''.'' # ?R = escape_key k @ CHR ''.'' # t"
    by (auto simp: starts_with_iff seg_path_def)
  then obtain us where
    "escape_key k' = escape_key k @ us \<and> us @ CHR ''.'' # ?R = CHR ''.'' # t
     \<or> escape_key k' @ us = escape_key k \<and> CHR ''.'' # ?R = us @ CHR ''.'' # t"
    by (rule append_eq_append_conv2 [THEN iffD1, THEN exE]) blast
  then show "k' = k \<or> starts_with k' (k @ ''.'')"
  proof (elim disjE conjE)
    assume pre: "escape_key k' = escape_key k @ us" and eq: "us @ CHR ''.'' # ?R = CHR ''.'' # t"
    show ?thesis
    proof (cases us)
      case Nil
      then show ?thesis using pre escape_key_inj by auto
    next
      case (Cons c us')
      then have "c = CHR ''.''" using eq by simp
      with pre Cons have "escape_key k' = escape_key (k @ ''.'') @ us'" by simp
      from escape_key_prefix [OF this] show ?thesis by (auto simp: starts_with_iff)
    qed
  next
    assume pre: "escape_key k' @ us = escape_key k" and eq: "CHR ''.'' # ?R = us @ CHR ''.'' # t"
    show ?thesis
    proof (cases us)
      case Nil
      then show ?thesis using pre escape_key_inj by auto
    next
      case (Cons c us')
      then have "CHR ''.'' \<in> set ?R" using eq by simp
      then show ?thesis by simp
    qed
  qed
next
  assume "k' = k \<or> starts_with k' (k @ ''.'')"
  then show "starts_with (seg_path k' s e) (''.seg.'' @ escape_key k @ ''.'')"
    by (auto simp: starts_with_iff seg_path_def)
qed

lemma key_segment_files_seg_path:
  assumes "s < 2 ^ 64" and "e < 2 ^ 64"
  shows "seg_path k' s e \<in> set (key_segment_files d k) \<longleftrightarrow>
    file_exists d (seg_path k' s e) \<and> (k' = k \<or> starts_with k' (k @ ''.''))"
  using seg_path_prefix_iff [of k' s e k] parse_seg_path [OF assms, of k']
  by (auto simp: key_segment_files_def top_level_mem)

lemma key_segment_files_exist: "p \<in> set (key_segment_files d k) \<Longrightarrow> file_exists d p"
  by (auto simp: key_segment_files_def top_level_mem Let_def)

lemma segments_for_key_mem:
  "(s, e, p) \<in> set (segments_for_key d k) \<longleftrightarrow>
     p \<in> set (key_segment_files d k) \<and> (\<exists>k'. parse_seg_name p = Some (k', s, e))"
  by (force simp: segments_for_key_def map_filter_def split: option.splits)

lemma segments_for_key_sorted: "sorted (map fst (segments_for_key d k))"
proof -
  have "sorted (segments_for_key d k)" by (simp add: segments_for_key_def)
  then show ?thesis
    by (auto simp: sorted_iff_nth_mono less_eq_prod_def dest: nth_map)
      (metis (no_types, opaque_lifting) fst_conv le_less_linear nth_map order.strict_implies_order prod.collapse)
qed

subsection \<open>Properties\<close>

text \<open>
  C20: a segment's file name read back gives the range it was made from, and the key exactly
  when the key is ASCII: bytes of 128 and above are pushed as code points, so the name of any
  other key parses to a different key.
\<close>

theorem seg_name_roundtrip:
  assumes "s < 2 ^ 64" and "e < 2 ^ 64"
  shows "\<exists>k'. parse_seg_name (seg_path k s e) = Some (k', s, e) \<and> (k' = k \<longleftrightarrow> ascii k)"
  using parse_seg_path [OF assms, of k] mangle_fixed_iff [of k] by simp

theorem seg_name_roundtrip_witness:
  "\<exists>k'. parse_seg_name (seg_path ''a/b.mkv'' 0 4096) = Some (k', 0, 4096) \<and> (k' = ''a/b.mkv'' \<longleftrightarrow> ascii ''a/b.mkv'')"
  by (rule seg_name_roundtrip) simp_all

text \<open>
  a key's segment scan finds every segment of the key on disk, and also every segment of
  the keys that continue it with a dot: the scan of \<^verbatim>\<open>film\<close> returns the segments of
  \<^verbatim>\<open>film.mkv\<close>.
\<close>

lemma segments_for_key_exact:
  assumes "s < 2 ^ 64" and "e < 2 ^ 64"
  shows "(s, e, seg_path k' s e) \<in> set (segments_for_key d k) \<longleftrightarrow>
    file_exists d (seg_path k' s e) \<and> (k' = k \<or> starts_with k' (k @ ''.''))"
  using key_segment_files_seg_path [OF assms, of k' d k] parse_seg_path [OF assms, of k']
  by (simp add: segments_for_key_mem)

lemma segments_for_key_exact_witness:
  "(0, 2, seg_path ''film.mkv'' 0 2) \<in> set (segments_for_key
      [(seg_path ''film.mkv'' 0 2, \<lparr>f_data = [1, 2], f_mtime = None\<rparr>)] ''film'') \<longleftrightarrow>
    file_exists [(seg_path ''film.mkv'' 0 2, \<lparr>f_data = [1, 2], f_mtime = None\<rparr>)] (seg_path ''film.mkv'' 0 2)
    \<and> (''film.mkv'' = ''film'' \<or> starts_with ''film.mkv'' (''film'' @ ''.''))"
  by (rule segments_for_key_exact) simp_all

end
