(* ===== verification/Keys.thy ===== *)
theory Keys
  imports Store
begin

text \<open>
  From a request path to serving coordinates: key validation and the bucket alias of
  \<^verbatim>\<open>src/key.rs\<close>, and the longest-prefix route table of \<^verbatim>\<open>src/routing.rs\<close>.

  \<open>walk_path\<close> is the specification of confinement: it follows a path's segments from a
  root and fails when a parent segment would leave it.
\<close>

datatype key_error =
  Empty | Absolute | Traversal | Nul | Backslash | BadPercent | ReservedName | KeyTooLong

subsection \<open>Percent decoding\<close>

text \<open>\<^verbatim>\<open>String::from_utf8\<close> accepts exactly the well-formed sequences of this table.\<close>

definition cont_byte :: "nat \<Rightarrow> bool" where
  "cont_byte b = (128 \<le> b \<and> b \<le> 191)"

fun utf8_ok :: "nat list \<Rightarrow> bool" where
  "utf8_ok [] = True"
| "utf8_ok (a # bs) =
     (if a < 128 then utf8_ok bs
      else if 194 \<le> a \<and> a \<le> 223 then
        (case bs of b # rest \<Rightarrow> cont_byte b \<and> utf8_ok rest | _ \<Rightarrow> False)
      else if 224 \<le> a \<and> a \<le> 239 then
        (case bs of
           b # c # rest \<Rightarrow>
             (if a = 224 then 160 \<le> b \<and> b \<le> 191
              else if a = 237 then 128 \<le> b \<and> b \<le> 159 else cont_byte b)
             \<and> cont_byte c \<and> utf8_ok rest
         | _ \<Rightarrow> False)
      else if 240 \<le> a \<and> a \<le> 244 then
        (case bs of
           b # c # e # rest \<Rightarrow>
             (if a = 240 then 144 \<le> b \<and> b \<le> 191
              else if a = 244 then 128 \<le> b \<and> b \<le> 143 else cont_byte b)
             \<and> cont_byte c \<and> cont_byte e \<and> utf8_ok rest
         | _ \<Rightarrow> False)
      else False)"

definition utf8_valid :: "string \<Rightarrow> bool" where
  "utf8_valid s = utf8_ok (map of_char s)"

fun percent_bytes :: "string \<Rightarrow> string option" where
  "percent_bytes [] = Some []"
| "percent_bytes (c # cs) =
     (if c = CHR ''%'' then
        (case cs of
           a # b # rest \<Rightarrow>
             (case (hex_val a, hex_val b) of
                (Some hi, Some lo) \<Rightarrow> map_option (\<lambda>t. char_of (hi * 16 + lo) # t) (percent_bytes rest)
              | _ \<Rightarrow> None)
         | _ \<Rightarrow> None)
      else map_option (\<lambda>t. c # t) (percent_bytes cs))"

definition percent_decode :: "string \<Rightarrow> key_error + string" where
  "percent_decode s =
     (case percent_bytes s of
        None \<Rightarrow> Inl BadPercent
      | Some out \<Rightarrow> if utf8_valid out then Inr out else Inl BadPercent)"

subsection \<open>Validation\<close>

definition validate_key :: "string \<Rightarrow> key_error + string" where
  "validate_key raw =
     (if raw = [] then Inl Empty
      else if CHR 0x00 \<in> set raw then Inl Nul
      else if CHR 0x5C \<in> set raw then Inl Backslash
      else if starts_with raw ''/'' then Inl Absolute
      else case percent_decode raw of
        Inl err \<Rightarrow> Inl err
      | Inr decoded \<Rightarrow>
          if CHR 0x00 \<in> set decoded then Inl Nul
          else if CHR 0x5C \<in> set decoded then Inl Backslash
          else if starts_with decoded ''/'' then Inl Absolute
          else if ''..'' \<in> set (split_on CHR ''/'' decoded) then Inl Traversal
          else if (\<exists>seg\<in>set (split_on CHR ''/'' raw).
                     seg = ''..'' \<or> seg = ''%2e%2e'' \<or> seg = ''%2E%2E'') then Inl Traversal
          else Inr raw)"

definition reject_unstorable :: "string \<Rightarrow> string \<Rightarrow> key_error option" where
  "reject_unstorable raw cache_key =
     (case storable raw cache_key of
        None \<Rightarrow> None
      | Some TooLong \<Rightarrow> Some KeyTooLong
      | Some Reserved \<Rightarrow> Some ReservedName)"

subsection \<open>The route table\<close>

record route_rule =
  rr_prefix :: string
  rr_upstream :: string

definition route_table_new :: "route_rule list \<Rightarrow> route_rule list" where
  "route_table_new rules = sort_key (\<lambda>r. - int (length (rr_prefix r))) rules"

definition route_matches :: "string \<Rightarrow> route_rule \<Rightarrow> bool" where
  "route_matches key r = (rr_prefix r = [] \<or> starts_with key (rr_prefix r))"

text \<open>\<^verbatim>\<open>None\<close> is the panic on an empty table.\<close>

definition route_resolve :: "route_rule list \<Rightarrow> string \<Rightarrow> string option" where
  "route_resolve table key =
     (case find (route_matches key) table of
        Some r \<Rightarrow> Some (rr_upstream r)
      | None \<Rightarrow> (case table of [] \<Rightarrow> None | r # _ \<Rightarrow> Some (rr_upstream r)))"

subsection \<open>Resolution\<close>

record resolved_key =
  cache_key :: string
  backend_key :: string
  upstream_id :: string

definition split_bucket :: "string \<Rightarrow> string list \<Rightarrow> (string \<times> string) option" where
  "split_bucket path ids =
     (case split_once CHR ''/'' path of
        None \<Rightarrow> None
      | Some (first, rest) \<Rightarrow> if rest = [] \<or> first \<notin> set ids then None else Some (first, rest))"

text \<open>The outer option is the route table's panic.\<close>

definition resolve_key ::
  "string \<Rightarrow> route_rule list \<Rightarrow> string list \<Rightarrow> (key_error + resolved_key) option" where
  "resolve_key raw routes buckets =
     (case split_bucket raw buckets of
        Some (bucket, rest) \<Rightarrow>
          Some (case validate_key raw of
                  Inl e \<Rightarrow> Inl e
                | Inr ck \<Rightarrow>
                    (case reject_unstorable raw ck of
                       Some e \<Rightarrow> Inl e
                     | None \<Rightarrow>
                         (case validate_key rest of
                            Inl e \<Rightarrow> Inl e
                          | Inr bk \<Rightarrow> Inr \<lparr>cache_key = ck, backend_key = bk, upstream_id = bucket\<rparr>)))
      | None \<Rightarrow>
          (case validate_key raw of
             Inl e \<Rightarrow> Some (Inl e)
           | Inr ck \<Rightarrow>
               (case reject_unstorable raw ck of
                  Some e \<Rightarrow> Some (Inl e)
                | None \<Rightarrow>
                    map_option (\<lambda>u. Inr \<lparr>cache_key = ck, backend_key = ck, upstream_id = u\<rparr>)
                      (route_resolve routes ck))))"

subsection \<open>Lemmas\<close>

text \<open>Following a path's segments from a root: \<open>None\<close> when it leaves the root.\<close>

fun walk_path :: "string list \<Rightarrow> string list \<Rightarrow> string list option" where
  "walk_path here [] = Some here"
| "walk_path here (seg # segs) =
     (if seg = [] \<or> seg = ''.'' then walk_path here segs
      else if seg = ''..'' then (case here of [] \<Rightarrow> None | _ # up \<Rightarrow> walk_path up segs)
      else walk_path (seg # here) segs)"

lemma walk_path_no_parent: "''..'' \<notin> set segs \<Longrightarrow> walk_path here segs \<noteq> None"
  by (induction segs arbitrary: here) auto

lemma validate_key_InrD:
  assumes "validate_key raw = Inr k"
  obtains d where "k = raw" and "raw \<noteq> []" and "percent_decode raw = Inr d"
    and "''..'' \<notin> set (split_on CHR ''/'' raw)" and "''..'' \<notin> set (split_on CHR ''/'' d)"
    and "\<not> starts_with raw ''/''" and "\<not> starts_with d ''/''"
    and "CHR 0x00 \<notin> set raw" and "CHR 0x00 \<notin> set d" and "CHR 0x5C \<notin> set d"
  using assms by (auto simp: validate_key_def split: if_splits sum.splits)

lemma find_sorted_max:
  assumes "sorted (map f xs)" and "find P xs = Some x"
  shows "x \<in> set xs \<and> P x \<and> (\<forall>y\<in>set xs. P y \<longrightarrow> f x \<le> f y)"
  using assms by (induction xs) (auto split: if_splits)

lemma route_table_new_set [simp]: "set (route_table_new rules) = set rules"
  by (simp add: route_table_new_def)

lemma route_resolve_longest:
  assumes "find (route_matches key) (route_table_new rules) = Some r"
  shows "r \<in> set rules \<and> route_matches key r
    \<and> (\<forall>r'\<in>set rules. route_matches key r' \<longrightarrow> length (rr_prefix r') \<le> length (rr_prefix r))"
proof -
  have "sorted (map (\<lambda>r. - int (length (rr_prefix r))) (route_table_new rules))"
    by (simp add: route_table_new_def)
  from find_sorted_max [OF this assms] show ?thesis by auto
qed

lemma resolve_key_InrD:
  assumes "resolve_key raw routes buckets = Some (Inr rk)"
  shows "cache_key rk = raw \<and> validate_key raw = Inr raw \<and> storable raw raw = None
    \<and> validate_key (backend_key rk) = Inr (backend_key rk)
    \<and> (if split_bucket raw buckets = None
       then backend_key rk = raw \<and> route_resolve routes raw = Some (upstream_id rk)
       else raw = upstream_id rk @ CHR ''/'' # backend_key rk \<and> upstream_id rk \<in> set buckets)"
proof -
  have val: "validate_key s = Inr t \<Longrightarrow> t = s" for s t
    by (erule validate_key_InrD) simp
  show ?thesis
  proof (cases "split_bucket raw buckets")
    case None
    obtain ck where "validate_key raw = Inr ck"
      using assms None by (auto simp: resolve_key_def split: sum.splits)
    with val have "validate_key raw = Inr raw" by blast
    then show ?thesis using assms None
      by (auto simp: resolve_key_def reject_unstorable_def
          split: sum.splits option.splits unstorable.splits dest: val)
  next
    case (Some br)
    obtain b r where br: "br = (b, r)" by (cases br)
    have parts: "raw = b @ CHR ''/'' # r" "b \<in> set buckets"
      using Some br by (auto simp: split_bucket_def split: option.splits if_splits dest: split_once_SomeD)
    obtain ck bk where "validate_key raw = Inr ck" "validate_key r = Inr bk"
      using assms Some br by (auto simp: resolve_key_def split: sum.splits option.splits)
    with val have "validate_key raw = Inr raw" "validate_key r = Inr r" by blast+
    then show ?thesis using assms Some br parts
      by (auto simp: resolve_key_def reject_unstorable_def
          split: sum.splits option.splits unstorable.splits dest: val)
  qed
qed

text \<open>The namespace of client keys and that of the directory's own files are disjoint.\<close>

lemma split_on_no_sep: "c \<notin> set s \<Longrightarrow> split_on c s = [s]"
  by (induction s) auto

lemma storable_not_infrastructure:
  assumes "storable raw key = None" and "CHR ''/'' \<notin> set p"
    and "starts_with p ''.'' \<or> is_meta_store_name p"
  shows "file_path key \<noteq> p"
  using assms
  by (auto simp: storable_def is_reserved_key_def file_path_def split_on_no_sep Let_def split: if_splits)

lemma artifact_names_dotted:
  "starts_with (seg_path k s e) ''.''" "starts_with (segpart_path k s e) ''.''"
  "starts_with (segmeta_path k) ''.''" "starts_with (tmp_path k r) ''.''"
  by (simp_all add: seg_path_def segpart_path_def segmeta_path_def tmp_path_def starts_with_def)

subsection \<open>Properties\<close>

text \<open>
  C18: a validated key never names anything outside the directory it is joined to, neither as
  it is written nor as a provider would decode it.
\<close>

theorem validate_key_confined:
  assumes "validate_key raw = Inr k"
  shows "k = raw \<and> walk_path [] (split_on CHR ''/'' k) \<noteq> None
    \<and> (\<exists>d. percent_decode raw = Inr d \<and> walk_path [] (split_on CHR ''/'' d) \<noteq> None
        \<and> \<not> starts_with d ''/'')"
  using assms
  by (rule validate_key_InrD) (use walk_path_no_parent in blast)

theorem validate_key_confined_witness:
  "''a/%62'' = ''a/%62'' \<and> walk_path [] (split_on CHR ''/'' ''a/%62'') \<noteq> None
    \<and> (\<exists>d. percent_decode ''a/%62'' = Inr d \<and> walk_path [] (split_on CHR ''/'' d) \<noteq> None
        \<and> \<not> starts_with d ''/'')"
  by (rule validate_key_confined) code_simp

text \<open>
  routing picks the rule with the longest prefix of the key whenever any rule matches;
  when none does, it still answers, with the table's first rule.
\<close>

theorem route_longest_prefix:
  assumes "route_resolve (route_table_new rules) key = Some u"
  shows "\<exists>r\<in>set rules. rr_upstream r = u
    \<and> (if \<exists>r'\<in>set rules. route_matches key r'
       then route_matches key r
         \<and> (\<forall>r'\<in>set rules. route_matches key r' \<longrightarrow> length (rr_prefix r') \<le> length (rr_prefix r))
       else r = hd (route_table_new rules))"
proof (cases "find (route_matches key) (route_table_new rules)")
  case None
  then have no: "\<not> (\<exists>r'\<in>set rules. route_matches key r')" by (simp add: find_None_iff)
  obtain r rs where "route_table_new rules = r # rs"
    using assms None by (auto simp: route_resolve_def split: list.splits)
  moreover from this have "r \<in> set rules" using route_table_new_set [of rules] by auto
  ultimately show ?thesis using assms None no by (auto simp: route_resolve_def)
next
  case (Some r)
  then show ?thesis
    using route_resolve_longest [OF Some] assms by (auto simp: route_resolve_def)
qed

theorem route_longest_prefix_witness:
  "\<exists>r\<in>set [\<lparr>rr_prefix = [], rr_upstream = ''d''\<rparr>, \<lparr>rr_prefix = ''a/'', rr_upstream = ''u''\<rparr>]. rr_upstream r = ''u''
    \<and> (if \<exists>r'\<in>set [\<lparr>rr_prefix = [], rr_upstream = ''d''\<rparr>, \<lparr>rr_prefix = ''a/'', rr_upstream = ''u''\<rparr>]. route_matches ''a/x'' r'
       then route_matches ''a/x'' r
         \<and> (\<forall>r'\<in>set [\<lparr>rr_prefix = [], rr_upstream = ''d''\<rparr>, \<lparr>rr_prefix = ''a/'', rr_upstream = ''u''\<rparr>].
              route_matches ''a/x'' r' \<longrightarrow> length (rr_prefix r') \<le> length (rr_prefix r))
       else r = hd (route_table_new [\<lparr>rr_prefix = [], rr_upstream = ''d''\<rparr>, \<lparr>rr_prefix = ''a/'', rr_upstream = ''u''\<rparr>]))"
  by (rule route_longest_prefix) code_simp

text \<open>
  A resolved request keeps the whole path as its cache key; under a bucket alias the
  provider sees the path behind the bucket and the bucket names the upstream, otherwise the
  provider sees the cache key and the route table names the upstream. Both keys are validated
  and no file the cache keeps for itself lies at the cache key's path.
\<close>

lemma resolve_key_coordinates:
  assumes "resolve_key raw routes buckets = Some (Inr rk)"
  shows "cache_key rk = raw \<and> validate_key (backend_key rk) = Inr (backend_key rk)
    \<and> (if split_bucket raw buckets = None
       then backend_key rk = raw \<and> route_resolve routes raw = Some (upstream_id rk)
       else raw = upstream_id rk @ CHR ''/'' # backend_key rk \<and> upstream_id rk \<in> set buckets)
    \<and> file_path (cache_key rk) \<noteq> seg_path k s e \<and> file_path (cache_key rk) \<noteq> segpart_path k s e
    \<and> file_path (cache_key rk) \<noteq> segmeta_path k \<and> file_path (cache_key rk) \<noteq> META_STORE_FILE"
proof -
  note R = resolve_key_InrD [OF assms]
  have "storable raw raw = None" using R by blast
  note free = storable_not_infrastructure [OF this]
  have "file_path raw \<noteq> META_STORE_FILE"
    by (rule free) (simp_all add: META_STORE_FILE_def is_meta_store_name_def starts_with_def)
  moreover have "file_path raw \<noteq> seg_path k s e" "file_path raw \<noteq> segpart_path k s e"
    "file_path raw \<noteq> segmeta_path k"
    by (rule free; simp add: artifact_names_dotted)+
  ultimately show ?thesis using R by simp
qed

lemma resolve_key_coordinates_witness:
  "cache_key \<lparr>cache_key = ''b/x'', backend_key = ''x'', upstream_id = ''b''\<rparr> = ''b/x''
    \<and> validate_key (backend_key \<lparr>cache_key = ''b/x'', backend_key = ''x'', upstream_id = ''b''\<rparr>)
        = Inr (backend_key \<lparr>cache_key = ''b/x'', backend_key = ''x'', upstream_id = ''b''\<rparr>)
    \<and> (if split_bucket ''b/x'' [''b''] = None
       then backend_key \<lparr>cache_key = ''b/x'', backend_key = ''x'', upstream_id = ''b''\<rparr> = ''b/x''
         \<and> route_resolve [] ''b/x'' = Some (upstream_id \<lparr>cache_key = ''b/x'', backend_key = ''x'', upstream_id = ''b''\<rparr>)
       else ''b/x'' = upstream_id \<lparr>cache_key = ''b/x'', backend_key = ''x'', upstream_id = ''b''\<rparr>
              @ CHR ''/'' # backend_key \<lparr>cache_key = ''b/x'', backend_key = ''x'', upstream_id = ''b''\<rparr>
         \<and> upstream_id \<lparr>cache_key = ''b/x'', backend_key = ''x'', upstream_id = ''b''\<rparr> \<in> set [''b''])
    \<and> file_path (cache_key \<lparr>cache_key = ''b/x'', backend_key = ''x'', upstream_id = ''b''\<rparr>) \<noteq> seg_path ''k'' 0 1
    \<and> file_path (cache_key \<lparr>cache_key = ''b/x'', backend_key = ''x'', upstream_id = ''b''\<rparr>) \<noteq> segpart_path ''k'' 0 1
    \<and> file_path (cache_key \<lparr>cache_key = ''b/x'', backend_key = ''x'', upstream_id = ''b''\<rparr>) \<noteq> segmeta_path ''k''
    \<and> file_path (cache_key \<lparr>cache_key = ''b/x'', backend_key = ''x'', upstream_id = ''b''\<rparr>) \<noteq> META_STORE_FILE"
  by (rule resolve_key_coordinates) code_simp

end
