(* ===== verification/Protection.thy ===== *)
theory Protection
  imports Prelude
begin

text \<open>
  What eviction must leave alone: the read leases of \<^verbatim>\<open>src/cache/leases.rs\<close>, the watches of
  \<^verbatim>\<open>src/cache/watch.rs\<close>, and their union in \<^verbatim>\<open>src/cache/protection.rs\<close>.

  A guard's \<^verbatim>\<open>Drop\<close> is the operation \<open>lease_drop\<close> or \<open>watch_drop\<close>. Clock reads are arguments.
  The locale \<open>key_protection\<close> is the interface the eviction passes rely on; it is
  interpreted on \<open>spared\<close>, \<open>verdict\<close> and \<open>in_use\<close>.
\<close>

subsection \<open>Leases\<close>

record lease_entry =
  le_active :: nat
  le_last_end_millis :: millis

record leases =
  l_map :: "(string \<times> lease_entry) list"
  l_grace_ms :: u64

definition leases_new :: "u64 \<Rightarrow> leases" where
  "leases_new grace = \<lparr>l_map = [], l_grace_ms = grace\<rparr>"

definition lease_default :: lease_entry where
  "lease_default = \<lparr>le_active = 0, le_last_end_millis = 0\<rparr>"

definition lease_acquire :: "string \<Rightarrow> leases \<Rightarrow> leases" where
  "lease_acquire key l =
     (let e = (case map_of (l_map l) key of Some e \<Rightarrow> e | None \<Rightarrow> lease_default)
      in l\<lparr>l_map := hm_put key (e\<lparr>le_active := le_active e + 1\<rparr>) (l_map l)\<rparr>)"

definition protected_entry :: "u64 \<Rightarrow> lease_entry \<Rightarrow> millis \<Rightarrow> bool" where
  "protected_entry grace e now =
     (le_active e > 0 \<or> (le_last_end_millis e > 0 \<and> now - le_last_end_millis e < grace))"

definition lease_protected :: "millis \<Rightarrow> leases \<Rightarrow> string list \<times> leases" where
  "lease_protected now l =
     (let m = filter (\<lambda>(_, e). protected_entry (l_grace_ms l) e now \<or> le_active e > 0) (l_map l)
      in (map fst (filter (\<lambda>(_, e). protected_entry (l_grace_ms l) e now) m), l\<lparr>l_map := m\<rparr>))"

definition is_protected :: "leases \<Rightarrow> string \<Rightarrow> millis \<Rightarrow> bool" where
  "is_protected l key now =
     (case map_of (l_map l) key of Some e \<Rightarrow> protected_entry (l_grace_ms l) e now | None \<Rightarrow> False)"

definition lease_drop :: "string \<Rightarrow> millis \<Rightarrow> leases \<Rightarrow> leases" where
  "lease_drop key now l =
     (case map_of (l_map l) key of
        None \<Rightarrow> l
      | Some e \<Rightarrow>
          (let a = le_active e - 1;
               e' = (if a = 0 then e\<lparr>le_active := a, le_last_end_millis := now\<rparr> else e\<lparr>le_active := a\<rparr>)
           in l\<lparr>l_map := hm_put key e' (l_map l)\<rparr>))"

subsection \<open>Watches\<close>

record pin =
  pin_start :: u64
  pin_end :: u64
  pin_anchor :: u64

record watch_entry =
  we_readers :: nat
  we_last_activity_millis :: millis
  we_span :: "(u64 \<times> u64) option"

record watches =
  w_map :: "(string \<times> watch_entry) list"
  w_idle_ms :: u64
  w_back_bytes :: u64
  w_ahead_bytes :: u64

definition watches_new :: "u64 \<Rightarrow> u64 \<Rightarrow> watches" where
  "watches_new idle_ms pin_bytes =
     (let back = pin_bytes div 2
      in \<lparr>w_map = [], w_idle_ms = idle_ms, w_back_bytes = back, w_ahead_bytes = pin_bytes - back\<rparr>)"

definition watch_default :: watch_entry where
  "watch_default = \<lparr>we_readers = 0, we_last_activity_millis = 0, we_span = None\<rparr>"

definition live_entry :: "watches \<Rightarrow> watch_entry \<Rightarrow> millis \<Rightarrow> bool" where
  "live_entry w e now = (we_readers e > 0 \<or> now - we_last_activity_millis e < w_idle_ms w)"

definition pin_of :: "watches \<Rightarrow> watch_entry \<Rightarrow> pin option" where
  "pin_of w e =
     (if w_back_bytes w = 0 \<and> w_ahead_bytes w = 0 then None
      else case we_span e of
             None \<Rightarrow> None
           | Some (_, en) \<Rightarrow>
               Some \<lparr>pin_start = en - w_back_bytes w, pin_end = sat_add en (w_ahead_bytes w), pin_anchor = en\<rparr>)"

text \<open>Returns whether the watch was resumed, which is the guard's only readable field.\<close>

definition watch_acquire :: "string \<Rightarrow> u64 \<times> u64 \<Rightarrow> millis \<Rightarrow> watches \<Rightarrow> bool \<times> watches" where
  "watch_acquire key span at w =
     (let existed = (map_of (w_map w) key \<noteq> None);
          e = (case map_of (w_map w) key of Some e \<Rightarrow> e | None \<Rightarrow> watch_default);
          resumed = (existed \<and> we_readers e = 0 \<and> live_entry w e at);
          e' = e\<lparr>we_readers := we_readers e + 1, we_last_activity_millis := at, we_span := Some span\<rparr>
      in (resumed, w\<lparr>w_map := hm_put key e' (w_map w)\<rparr>))"

definition live :: "watches \<Rightarrow> string \<Rightarrow> millis \<Rightarrow> bool" where
  "live w key now =
     (case map_of (w_map w) key of Some e \<Rightarrow> live_entry w e now | None \<Rightarrow> False)"

definition watch_pin :: "watches \<Rightarrow> string \<Rightarrow> millis \<Rightarrow> pin option" where
  "watch_pin w key now =
     (case map_of (w_map w) key of
        None \<Rightarrow> None
      | Some e \<Rightarrow> if \<not> live_entry w e now then None else pin_of w e)"

definition pins :: "millis \<Rightarrow> watches \<Rightarrow> (string \<times> pin) list \<times> watches" where
  "pins now w =
     (let m = filter (\<lambda>(_, e). live_entry w e now) (w_map w)
      in (List.map_filter (\<lambda>(k, e). map_option (\<lambda>p. (k, p)) (pin_of w e)) m, w\<lparr>w_map := m\<rparr>))"

definition live_keys :: "millis \<Rightarrow> watches \<Rightarrow> string list \<times> watches" where
  "live_keys now w =
     (let m = filter (\<lambda>(_, e). live_entry w e now) (w_map w)
      in (map fst m, w\<lparr>w_map := m\<rparr>))"

definition watch_active :: "millis \<Rightarrow> watches \<Rightarrow> nat \<times> watches" where
  "watch_active now w = (let (ks, w') = live_keys now w in (length ks, w'))"

definition pinned_bytes :: "millis \<Rightarrow> watches \<Rightarrow> u64 \<times> watches" where
  "pinned_bytes now w =
     (let (ps, w') = pins now w in ((\<Sum>(_, p)\<leftarrow>ps. pin_end p - pin_start p), w'))"

definition watch_drop :: "string \<Rightarrow> u64 \<times> u64 \<Rightarrow> millis \<Rightarrow> watches \<Rightarrow> watches" where
  "watch_drop key span now w =
     (case map_of (w_map w) key of
        None \<Rightarrow> w
      | Some e \<Rightarrow>
          w\<lparr>w_map := hm_put key
              (e\<lparr>we_readers := we_readers e - 1, we_last_activity_millis := now, we_span := Some span\<rparr>)
              (w_map w)\<rparr>)"

subsection \<open>The union\<close>

record protection =
  p_leases :: leases
  p_watches :: watches

record verdict =
  v_leased :: bool
  v_pin :: "pin option"

definition spared :: "millis \<Rightarrow> protection \<Rightarrow> string list \<times> protection" where
  "spared now p =
     (let (ls, l') = lease_protected now (p_leases p);
          (ws, w') = live_keys now (p_watches p)
      in (ls @ ws, \<lparr>p_leases = l', p_watches = w'\<rparr>))"

definition verdict_of :: "protection \<Rightarrow> string \<Rightarrow> millis \<Rightarrow> verdict" where
  "verdict_of p key now =
     \<lparr>v_leased = is_protected (p_leases p) key now, v_pin = watch_pin (p_watches p) key now\<rparr>"

definition in_use :: "protection \<Rightarrow> string \<Rightarrow> millis \<Rightarrow> bool" where
  "in_use p key now = (is_protected (p_leases p) key now \<or> live (p_watches p) key now)"

definition wf_protection :: "protection \<Rightarrow> bool" where
  "wf_protection p = (hm_wf (l_map (p_leases p)) \<and> hm_wf (w_map (p_watches p)))"

subsection \<open>Lemmas: leases\<close>

lemma hm_wf_acquire [inv_intros]: "hm_wf (l_map l) \<Longrightarrow> hm_wf (l_map (lease_acquire k l))"
  by (simp add: lease_acquire_def Let_def hm_wf_put)

lemma hm_wf_lease_drop [inv_intros]: "hm_wf (l_map l) \<Longrightarrow> hm_wf (l_map (lease_drop k now l))"
  by (simp add: lease_drop_def Let_def hm_wf_put split: option.splits)

lemma hm_wf_lease_protected [inv_intros]: "hm_wf (l_map l) \<Longrightarrow> hm_wf (l_map (snd (lease_protected now l)))"
  by (simp add: lease_protected_def Let_def hm_wf_filter)

lemma lease_protected_iff:
  "hm_wf (l_map l) \<Longrightarrow> k \<in> set (fst (lease_protected now l)) \<longleftrightarrow> is_protected l k now"
  by (force simp: lease_protected_def is_protected_def Let_def hm_mem_iff protected_entry_def
      split: option.splits)

lemma lease_protected_get:
  "hm_wf (l_map l) \<Longrightarrow> map_of (l_map (snd (lease_protected now l))) k =
     (case map_of (l_map l) k of
        Some e \<Rightarrow> if protected_entry (l_grace_ms l) e now then Some e else None | None \<Rightarrow> None)"
  using map_of_hm_filter [of "l_map l" "\<lambda>_ e. protected_entry (l_grace_ms l) e now \<or> le_active e > 0" k]
  by (simp add: lease_protected_def Let_def protected_entry_def split: option.splits)

text \<open>Guards taken and released on one key, with the time each body ended.\<close>

datatype lease_op = Acquire string | Release string millis | Prune millis

fun lease_step :: "leases \<Rightarrow> lease_op \<Rightarrow> leases" where
  "lease_step l (Acquire k) = lease_acquire k l"
| "lease_step l (Release k now) = lease_drop k now l"
| "lease_step l (Prune now) = snd (lease_protected now l)"

text \<open>How many guards on \<open>k\<close> are alive after a history; \<open>None\<close> if one is released twice.\<close>

fun guards :: "string \<Rightarrow> lease_op list \<Rightarrow> nat \<Rightarrow> nat option" where
  "guards k [] n = Some n"
| "guards k (Acquire k' # ops) n = guards k ops (if k' = k then n + 1 else n)"
| "guards k (Release k' _ # ops) n =
     (if k' = k then (if n = 0 then None else guards k ops (n - 1)) else guards k ops n)"
| "guards k (Prune _ # ops) n = guards k ops n"

definition active_of :: "leases \<Rightarrow> string \<Rightarrow> nat" where
  "active_of l k = (case map_of (l_map l) k of Some e \<Rightarrow> le_active e | None \<Rightarrow> 0)"

lemma active_of_acquire: "active_of (lease_acquire k' l) k = (if k' = k then active_of l k + 1 else active_of l k)"
  by (simp add: active_of_def lease_acquire_def Let_def lease_default_def split: option.splits)

lemma active_of_drop: "active_of (lease_drop k' now l) k = (if k' = k then active_of l k - 1 else active_of l k)"
  by (simp add: active_of_def lease_drop_def Let_def split: option.splits)

lemma active_of_prune: "hm_wf (l_map l) \<Longrightarrow> active_of (snd (lease_protected now l)) k = active_of l k"
  by (simp add: active_of_def lease_protected_get protected_entry_def split: option.splits)

lemma lease_step_wf [inv_intros]: "hm_wf (l_map l) \<Longrightarrow> hm_wf (l_map (lease_step l op))"
  by (cases op) (auto intro: inv_intros)

lemma active_of_run:
  "hm_wf (l_map l) \<Longrightarrow> guards k ops (active_of l k) = Some n \<Longrightarrow> active_of (foldl lease_step l ops) k = n"
proof (induction ops arbitrary: l)
  case Nil
  then show ?case by simp
next
  case (Cons op ops)
  have "hm_wf (l_map (lease_step l op))" using Cons.prems(1) by (rule lease_step_wf)
  moreover have "guards k ops (active_of (lease_step l op) k) = Some n"
    using Cons.prems
    by (cases op) (auto simp: active_of_acquire active_of_drop active_of_prune split: if_splits)
  ultimately show ?case using Cons.IH by simp
qed

lemma active_protected: "active_of l k > 0 \<Longrightarrow> is_protected l k now"
  by (simp add: active_of_def is_protected_def protected_entry_def split: option.splits)

subsection \<open>Lemmas: watches\<close>

lemma hm_wf_watch_acquire [inv_intros]: "hm_wf (w_map w) \<Longrightarrow> hm_wf (w_map (snd (watch_acquire k s at w)))"
  by (simp add: watch_acquire_def Let_def hm_wf_put)

lemma hm_wf_watch_drop [inv_intros]: "hm_wf (w_map w) \<Longrightarrow> hm_wf (w_map (watch_drop k s now w))"
  by (simp add: watch_drop_def hm_wf_put split: option.splits)

lemma hm_wf_live_keys [inv_intros]: "hm_wf (w_map w) \<Longrightarrow> hm_wf (w_map (snd (live_keys now w)))"
  by (simp add: live_keys_def Let_def hm_wf_filter)

lemma live_keys_iff: "hm_wf (w_map w) \<Longrightarrow> k \<in> set (fst (live_keys now w)) \<longleftrightarrow> live w k now"
  by (force simp: live_keys_def live_def Let_def hm_mem_iff split: option.splits)

lemma live_prune:
  assumes "hm_wf (w_map w)"
  shows "live (snd (live_keys now w)) k now = live w k now"
    and "watch_pin (snd (live_keys now w)) k now = watch_pin w k now"
  using map_of_hm_filter [OF assms, of "\<lambda>_ e. live_entry w e now" k]
  by (simp_all add: live_keys_def live_def watch_pin_def Let_def live_entry_def pin_of_def split: option.splits)

lemma watch_pin_live: "watch_pin w k now = Some p \<Longrightarrow> live w k now"
  by (auto simp: watch_pin_def live_def split: option.splits if_splits)

lemma pin_of_bounds:
  assumes "pin_of w e = Some p" and "pin_anchor p \<le> U64_MAX"
  shows "pin_start p \<le> pin_anchor p" and "pin_anchor p \<le> pin_end p"
    and "pin_end p - pin_start p \<le> w_back_bytes w + w_ahead_bytes w"
  using assms by (auto simp: pin_of_def sat_add_def split: if_splits option.splits)

lemma watches_new_split: "w_back_bytes (watches_new i p) + w_ahead_bytes (watches_new i p) = p"
  by (simp add: watches_new_def Let_def)

subsection \<open>The interface of the eviction passes\<close>

text \<open>
  \<open>sp\<close> is the set a whole-cache sweep spares, \<open>use\<close> the one-key question of the relief
  valve, \<open>vd\<close> the one-key question of a budget pass.
\<close>

locale key_protection =
  fixes wf :: "'p \<Rightarrow> bool"
    and sp :: "millis \<Rightarrow> 'p \<Rightarrow> string list \<times> 'p"
    and use :: "'p \<Rightarrow> string \<Rightarrow> millis \<Rightarrow> bool"
    and vd :: "'p \<Rightarrow> string \<Rightarrow> millis \<Rightarrow> verdict"
  assumes sp_iff: "wf p \<Longrightarrow> k \<in> set (fst (sp now p)) \<longleftrightarrow> use p k now"
    and sp_wf: "wf p \<Longrightarrow> wf (snd (sp now p))"
    and sp_use: "wf p \<Longrightarrow> use (snd (sp now p)) k now = use p k now"
    and sp_vd: "wf p \<Longrightarrow> vd (snd (sp now p)) k now = vd p k now"
    and vd_use: "v_leased (vd p k now) \<or> v_pin (vd p k now) \<noteq> None \<Longrightarrow> use p k now"
begin

text \<open>Asking twice at one moment gives one answer: pruning is not observable.\<close>

lemma spared_stable:
  assumes "wf p"
  shows "k \<in> set (fst (sp now (snd (sp now p)))) \<longleftrightarrow> k \<in> set (fst (sp now p))"
  using assms sp_iff sp_wf sp_use by metis

text \<open>A key no sweep would spare gives a budget pass nothing to respect.\<close>

lemma unspared_free:
  assumes "wf p" and "k \<notin> set (fst (sp now p))"
  shows "vd p k now = \<lparr>v_leased = False, v_pin = None\<rparr>"
proof -
  have "\<not> use p k now" using assms sp_iff by blast
  then have "\<not> v_leased (vd p k now)" and "v_pin (vd p k now) = None" using vd_use by blast+
  then show ?thesis by simp
qed

end

lemma protection_spared_iff:
  "wf_protection p \<Longrightarrow> k \<in> set (fst (spared now p)) \<longleftrightarrow> in_use p k now"
  by (auto simp: spared_def in_use_def wf_protection_def lease_protected_iff [symmetric]
      live_keys_iff [symmetric] split: prod.splits)

lemma protection_spared_snd:
  "snd (spared now p) = \<lparr>p_leases = snd (lease_protected now (p_leases p)),
                         p_watches = snd (live_keys now (p_watches p))\<rparr>"
  by (simp add: spared_def split: prod.splits)

lemma is_protected_prune:
  "hm_wf (l_map l) \<Longrightarrow> is_protected (snd (lease_protected now l)) k now = is_protected l k now"
  using lease_protected_get [of l now k]
  by (simp add: is_protected_def lease_protected_def Let_def split: option.splits)

interpretation prot: key_protection wf_protection spared in_use verdict_of
proof (unfold_locales, goal_cases)
  case (1 p k now)
  then show ?case by (rule protection_spared_iff)
next
  case (2 p now)
  then show ?case
    by (simp add: wf_protection_def protection_spared_snd hm_wf_lease_protected hm_wf_live_keys)
next
  case (3 p now k)
  then show ?case
    by (simp add: wf_protection_def protection_spared_snd in_use_def is_protected_prune live_prune)
next
  case (4 p now k)
  then show ?case
    by (simp add: wf_protection_def protection_spared_snd verdict_of_def is_protected_prune live_prune)
next
  case (5 p k now)
  then show ?case
    by (auto simp: verdict_of_def in_use_def dest: watch_pin_live)
qed

subsection \<open>Properties\<close>

text \<open>
  C19: after any interleaving of guards taken, guards dropped and prunes, over any keys, a key
  with a guard still alive is protected at every moment, and the number the table holds for
  it is the number of guards alive.
\<close>

theorem lease_history_protects:
  assumes "guards k ops 0 = Some n"
  shows "active_of (foldl lease_step (leases_new grace) ops) k = n
    \<and> (0 < n \<longrightarrow> is_protected (foldl lease_step (leases_new grace) ops) k now)"
proof -
  have "hm_wf (l_map (leases_new grace))" "active_of (leases_new grace) k = 0"
    by (simp_all add: leases_new_def active_of_def)
  then have "active_of (foldl lease_step (leases_new grace) ops) k = n"
    using active_of_run assms by metis
  then show ?thesis using active_protected by blast
qed

theorem lease_history_protects_witness:
  "active_of (foldl lease_step (leases_new 10) [Acquire ''k'', Acquire ''k'', Release ''k'' 5, Prune 100]) ''k'' = 1
    \<and> is_protected (foldl lease_step (leases_new 10)
        [Acquire ''k'', Acquire ''k'', Release ''k'' 5, Prune 100]) ''k'' 200"
  using lease_history_protects [of "''k''" "[Acquire ''k'', Acquire ''k'', Release ''k'' 5, Prune 100]" 1 10 200]
  by simp

text \<open>
  A watch's pin holds the reader's anchor and is never wider than the configured pin,
  whatever the position, and a key without a live watch has no pin.
\<close>

lemma watch_pin_bounds:
  assumes "watch_pin w k now = Some p" and "pin_anchor p \<le> U64_MAX"
    and "w_back_bytes w = w_back_bytes (watches_new idle pin_bytes)"
    and "w_ahead_bytes w = w_ahead_bytes (watches_new idle pin_bytes)"
  shows "live w k now \<and> pin_start p \<le> pin_anchor p \<and> pin_anchor p \<le> pin_end p
    \<and> pin_end p - pin_start p \<le> pin_bytes"
proof -
  obtain e where e: "pin_of w e = Some p"
    using assms(1) by (auto simp: watch_pin_def split: option.splits if_splits)
  show ?thesis
    using pin_of_bounds [OF e assms(2)] watch_pin_live [OF assms(1)]
      watches_new_split [of idle pin_bytes] assms(3,4) by simp
qed

lemma watch_pin_bounds_witness:
  "live (snd (watch_acquire ''k'' (100, 200) 5 (watches_new 1000 64))) ''k'' 6
    \<and> pin_start \<lparr>pin_start = 168, pin_end = 232, pin_anchor = 200\<rparr> \<le> pin_anchor \<lparr>pin_start = 168, pin_end = 232, pin_anchor = 200\<rparr>
    \<and> pin_anchor \<lparr>pin_start = 168, pin_end = 232, pin_anchor = 200\<rparr> \<le> pin_end \<lparr>pin_start = 168, pin_end = 232, pin_anchor = 200\<rparr>
    \<and> pin_end \<lparr>pin_start = 168, pin_end = 232, pin_anchor = 200\<rparr> - pin_start \<lparr>pin_start = 168, pin_end = 232, pin_anchor = 200\<rparr> \<le> 64"
  by (rule watch_pin_bounds [where idle = 1000])      (simp_all add: watch_acquire_def watches_new_def watch_pin_def live_entry_def pin_of_def
        watch_default_def sat_add_def U64_MAX_def Let_def)

text \<open>
  the three questions about protection agree. A sweep's spared set has exactly the keys the
  one-key question calls in use, asking prunes nothing a later question would notice, and a
  key outside the set has neither a lease nor a pin for a budget pass to respect.
\<close>

lemma protection_questions_agree:
  assumes "wf_protection p"
  shows "(k \<in> set (fst (spared now p)) \<longleftrightarrow> in_use p k now)
    \<and> (k \<in> set (fst (spared now (snd (spared now p)))) \<longleftrightarrow> in_use p k now)
    \<and> (k \<notin> set (fst (spared now p)) \<longrightarrow> verdict_of p k now = \<lparr>v_leased = False, v_pin = None\<rparr>)"
  using assms prot.sp_iff prot.spared_stable prot.unspared_free by blast

lemma protection_questions_agree_witness:
  "(''k'' \<in> set (fst (spared 5 \<lparr>p_leases = lease_acquire ''k'' (leases_new 10), p_watches = watches_new 10 64\<rparr>)) \<longleftrightarrow>
      in_use \<lparr>p_leases = lease_acquire ''k'' (leases_new 10), p_watches = watches_new 10 64\<rparr> ''k'' 5)
    \<and> (''k'' \<in> set (fst (spared 5 (snd (spared 5 \<lparr>p_leases = lease_acquire ''k'' (leases_new 10), p_watches = watches_new 10 64\<rparr>)))) \<longleftrightarrow>
      in_use \<lparr>p_leases = lease_acquire ''k'' (leases_new 10), p_watches = watches_new 10 64\<rparr> ''k'' 5)"
proof -
  have "wf_protection \<lparr>p_leases = lease_acquire ''k'' (leases_new 10), p_watches = watches_new 10 64\<rparr>"
    by (simp add: wf_protection_def lease_acquire_def leases_new_def watches_new_def Let_def hm_wf_put)
  from protection_questions_agree [OF this, of "''k''" 5] show ?thesis by blast
qed

end
