(* ===== verification/Ledger.thy ===== *)
theory Ledger
  imports Store
begin

text \<open>
  The staged state, \<^verbatim>\<open>src/cache/ledger.rs\<close>: which byte intervals of a key are staged as
  segment files, under which object version, and the account of staged bytes.

  Every operation of \<^verbatim>\<open>Ledger\<close> runs under one lock, so it is one function on the state; the
  directory it stats or scans is an argument. \<^verbatim>\<open>HashMap\<close> rows are association lists.
  \<open>iv_bytes\<close> is the specification, the set of byte positions a row claims.
\<close>

subsection \<open>Rows\<close>

type_synonym interval = "u64 \<times> u64 \<times> millis \<times> u64"

record span_reads =
  sr_start :: u64
  sr_end :: u64
  sr_last_read_millis :: millis
  sr_reads :: u64

record record_view =
  rv_spans :: "span_reads list"
  rv_etag :: "string option"
  rv_total :: u64
  rv_last_touch_millis :: millis

record coverage =
  c_etag :: "string option"
  c_total :: u64
  c_intervals :: "interval list"
  c_last_touch_millis :: millis

definition coverage_default :: coverage where
  "coverage_default = \<lparr>c_etag = None, c_total = 0, c_intervals = [], c_last_touch_millis = 0\<rparr>"

definition MAX_INTERVALS_PER_KEY :: nat where
  "MAX_INTERVALS_PER_KEY = 4096"

definition span_reads_of :: "coverage \<Rightarrow> span_reads list" where
  "span_reads_of c =
     map (\<lambda>(s, e, t, r). \<lparr>sr_start = s, sr_end = e, sr_last_read_millis = t, sr_reads = r\<rparr>) (c_intervals c)"

fun merge_touching_once :: "interval list \<Rightarrow> interval list \<times> bool" where
  "merge_touching_once [] = ([], False)"
| "merge_touching_once [x] = ([x], False)"
| "merge_touching_once ((s, e, t, r) # (s2, e2, t2, r2) # rest) =
     (if s2 = e
      then ((s, e2, max t t2, r + r2) # fst (merge_touching_once rest), True)
      else ((s, e, t, r) # fst (merge_touching_once ((s2, e2, t2, r2) # rest)),
            snd (merge_touching_once ((s2, e2, t2, r2) # rest))))"

definition drop_coldest :: "nat \<Rightarrow> interval list \<Rightarrow> interval list" where
  "drop_coldest n ivs =
     sort_key (\<lambda>(s, _). s) (drop (min n (length ivs)) (sort_key (\<lambda>(_, _, t, _). t) ivs))"

lemma merge_touching_once_length:
  "length (fst (merge_touching_once ivs)) \<le> length ivs
   \<and> (snd (merge_touching_once ivs) \<longrightarrow> length (fst (merge_touching_once ivs)) < length ivs)"
  by (induction ivs rule: merge_touching_once.induct) auto

lemma drop_coldest_length [simp]: "length (drop_coldest n ivs) = length ivs - n"
  by (simp add: drop_coldest_def)

text \<open>The while loop of \<^verbatim>\<open>compact\<close>; every round shortens the list.\<close>

function compact_intervals :: "interval list \<Rightarrow> interval list" where
  "compact_intervals ivs =
     (if length ivs \<le> MAX_INTERVALS_PER_KEY then ivs
      else if snd (merge_touching_once ivs) then compact_intervals (fst (merge_touching_once ivs))
      else compact_intervals (drop_coldest (length ivs - MAX_INTERVALS_PER_KEY) (fst (merge_touching_once ivs))))"
  by pat_completeness auto
termination
proof (relation "measure length", goal_cases)
  case (3 ivs)
  then show ?case
    using merge_touching_once_length [of ivs] by (simp add: MAX_INTERVALS_PER_KEY_def)
qed (use merge_touching_once_length in auto)

declare compact_intervals.simps [simp del]

definition compact :: "coverage \<Rightarrow> coverage" where
  "compact c = c\<lparr>c_intervals := compact_intervals (c_intervals c)\<rparr>"

text \<open>
  The merge loop of \<^verbatim>\<open>add_interval\<close>: \<open>hi\<close>, the merged end, the newest read time and the
  sum of reads, over the intervals behind the insertion point.
\<close>

fun absorb :: "interval list \<Rightarrow> nat \<Rightarrow> u64 \<Rightarrow> millis \<Rightarrow> u64 \<Rightarrow> nat \<times> u64 \<times> millis \<times> u64" where
  "absorb [] hi merged_end merged_at merged_reads = (hi, merged_end, merged_at, merged_reads)"
| "absorb ((s, e, t, r) # rest) hi merged_end merged_at merged_reads =
     (if s < merged_end
      then absorb rest (hi + 1) (max merged_end e) (max merged_at t) (merged_reads + r)
      else (hi, merged_end, merged_at, merged_reads))"

definition partition_point :: "u64 \<Rightarrow> interval list \<Rightarrow> nat" where
  "partition_point start ivs = length (takeWhile (\<lambda>(s, _). s < start) ivs)"

definition absorb_at :: "u64 \<Rightarrow> interval list \<Rightarrow> nat \<Rightarrow> u64 \<Rightarrow> millis \<Rightarrow> u64 \<Rightarrow> interval list" where
  "absorb_at start ivs1 lo me0 ma0 mr0 =
     (let (hi, me, ma, mr) = absorb (drop (lo + 1) ivs1) (lo + 1) me0 ma0 mr0;
          ivs2 = take (lo + 1) ivs1 @ drop hi ivs1
      in ivs2[lo := (min (fst (ivs2 ! lo)) start, me, ma, mr)])"

definition merge_interval :: "u64 \<Rightarrow> u64 \<Rightarrow> millis \<Rightarrow> interval list \<Rightarrow> interval list" where
  "merge_interval start en now ivs =
     (let idx = partition_point start ivs
      in if idx > 0 \<and> fst (snd (ivs ! (idx - 1))) > start
         then (case ivs ! (idx - 1) of
                 (_, pe, pt, pr) \<Rightarrow> absorb_at start ivs (idx - 1) (max pe en) (max pt now) pr)
         else absorb_at start (take idx ivs @ (start, en, now, 0) # drop idx ivs) idx en now 0)"

definition add_interval :: "u64 \<Rightarrow> u64 \<Rightarrow> millis \<Rightarrow> coverage \<Rightarrow> coverage" where
  "add_interval start en now c =
     (if start \<ge> en then c
      else compact (c\<lparr>c_intervals := merge_interval start en now (c_intervals c)\<rparr>))"

definition adopt_files :: "(u64 \<times> u64) list \<Rightarrow> millis \<Rightarrow> coverage \<Rightarrow> coverage" where
  "adopt_files files now c =
     (let prior = c_intervals c
      in compact (c\<lparr>c_intervals :=
           map (\<lambda>(s, e). case find (\<lambda>(ps, pe, _, _). ps \<le> s \<and> e \<le> pe) prior of
                  Some (_, _, t, r) \<Rightarrow> (s, e, t, r)
                | None \<Rightarrow> (s, e, now, 0)) files\<rparr>))"

definition covered :: "coverage \<Rightarrow> u64" where
  "covered c = (\<Sum>(s, e, _, _)\<leftarrow>c_intervals c. e - s)"

definition decay_and_covered :: "millis \<Rightarrow> u64 \<Rightarrow> coverage \<Rightarrow> u64 \<times> coverage" where
  "decay_and_covered now window c =
     (if window = 0 then (covered c, c)
      else (let cutoff = now - window;
                c' = c\<lparr>c_intervals := filter (\<lambda>(_, _, t, _). t \<ge> cutoff) (c_intervals c)\<rparr>
            in (covered c', c')))"

subsection \<open>The ledger\<close>

record ledger =
  lg_map :: "(string \<times> coverage) list"
  lg_total_staged :: u64

definition ledger_new :: ledger where
  "ledger_new = \<lparr>lg_map = [], lg_total_staged = 0\<rparr>"

definition total_staged :: "ledger \<Rightarrow> u64" where
  "total_staged lg = lg_total_staged lg"

definition summary :: "ledger \<Rightarrow> nat \<times> nat" where
  "summary lg = (length (lg_map lg), \<Sum>(_, c)\<leftarrow>lg_map lg. length (c_intervals c))"

definition view :: "ledger \<Rightarrow> string \<Rightarrow> record_view option" where
  "view lg key =
     map_option (\<lambda>c. \<lparr>rv_spans = span_reads_of c, rv_etag = c_etag c, rv_total = c_total c,
                     rv_last_touch_millis = c_last_touch_millis c\<rparr>) (map_of (lg_map lg) key)"

text \<open>\<^verbatim>\<open>entry(key).or_default()\<close>\<close>

definition row_of :: "ledger \<Rightarrow> string \<Rightarrow> coverage" where
  "row_of lg key = (case map_of (lg_map lg) key of Some c \<Rightarrow> c | None \<Rightarrow> coverage_default)"

definition put_row :: "string \<Rightarrow> coverage \<Rightarrow> ledger \<Rightarrow> ledger" where
  "put_row key c lg = lg\<lparr>lg_map := hm_put key c (lg_map lg)\<rparr>"

definition with_version :: "string option \<Rightarrow> u64 \<Rightarrow> coverage \<Rightarrow> coverage" where
  "with_version etag tot c =
     (let c1 = (case etag of Some e \<Rightarrow> c\<lparr>c_etag := Some e\<rparr> | None \<Rightarrow> c)
      in if tot \<noteq> 0 then c1\<lparr>c_total := tot\<rparr> else c1)"

definition ledger_seal ::
  "dir \<Rightarrow> string \<Rightarrow> u64 \<times> u64 \<Rightarrow> string option \<Rightarrow> u64 \<Rightarrow> u64 \<Rightarrow> millis \<Rightarrow> ledger \<Rightarrow> bool \<times> ledger" where
  "ledger_seal d key span etag tot window at lg =
     (let (start, end0) = span;
          path = seg_path key start end0
      in if \<not> file_exists d path then (False, lg)
         else let len = file_len d path;
                  en = min end0 (sat_add start len)
              in if en \<le> start then (False, lg)
                 else let c1 = (add_interval start en at (with_version etag tot (row_of lg key)))
                                 \<lparr>c_last_touch_millis := at\<rparr>;
                          c2 = snd (decay_and_covered at window c1)
                      in (True, (put_row key c2 lg)\<lparr>lg_total_staged := sat_add (lg_total_staged lg) len\<rparr>))"

fun cover_walk :: "(u64 \<times> u64 \<times> string) list \<Rightarrow> u64 \<Rightarrow> u64 \<Rightarrow> bool" where
  "cover_walk [] at en = False"
| "cover_walk ((s, e, _) # rest) at en =
     (if s \<le> at \<and> at < e then (if e \<ge> en then True else cover_walk rest e en)
      else cover_walk rest at en)"

definition disk_covers :: "dir \<Rightarrow> string \<Rightarrow> u64 \<Rightarrow> u64 \<Rightarrow> bool" where
  "disk_covers d key start en = cover_walk (segments_for_key d key) start en"

definition ledger_adopt :: "dir \<Rightarrow> string \<Rightarrow> u64 \<times> u64 \<Rightarrow> millis \<Rightarrow> ledger \<Rightarrow> bool \<times> ledger" where
  "ledger_adopt d key span at lg =
     (let (start, end0) = span;
          path = seg_path key start end0;
          recorded = (if file_exists d path
                      then Some (min end0 (sat_add start (file_len d path)), file_len d path)
                      else if \<not> disk_covers d key start end0 then None
                      else Some (end0, 0))
      in case recorded of
           None \<Rightarrow> (False, lg)
         | Some (en, bytes) \<Rightarrow>
             if en \<le> start then (False, lg)
             else (let c = (add_interval start en at (row_of lg key))\<lparr>c_last_touch_millis := at\<rparr>
                   in (True, (put_row key c lg)\<lparr>lg_total_staged := sat_add (lg_total_staged lg) bytes\<rparr>)))"

definition adopt_one :: "millis \<Rightarrow> ledger \<Rightarrow> segment_file \<Rightarrow> ledger" where
  "adopt_one at lg f =
     (let c = row_of lg (sf_key f);
          c1 = (if c_etag c = None then c\<lparr>c_etag := sf_etag f\<rparr> else c);
          c2 = (if c_total c1 = 0 then c1\<lparr>c_total := sf_total f\<rparr> else c1);
          c3 = add_interval (sf_start f) (min (sf_end f) (sat_add (sf_start f) (sf_len f))) at c2
      in put_row (sf_key f) (c3\<lparr>c_last_touch_millis := at\<rparr>) lg)"

text \<open>The scan removes what it cannot read, so the directory is returned too.\<close>

definition adopt_all ::
  "(byte list \<Rightarrow> seg_meta option) \<Rightarrow> dir \<Rightarrow> millis \<Rightarrow> ledger \<Rightarrow> ledger \<times> dir" where
  "adopt_all decode d at lg =
     (let (files, d') = scan_segment_files decode d;
          rows = foldl (adopt_one at) (lg\<lparr>lg_map := []\<rparr>) files
      in (rows\<lparr>lg_total_staged := foldl (\<lambda>tot f. sat_add tot (sf_len f)) 0 files\<rparr>, d'))"

definition forget :: "string \<Rightarrow> u64 \<Rightarrow> ledger \<Rightarrow> ledger" where
  "forget key freed lg =
     \<lparr>lg_map = hm_del key (lg_map lg), lg_total_staged = lg_total_staged lg - freed\<rparr>"

definition re_adopt :: "dir \<Rightarrow> string \<Rightarrow> u64 \<Rightarrow> millis \<Rightarrow> ledger \<Rightarrow> ledger" where
  "re_adopt d key freed now lg =
     (let survivors = map (\<lambda>(s, e, _). (s, e)) (segments_for_key d key);
          lg1 = lg\<lparr>lg_total_staged := lg_total_staged lg - freed\<rparr>
      in case map_of (lg_map lg1) key of
           Some c \<Rightarrow> put_row key (adopt_files survivors now c) lg1
         | None \<Rightarrow> lg1)"

definition drop_row_if_empty :: "string \<Rightarrow> ledger \<Rightarrow> bool \<times> ledger" where
  "drop_row_if_empty key lg =
     (case map_of (lg_map lg) key of
        Some c \<Rightarrow> if c_intervals c = [] then (True, lg\<lparr>lg_map := hm_del key (lg_map lg)\<rparr>) else (False, lg)
      | None \<Rightarrow> (False, lg))"

definition set_version :: "string \<Rightarrow> string option \<Rightarrow> u64 \<Rightarrow> ledger \<Rightarrow> ledger" where
  "set_version key etag tot lg = put_row key (with_version etag tot (row_of lg key)) lg"

definition ledger_touch :: "string \<Rightarrow> millis \<Rightarrow> ledger \<Rightarrow> ledger" where
  "ledger_touch key at lg =
     (case map_of (lg_map lg) key of
        Some c \<Rightarrow> put_row key (c\<lparr>c_last_touch_millis := at\<rparr>) lg
      | None \<Rightarrow> lg)"

definition served :: "string \<Rightarrow> u64 \<Rightarrow> u64 \<Rightarrow> ledger \<Rightarrow> ledger" where
  "served key start en lg =
     (if start \<ge> en then lg
      else case map_of (lg_map lg) key of
             Some c \<Rightarrow> put_row key (c\<lparr>c_intervals :=
                 map (\<lambda>(s, e, t, r). if s < en \<and> start < e then (s, e, t, sat_add r 1) else (s, e, t, r))
                   (c_intervals c)\<rparr>) lg
           | None \<Rightarrow> lg)"

definition decayed_coverage :: "string \<Rightarrow> millis \<Rightarrow> u64 \<Rightarrow> ledger \<Rightarrow> u64 \<times> ledger" where
  "decayed_coverage key at window lg =
     (case map_of (lg_map lg) key of
        Some c \<Rightarrow> (let (n, c') = decay_and_covered at window c in (n, put_row key c' lg))
      | None \<Rightarrow> (0, lg))"

definition expired_candidates :: "u64 \<Rightarrow> millis \<Rightarrow> string list \<Rightarrow> ledger \<Rightarrow> string list" where
  "expired_candidates ttl at spared lg =
     map fst (filter (\<lambda>(k, _). k \<notin> set spared)
       (filter (\<lambda>(_, c). at - c_last_touch_millis c \<ge> ttl) (lg_map lg)))"

definition unkeepable_rows :: "u64 \<Rightarrow> ledger \<Rightarrow> string list" where
  "unkeepable_rows max_size lg = map fst (filter (\<lambda>(_, c). c_total c > max_size) (lg_map lg))"

definition rows_by_age :: "u64 \<Rightarrow> ledger \<Rightarrow> (millis \<times> string) list" where
  "rows_by_age max_size lg =
     map snd (sort (map (\<lambda>(k, c). (if c_total c \<le> max_size then 1 else 0 :: nat, c_last_touch_millis c, k))
       (lg_map lg)))"

subsection \<open>Lemmas: interval lists\<close>

definition iv_bytes :: "interval list \<Rightarrow> nat set" where
  "iv_bytes ivs = (\<Union>(s, e, _, _)\<in>set ivs. {s..<e})"

definition before :: "interval \<Rightarrow> interval \<Rightarrow> bool" where
  "before x y = (fst (snd x) \<le> fst y)"

text \<open>Non-empty intervals, in order, none overlapping the next.\<close>

definition wf_ivs :: "interval list \<Rightarrow> bool" where
  "wf_ivs ivs = (sorted_wrt before ivs \<and> (\<forall>x\<in>set ivs. fst x < fst (snd x)))"

lemma iv_bytes_simps [simp]:
  "iv_bytes [] = {}"
  "iv_bytes ((s, e, t, r) # ivs) = {s..<e} \<union> iv_bytes ivs"
  "iv_bytes (xs @ ys) = iv_bytes xs \<union> iv_bytes ys"
  by (auto simp: iv_bytes_def)

lemma iv_bytes_mono: "set xs \<subseteq> set ys \<Longrightarrow> iv_bytes xs \<subseteq> iv_bytes ys"
  by (auto simp: iv_bytes_def)

lemma wf_ivs_Nil [simp]: "wf_ivs []"
  by (simp add: wf_ivs_def)

lemma wf_ivs_Cons:
  "wf_ivs ((s, e, t, r) # ivs) \<longleftrightarrow> s < e \<and> (\<forall>x\<in>set ivs. e \<le> fst x) \<and> wf_ivs ivs"
  by (auto simp: wf_ivs_def before_def)

lemma wf_ivs_append:
  "wf_ivs (xs @ ys) \<longleftrightarrow> wf_ivs xs \<and> wf_ivs ys \<and> (\<forall>x\<in>set xs. \<forall>y\<in>set ys. fst (snd x) \<le> fst y)"
  by (auto simp: wf_ivs_def sorted_wrt_append before_def)

lemma wf_ivs_filter: "wf_ivs ivs \<Longrightarrow> wf_ivs (filter P ivs)"
  by (auto simp: wf_ivs_def intro: sorted_wrt_filter)

lemma wf_ivs_map_same:
  "wf_ivs ivs \<Longrightarrow> (\<And>x. fst (f x) = fst x \<and> fst (snd (f x)) = fst (snd x)) \<Longrightarrow> wf_ivs (map f ivs)"
  by (induction ivs) (auto simp: wf_ivs_def before_def sorted_wrt_map)

lemma wf_ivs_lt_start:
  "wf_ivs ivs \<Longrightarrow> x \<in> set ivs \<Longrightarrow> y \<in> set ivs \<Longrightarrow> fst x < fst y \<Longrightarrow> fst (snd x) \<le> fst y"
proof (induction ivs)
  case (Cons a ivs)
  then show ?case
  proof -
    obtain s e t r where a: "a = (s, e, t, r)" by (cases a)
    with Cons show ?thesis
      by (auto simp: wf_ivs_Cons)
  qed
qed simp

lemma wf_ivs_distinct_starts: "wf_ivs ivs \<Longrightarrow> distinct (map fst ivs)"
proof (induction ivs)
  case (Cons a ivs)
  obtain s e t r where a: "a = (s, e, t, r)" by (cases a)
  with Cons show ?case by (force simp: wf_ivs_Cons)
qed simp

lemma wf_ivs_resorted:
  assumes "wf_ivs ivs" and "set ys \<subseteq> set ivs" and "distinct (map fst ys)"
  shows "wf_ivs (sort_key fst ys)"
proof -
  let ?zs = "sort_key fst ys"
  have "mset (map fst ?zs) = mset (map fst ys)" by simp
  then have "distinct (map fst ?zs)" using assms(3) mset_eq_imp_distinct_iff by blast
  then have strict: "sorted_wrt (<) (map fst ?zs)"
    by (simp add: strict_sorted_iff)
  have "sorted_wrt (\<lambda>x y. fst x < fst y) ?zs" using strict by (simp add: sorted_wrt_map)
  moreover have "before x y" if "x \<in> set ?zs" "y \<in> set ?zs" "fst x < fst y" for x y
    using wf_ivs_lt_start [OF assms(1), of x y] assms(2) that by (auto simp: before_def)
  ultimately have "sorted_wrt before ?zs"
    by (rule sorted_wrt_mono_rel [rotated])
  then show ?thesis using assms(1,2) by (auto simp: wf_ivs_def)
qed

lemma drop_coldest_sub: "set (drop_coldest n ivs) \<subseteq> set ivs"
  by (auto simp: drop_coldest_def dest: in_set_dropD)

lemma drop_coldest_wf: "wf_ivs ivs \<Longrightarrow> wf_ivs (drop_coldest n ivs)"
proof -
  assume wf: "wf_ivs ivs"
  let ?cold = "sort_key (\<lambda>(_, _, t, _). t) ivs"
  have "mset (map fst ?cold) = mset (map fst ivs)" by simp
  then have "distinct (map fst ?cold)"
    using wf_ivs_distinct_starts [OF wf] mset_eq_imp_distinct_iff by blast
  then have "distinct (map fst (drop k ?cold))" for k
    by (simp add: distinct_drop flip: drop_map)
  moreover have "set (drop k ?cold) \<subseteq> set ivs" for k
    by (auto dest: in_set_dropD)
  moreover have "(\<lambda>(s, _). s) = (fst :: interval \<Rightarrow> u64)" by auto
  ultimately show ?thesis
    using wf_ivs_resorted [OF wf] by (simp add: drop_coldest_def)
qed

lemma merge_touching_once_starts:
  "\<forall>x\<in>set ivs. lo \<le> fst x \<Longrightarrow> \<forall>x\<in>set (fst (merge_touching_once ivs)). lo \<le> fst x"
  by (induction ivs rule: merge_touching_once.induct) auto

lemma merge_touching_once_wf: "wf_ivs ivs \<Longrightarrow> wf_ivs (fst (merge_touching_once ivs))"
proof (induction ivs rule: merge_touching_once.induct)
  case (3 s e t r s2 e2 t2 r2 rest)
  then show ?case
    using merge_touching_once_starts [of rest e2]
      merge_touching_once_starts [of "(s2, e2, t2, r2) # rest" e]
    by (auto simp: wf_ivs_Cons)
qed auto

lemma merge_touching_once_bytes:
  "wf_ivs ivs \<Longrightarrow> iv_bytes (fst (merge_touching_once ivs)) = iv_bytes ivs"
proof (induction ivs rule: merge_touching_once.induct)
  case (3 s e t r s2 e2 t2 r2 rest)
  then show ?case
    by (cases "s2 = e") (auto simp: wf_ivs_Cons ivl_disj_un_two(3) Un_assoc [symmetric])
qed auto

lemma merge_touching_once_same: "\<not> snd (merge_touching_once ivs) \<Longrightarrow> fst (merge_touching_once ivs) = ivs"
  by (induction ivs rule: merge_touching_once.induct) (auto split: if_splits)

lemma compact_intervals_spec:
  assumes "wf_ivs ivs"
  shows "wf_ivs (compact_intervals ivs)
    \<and> iv_bytes (compact_intervals ivs) \<subseteq> iv_bytes ivs
    \<and> length (compact_intervals ivs) \<le> MAX_INTERVALS_PER_KEY"
  using assms
proof (induction ivs rule: compact_intervals.induct)
  case (1 ivs)
  let ?m = "merge_touching_once ivs"
  show ?case
  proof (cases "length ivs \<le> MAX_INTERVALS_PER_KEY")
    case True
    then show ?thesis using "1.prems" by (simp add: compact_intervals.simps [of ivs])
  next
    case False
    note wf = merge_touching_once_wf [OF "1.prems"] and bytes = merge_touching_once_bytes [OF "1.prems"]
    show ?thesis
    proof (cases "snd ?m")
      case True
      then show ?thesis using "1.IH"(1) [OF False True wf] False bytes
        by (simp add: compact_intervals.simps [of ivs])
    next
      case no: False
      let ?d = "drop_coldest (length ivs - MAX_INTERVALS_PER_KEY) (fst ?m)"
      have "iv_bytes ?d \<subseteq> iv_bytes ivs" using iv_bytes_mono [OF drop_coldest_sub] bytes by blast
      then show ?thesis using "1.IH"(2) [OF False no drop_coldest_wf [OF wf]] False no
        by (auto simp: compact_intervals.simps [of ivs])
    qed
  qed
qed

lemma compact_intervals_id: "length ivs \<le> MAX_INTERVALS_PER_KEY \<Longrightarrow> compact_intervals ivs = ivs"
  by (simp add: compact_intervals.simps)

subsection \<open>Lemmas: adding an interval\<close>

lemma absorb_spec:
  assumes "wf_ivs ivs" and "\<forall>x\<in>set ivs. a \<le> fst x" and "a < me"
    and "absorb ivs hi me ma mr = (hi', me', ma', mr')"
  shows "\<exists>mid post. ivs = mid @ post \<and> hi' = hi + length mid \<and> me \<le> me'
    \<and> (\<forall>x\<in>set post. me' \<le> fst x) \<and> {a..<me} \<union> iv_bytes mid = {a..<me'}"
  using assms
proof (induction ivs hi me ma mr rule: absorb.induct)
  case (1 hi me ma mr)
  then show ?case by auto
next
  case (2 s e t r rest hi me ma mr)
  show ?case
  proof (cases "s < me")
    case True
    have "a \<le> s" "s < e" "wf_ivs rest" "\<forall>x\<in>set rest. a \<le> fst x"
      using "2.prems" by (auto simp: wf_ivs_Cons)
    moreover have "a < max me e" using "2.prems"(3) by simp
    ultimately obtain mid post where IH: "rest = mid @ post" "hi' = hi + 1 + length mid"
      "max me e \<le> me'" "\<forall>x\<in>set post. me' \<le> fst x" "{a..<max me e} \<union> iv_bytes mid = {a..<me'}"
      using "2.IH" [OF True] "2.prems"(4) True by auto
    have "{a..<me} \<union> {s..<e} = {a..<max me e}"
      using \<open>a \<le> s\<close> \<open>s < e\<close> True "2.prems"(3) by auto
    then have "{a..<me} \<union> iv_bytes ((s, e, t, r) # mid) = {a..<me'}"
      using IH(5) by (simp add: Un_assoc [symmetric])
    then show ?thesis using IH
      by (intro exI [of _ "(s, e, t, r) # mid"] exI [of _ post]) auto
  next
    case False
    then show ?thesis using "2.prems"
      by (intro exI [of _ "[]"] exI [of _ "(s, e, t, r) # rest"]) (auto simp: wf_ivs_Cons)
  qed
qed

text \<open>
  The common shape of both branches: \<open>P\<close> before, one slot that starts at \<open>a\<close> and reaches \<open>me\<close>,
  and the intervals \<open>R\<close> that may be absorbed.
\<close>

lemma absorb_step:
  assumes "wf_ivs P" and "wf_ivs R" and "\<forall>x\<in>set P. fst (snd x) \<le> a" and "\<forall>x\<in>set R. a \<le> fst x"
    and "a < me" and "absorb R (length P + 1) me ma mr = (hi, me', ma', mr')"
  shows "wf_ivs (P @ (a, me', ma', mr') # drop (hi - (length P + 1)) R)
    \<and> iv_bytes (P @ (a, me', ma', mr') # drop (hi - (length P + 1)) R) = iv_bytes P \<union> {a..<me} \<union> iv_bytes R
    \<and> length P + 1 \<le> hi"
proof -
  from absorb_spec [OF assms(2,4,5,6)] obtain mid post where R: "R = mid @ post"
    and hi: "hi = length P + 1 + length mid" and le: "me \<le> me'"
    and post: "\<forall>x\<in>set post. me' \<le> fst x" and bytes: "{a..<me} \<union> iv_bytes mid = {a..<me'}"
    by blast
  have d: "drop (hi - (length P + 1)) R = post" using R hi by simp
  have "wf_ivs post" using assms(2) R by (simp add: wf_ivs_append)
  moreover have "\<forall>x\<in>set P. \<forall>y\<in>set ((a, me', ma', mr') # post). fst (snd x) \<le> fst y"
    using assms(3,5) le post by (force dest: order_trans)
  ultimately have "wf_ivs (P @ (a, me', ma', mr') # post)"
    using assms(1,5) le post by (simp add: wf_ivs_append wf_ivs_Cons)
  moreover have "iv_bytes (P @ (a, me', ma', mr') # post) = iv_bytes P \<union> {a..<me} \<union> iv_bytes R"
    using bytes R by auto
  ultimately show ?thesis using d hi by simp
qed

lemma absorb_at_eq:
  assumes "absorb R (length Q + 1) me0 ma0 mr0 = (hi, me, ma, mr)" and "length Q + 1 \<le> hi"
  shows "absorb_at start (Q @ (ps, x) # R) (length Q) me0 ma0 mr0
    = Q @ (min ps start, me, ma, mr) # drop (hi - (length Q + 1)) R"
proof -
  obtain n where "hi = Suc (length Q + n)" using assms(2) by (auto simp: le_iff_add)
  then show ?thesis using assms(1) by (simp add: absorb_at_def nth_append list_update_append)
qed

lemma partition_split:
  fixes start :: u64
  defines "P \<equiv> \<lambda>(s :: u64, _ :: u64 \<times> millis \<times> u64). s < start"
  shows "ivs = takeWhile P ivs @ dropWhile P ivs" "partition_point start ivs = length (takeWhile P ivs)"
    "take (partition_point start ivs) ivs = takeWhile P ivs"
    "drop (partition_point start ivs) ivs = dropWhile P ivs"
    "x \<in> set (takeWhile P ivs) \<Longrightarrow> fst x < start"
    "wf_ivs ivs \<Longrightarrow> x \<in> set (dropWhile P ivs) \<Longrightarrow> start \<le> fst x"
proof -
  show pp: "partition_point start ivs = length (takeWhile P ivs)"
    by (simp add: partition_point_def P_def)
  show "take (partition_point start ivs) ivs = takeWhile P ivs"
    by (simp add: pp) (metis takeWhile_eq_take)
  show "drop (partition_point start ivs) ivs = dropWhile P ivs"
    by (simp add: pp) (metis dropWhile_eq_drop)
  show "x \<in> set (takeWhile P ivs) \<Longrightarrow> fst x < start"
    using set_takeWhileD [of x P ivs] by (auto simp: P_def)
  show "wf_ivs ivs \<Longrightarrow> x \<in> set (dropWhile P ivs) \<Longrightarrow> start \<le> fst x"
  proof (induction ivs)
    case (Cons y ivs)
    obtain s e t r where y: "y = (s, e, t, r)" by (cases y)
    show ?case using Cons y by (fastforce simp: wf_ivs_Cons P_def split: if_splits)
  qed simp
qed simp

lemma merge_interval_spec:
  assumes wf: "wf_ivs ivs" and lt: "start < en"
  shows "wf_ivs (merge_interval start en now ivs)
    \<and> iv_bytes (merge_interval start en now ivs) = iv_bytes ivs \<union> {start..<en}
    \<and> length (merge_interval start en now ivs) \<le> length ivs + 1"
proof -
  define P where "P = takeWhile (\<lambda>(s, _). s < start) ivs"
  define R where "R = dropWhile (\<lambda>(s, _). s < start) ivs"
  define idx where "idx = partition_point start ivs"
  note split = partition_split [where ivs = ivs and start = start, folded P_def R_def idx_def]
  have ivs: "ivs = P @ R" and idx: "idx = length P" by (fact split)+
  have wfP: "wf_ivs P" and wfR: "wf_ivs R" and PR: "\<forall>x\<in>set P. \<forall>y\<in>set R. fst (snd x) \<le> fst y"
    using wf ivs by (simp_all add: wf_ivs_append)
  have R_ge: "\<forall>x\<in>set R. start \<le> fst x" using split(6) wf by blast
  show ?thesis
  proof (cases "idx > 0 \<and> fst (snd (ivs ! (idx - 1))) > start")
    case True
    then have "P \<noteq> []" using idx by auto
    then obtain Q ps pe pt pr where P: "P = Q @ [(ps, pe, pt, pr)]"
      by (metis prod_cases4 rev_exhaust)
    have at: "ivs ! (idx - 1) = (ps, pe, pt, pr)" "idx - 1 = length Q"
      using ivs idx P by (simp_all add: nth_append)
    obtain hi me ma mr where ab: "absorb R (length Q + 1) (max pe en) (max pt now) pr = (hi, me, ma, mr)"
      by (metis prod_cases4)
    have ps: "ps < start" using split(5) [of "(ps, pe, pt, pr)"] P by simp
    have pe: "start < pe" "ps < max pe en" using True at lt ps by auto
    have Q: "wf_ivs Q" "\<forall>x\<in>set Q. fst (snd x) \<le> ps" using wfP P by (auto simp: wf_ivs_append)
    have "\<forall>x\<in>set R. ps \<le> fst x" using R_ge ps by force
    note step = absorb_step [OF Q(1) wfR Q(2) this pe(2) ab]
    have ivsQ: "ivs = Q @ (ps, pe, pt, pr) # R" using ivs P by simp
    have "merge_interval start en now ivs = absorb_at start ivs (length Q) (max pe en) (max pt now) pr"
      unfolding merge_interval_def Let_def idx_def [symmetric] using True at by simp
    then have "merge_interval start en now ivs = Q @ (ps, me, ma, mr) # drop (hi - (length Q + 1)) R"
      using absorb_at_eq [OF ab, of start ps "(pe, pt, pr)"] ps step by (simp add: ivsQ)
    moreover have "iv_bytes Q \<union> {ps..<max pe en} \<union> iv_bytes R = iv_bytes ivs \<union> {start..<en}"
      using ivs P ps pe by auto
    ultimately show ?thesis using step ivs P by auto
  next
    case False
    have P_le: "\<forall>x\<in>set P. fst (snd x) \<le> start"
    proof
      fix x assume x: "x \<in> set P"
      then obtain Q l where P: "P = Q @ [l]" by (metis empty_iff empty_set rev_exhaust)
      then have "fst (snd l) \<le> start" using False ivs idx by (simp add: nth_append)
      moreover have "fst (snd x) \<le> fst (snd l)" if "x \<noteq> l"
        using wfP P x that by (cases l) (force simp: wf_ivs_append wf_ivs_Cons)
      ultimately show "fst (snd x) \<le> start" by (cases "x = l") auto
    qed
    obtain hi me ma mr where ab: "absorb R (length P + 1) en now 0 = (hi, me, ma, mr)"
      by (metis prod_cases4)
    note step = absorb_step [OF wfP wfR P_le R_ge lt ab]
    have tk: "take idx ivs = P" "drop idx ivs = R" by (fact split)+
    have "merge_interval start en now ivs = absorb_at start (P @ (start, en, now, 0) # R) (length P) en now 0"
      unfolding merge_interval_def Let_def idx_def [symmetric] using False tk idx
      by (simp only: if_False)
    then have "merge_interval start en now ivs = P @ (start, me, ma, mr) # drop (hi - (length P + 1)) R"
      using absorb_at_eq [OF ab, of start start "(en, now, 0)"] step by simp
    then show ?thesis using step ivs by auto
  qed
qed

lemma add_interval_other [simp]:
  "c_etag (add_interval s e t c) = c_etag c" "c_total (add_interval s e t c) = c_total c"
  "c_last_touch_millis (add_interval s e t c) = c_last_touch_millis c"
  by (simp_all add: add_interval_def compact_def)

definition wf_row :: "coverage \<Rightarrow> bool" where
  "wf_row c = (wf_ivs (c_intervals c) \<and> length (c_intervals c) \<le> MAX_INTERVALS_PER_KEY)"

definition row_bytes :: "coverage \<Rightarrow> nat set" where
  "row_bytes c = iv_bytes (c_intervals c)"

lemma add_interval_spec:
  assumes "wf_row c"
  shows "wf_row (add_interval start en now c)"
    and "row_bytes (add_interval start en now c) \<subseteq> row_bytes c \<union> {start..<en}"
    and "length (c_intervals c) < MAX_INTERVALS_PER_KEY \<Longrightarrow>
      row_bytes (add_interval start en now c) = row_bytes c \<union> {start..<en}"
proof -
  have "wf_row (add_interval start en now c) \<and> row_bytes (add_interval start en now c) \<subseteq> row_bytes c \<union> {start..<en}
    \<and> (length (c_intervals c) < MAX_INTERVALS_PER_KEY \<longrightarrow>
      row_bytes (add_interval start en now c) = row_bytes c \<union> {start..<en})"
  proof (cases "start < en")
    case True
    have "wf_ivs (c_intervals c)" using assms by (simp add: wf_row_def)
    from merge_interval_spec [OF this True, of now] compact_intervals_spec [of "merge_interval start en now (c_intervals c)"]
      compact_intervals_id [of "merge_interval start en now (c_intervals c)"]
    show ?thesis using True
      by (auto simp: add_interval_def compact_def wf_row_def row_bytes_def)
  next
    case False
    then show ?thesis using assms by (simp add: add_interval_def)
  qed
  then show "wf_row (add_interval start en now c)"
    and "row_bytes (add_interval start en now c) \<subseteq> row_bytes c \<union> {start..<en}"
    and "length (c_intervals c) < MAX_INTERVALS_PER_KEY \<Longrightarrow>
      row_bytes (add_interval start en now c) = row_bytes c \<union> {start..<en}"
    by blast+
qed

subsection \<open>The interface to the segment listing\<close>

text \<open>
  What the ledger and the staging planner rely on when they ask the directory for a key's
  segments: the listing is in start order, and every entry is a file that exists.
\<close>

lemma ivl_peel:
  fixes s :: nat
  assumes "s \<le> at" and "at < e" and "e < en"
  shows "{at..<en} \<subseteq> {s..<e} \<union> U \<longleftrightarrow> {e..<en} \<subseteq> U"
proof
  assume cov: "{at..<en} \<subseteq> {s..<e} \<union> U"
  show "{e..<en} \<subseteq> U"
  proof
    fix x assume "x \<in> {e..<en}"
    then have "x \<in> {at..<en}" "x \<notin> {s..<e}" using assms by auto
    then show "x \<in> U" using cov by blast
  qed
next
  assume "{e..<en} \<subseteq> U"
  moreover have "{at..<en} \<subseteq> {s..<e} \<union> {e..<en}" using assms by auto
  ultimately show "{at..<en} \<subseteq> {s..<e} \<union> U" by blast
qed

locale segment_listing =
  fixes segs :: "dir \<Rightarrow> string \<Rightarrow> (u64 \<times> u64 \<times> string) list"
  assumes segs_sorted: "sorted (map fst (segs d k))"
    and segs_exist: "(s, e, p) \<in> set (segs d k) \<Longrightarrow> file_exists d p"
begin

definition listed_bytes :: "dir \<Rightarrow> string \<Rightarrow> nat set" where
  "listed_bytes d k = (\<Union>(s, e, _)\<in>set (segs d k). {s..<e})"

lemma walk_iff:
  assumes "sorted (map fst xs)" and "at < en"
  shows "cover_walk xs at en \<longleftrightarrow> {at..<en} \<subseteq> (\<Union>(s, e, _)\<in>set xs. {s..<e :: nat})"
  using assms
proof (induction xs at en rule: cover_walk.induct)
  case (2 s e p rest at en)
  let ?U = "\<Union>(s, e, _)\<in>set rest. {s..<e}"
  have sorted: "sorted (map fst rest)" "\<forall>x\<in>set rest. s \<le> fst x" using "2.prems" by auto
  show ?case
  proof (cases "s \<le> at \<and> at < e")
    case True
    show ?thesis
    proof (cases "e \<ge> en")
      case True
      then show ?thesis using \<open>s \<le> at \<and> at < e\<close> by auto
    next
      case False
      then have "cover_walk rest e en \<longleftrightarrow> {e..<en} \<subseteq> ?U"
        using "2.IH"(1) [OF True False] sorted by simp
      moreover have "{at..<en} \<subseteq> {s..<e} \<union> ?U \<longleftrightarrow> {e..<en} \<subseteq> ?U"
        by (rule ivl_peel) (use True False in auto)
      ultimately show ?thesis using True False by simp
    qed
  next
    case False
    then have IH: "cover_walk rest at en \<longleftrightarrow> {at..<en} \<subseteq> ?U"
      using "2.IH"(2) [OF False] sorted "2.prems" by simp
    moreover have "{at..<en} \<subseteq> {s..<e} \<union> ?U \<longleftrightarrow> {at..<en} \<subseteq> ?U"
    proof
      assume cov: "{at..<en} \<subseteq> {s..<e} \<union> ?U"
      show "{at..<en} \<subseteq> ?U"
      proof (cases "e \<le> at")
        case True
        then show ?thesis using cov by auto
      next
        case e: False
        then have "at < s" using False by auto
        then have "at \<notin> {s..<e} \<union> ?U" using sorted(2) by force
        moreover have "at \<in> {at..<en}" using "2.prems"(2) by simp
        ultimately show ?thesis using cov by blast
      qed
    qed blast
    ultimately show ?thesis using False by auto
  qed
qed auto

lemma covers_iff: "at < en \<Longrightarrow> cover_walk (segs d k) at en \<longleftrightarrow> {at..<en} \<subseteq> listed_bytes d k"
  unfolding listed_bytes_def by (rule walk_iff [OF segs_sorted])

end

interpretation sl: segment_listing segments_for_key
proof
  show "sorted (map fst (segments_for_key d k))" for d k by (rule segments_for_key_sorted)
  show "file_exists d p" if "(s, e, p) \<in> set (segments_for_key d k)" for s e p d k
    using that key_segment_files_exist by (auto simp: segments_for_key_mem)
qed

subsection \<open>Lemmas: the ledger's invariant\<close>

definition wf_ledger :: "ledger \<Rightarrow> bool" where
  "wf_ledger lg = (hm_wf (lg_map lg) \<and> (\<forall>(_, c)\<in>set (lg_map lg). wf_row c))"

lemma wf_row_default [simp]: "wf_row coverage_default"
  by (simp add: wf_row_def coverage_default_def)

lemma row_bytes_default [simp]: "row_bytes coverage_default = {}"
  by (simp add: row_bytes_def coverage_default_def)

lemma with_version_ivs [simp]: "c_intervals (with_version etag tot c) = c_intervals c"
  by (simp add: with_version_def Let_def split: option.splits)

lemma wf_row_ivs: "c_intervals c' = c_intervals c \<Longrightarrow> wf_row c' = wf_row c"
  by (simp add: wf_row_def)

lemma row_bytes_ivs: "c_intervals c' = c_intervals c \<Longrightarrow> row_bytes c' = row_bytes c"
  by (simp add: row_bytes_def)

lemma wf_row_with_version [simp]: "wf_row (with_version etag tot c) = wf_row c"
  by (rule wf_row_ivs) simp

lemma wf_row_touch [simp]: "wf_row (c\<lparr>c_last_touch_millis := t\<rparr>) = wf_row c"
  by (rule wf_row_ivs) simp

lemma row_bytes_touch [simp]: "row_bytes (c\<lparr>c_last_touch_millis := t\<rparr>) = row_bytes c"
  by (rule row_bytes_ivs) simp

lemma row_bytes_with_version [simp]: "row_bytes (with_version etag tot c) = row_bytes c"
  by (rule row_bytes_ivs) simp

lemma wf_ledger_new [simp]: "wf_ledger ledger_new"
  by (simp add: wf_ledger_def ledger_new_def)

lemma wf_ledger_get: "wf_ledger lg \<Longrightarrow> map_of (lg_map lg) k = Some c \<Longrightarrow> wf_row c"
  using map_of_SomeD by (fastforce simp: wf_ledger_def)

lemma wf_row_of: "wf_ledger lg \<Longrightarrow> wf_row (row_of lg k)"
  using wf_ledger_get by (auto simp: row_of_def split: option.splits)

lemma row_of_put [simp]: "row_of (put_row k c lg) q = (if q = k then c else row_of lg q)"
  by (simp add: row_of_def put_row_def)

lemma row_of_staged [simp]: "row_of (lg\<lparr>lg_total_staged := n\<rparr>) q = row_of lg q"
  by (simp add: row_of_def)

lemma wf_ledger_staged [simp]: "wf_ledger (lg\<lparr>lg_total_staged := n\<rparr>) = wf_ledger lg"
  by (simp add: wf_ledger_def)

lemma wf_ledger_put [inv_intros]: "wf_ledger lg \<Longrightarrow> wf_row c \<Longrightarrow> wf_ledger (put_row k c lg)"
  by (auto simp: wf_ledger_def put_row_def hm_wf_put) (auto simp: hm_put_def hm_del_def)

lemma wf_ledger_del [inv_intros]: "wf_ledger lg \<Longrightarrow> wf_ledger (lg\<lparr>lg_map := hm_del k (lg_map lg)\<rparr>)"
  by (auto simp: wf_ledger_def hm_wf_del) (auto simp: hm_del_def)

lemma decay_spec:
  "wf_row c \<Longrightarrow> wf_row (snd (decay_and_covered at w c))"
  "row_bytes (snd (decay_and_covered at w c)) \<subseteq> row_bytes c"
proof -
  show "wf_row c \<Longrightarrow> wf_row (snd (decay_and_covered at w c))"
    by (auto simp: decay_and_covered_def wf_row_def Let_def wf_ivs_filter
        intro: order_trans [OF length_filter_le])
  show "row_bytes (snd (decay_and_covered at w c)) \<subseteq> row_bytes c"
    by (auto simp: decay_and_covered_def row_bytes_def Let_def iv_bytes_def)
qed

lemma wf_ledger_seal [inv_intros]: "wf_ledger lg \<Longrightarrow> wf_ledger (snd (ledger_seal d k sp etag tot w at lg))"
  by (auto simp: ledger_seal_def Let_def split: prod.splits
      intro!: inv_intros decay_spec add_interval_spec(1) wf_row_of)

lemma wf_ledger_adopt [inv_intros]: "wf_ledger lg \<Longrightarrow> wf_ledger (snd (ledger_adopt d k sp at lg))"
  by (auto simp: ledger_adopt_def Let_def split: prod.splits option.splits
      intro!: inv_intros add_interval_spec(1) wf_row_of)

lemma wf_adopt_one [inv_intros]: "wf_ledger lg \<Longrightarrow> wf_ledger (adopt_one at lg f)"
proof -
  assume "wf_ledger lg"
  then have "wf_row (row_of lg (sf_key f))" by (rule wf_row_of)
  then have "wf_row (row_of lg (sf_key f)\<lparr>c_etag := a\<rparr>)" "wf_row (row_of lg (sf_key f)\<lparr>c_total := b\<rparr>)"
    "wf_row (row_of lg (sf_key f)\<lparr>c_etag := a, c_total := b\<rparr>)" for a b
    by (simp_all add: wf_row_def)
  with \<open>wf_ledger lg\<close> show ?thesis
    by (auto simp: adopt_one_def Let_def intro!: inv_intros add_interval_spec(1) wf_row_of)
qed

lemma wf_adopt_all [inv_intros]: "wf_ledger (fst (adopt_all decode d at lg))"
proof -
  have "wf_ledger lg \<Longrightarrow> wf_ledger (foldl (adopt_one at) lg fs)" for lg fs
    by (induction fs arbitrary: lg) (auto intro: wf_adopt_one)
  moreover have "wf_ledger (lg\<lparr>lg_map := []\<rparr>)" by (simp add: wf_ledger_def)
  ultimately have "wf_ledger (foldl (adopt_one at) (lg\<lparr>lg_map := []\<rparr>) fs)" for fs by blast
  then show ?thesis by (simp add: adopt_all_def Let_def split: prod.splits)
qed

lemma wf_ledger_forget [inv_intros]: "wf_ledger lg \<Longrightarrow> wf_ledger (forget k n lg)"
  by (auto simp: forget_def wf_ledger_def hm_wf_del) (auto simp: hm_del_def)

lemma wf_drop_row_if_empty [inv_intros]: "wf_ledger lg \<Longrightarrow> wf_ledger (snd (drop_row_if_empty k lg))"
  by (auto simp: drop_row_if_empty_def split: option.splits intro: inv_intros)

lemma wf_set_version [inv_intros]: "wf_ledger lg \<Longrightarrow> wf_ledger (set_version k etag tot lg)"
  by (auto simp: set_version_def intro!: inv_intros wf_row_of)

lemma wf_ledger_touch [inv_intros]: "wf_ledger lg \<Longrightarrow> wf_ledger (ledger_touch k at lg)"
  by (auto simp: ledger_touch_def split: option.splits intro!: inv_intros dest: wf_ledger_get)

lemma wf_served [inv_intros]: "wf_ledger lg \<Longrightarrow> wf_ledger (served k s e lg)"
proof -
  assume wf: "wf_ledger lg"
  have "wf_row (c\<lparr>c_intervals := map (\<lambda>(a, b, t, r). if a < e \<and> s < b then (a, b, t, sat_add r 1) else (a, b, t, r))
      (c_intervals c)\<rparr>)" if "wf_row c" for c
    using that by (auto simp: wf_row_def intro!: wf_ivs_map_same)
  then show ?thesis using wf
    by (auto simp: served_def split: option.splits intro!: inv_intros dest: wf_ledger_get)
qed

lemma wf_decayed_coverage [inv_intros]:
  assumes "wf_ledger lg"
  shows "wf_ledger (snd (decayed_coverage k at w lg))"
proof (cases "map_of (lg_map lg) k")
  case (Some c)
  then have "wf_row (snd (decay_and_covered at w c))"
    using decay_spec(1) wf_ledger_get [OF assms] by blast
  then show ?thesis using Some assms
    by (simp add: decayed_coverage_def case_prod_unfold Let_def wf_ledger_put)
qed (use assms in \<open>simp add: decayed_coverage_def\<close>)

subsection \<open>Lemmas: rebuilding rows from the disk\<close>

definition disjoint_listing :: "(u64 \<times> u64 \<times> string) list \<Rightarrow> bool" where
  "disjoint_listing xs =
     (sorted_wrt (\<lambda>(_, e, _) (s, _, _). e \<le> s) xs \<and> (\<forall>(s, e, _)\<in>set xs. s < e))"

lemma adopt_files_spec:
  assumes "disjoint_listing xs"
  shows "wf_row (adopt_files (map (\<lambda>(s, e, _). (s, e)) xs) now c)
    \<and> row_bytes (adopt_files (map (\<lambda>(s, e, _). (s, e)) xs) now c) \<subseteq> (\<Union>(s, e, _)\<in>set xs. {s..<e})"
proof -
  define g where "g = (\<lambda>(s, e). case find (\<lambda>(ps, pe, _, _). ps \<le> s \<and> e \<le> pe) (c_intervals c) of
      Some (_, _, t, r) \<Rightarrow> (s, e, t, r) | None \<Rightarrow> (s, e, now, 0))"
  have g: "fst (g (s, e)) = s \<and> fst (snd (g (s, e))) = e" for s e
    by (simp add: g_def split: option.splits)
  define ivs where "ivs = map (\<lambda>(s, e, _). g (s, e)) xs"
  have "wf_ivs ivs"
    using assms g unfolding ivs_def wf_ivs_def disjoint_listing_def sorted_wrt_map before_def
    by (auto elim!: sorted_wrt_mono_rel [rotated] split: prod.splits)
  moreover have "iv_bytes ivs = (\<Union>(s, e, _)\<in>set xs. {s..<e})"
  proof -
    have "iv_bytes ivs = (\<Union>x\<in>set ivs. {fst x..<fst (snd x)})"
      by (auto simp: iv_bytes_def split: prod.splits)
    then show ?thesis using g by (simp add: ivs_def case_prod_unfold)
  qed
  moreover have "adopt_files (map (\<lambda>(s, e, _). (s, e)) xs) now c = compact (c\<lparr>c_intervals := ivs\<rparr>)"
    by (simp add: adopt_files_def ivs_def g_def comp_def case_prod_unfold)
  ultimately show ?thesis using compact_intervals_spec [of ivs]
    by (simp add: wf_row_def row_bytes_def compact_def)
qed

definition claimed :: "segment_file \<Rightarrow> nat set" where
  "claimed f = {sf_start f..<min (sf_end f) (sat_add (sf_start f) (sf_len f))}"

lemma adopt_one_row:
  assumes "wf_ledger lg"
  shows "row_bytes (row_of (adopt_one at lg f) k)
      \<subseteq> row_bytes (row_of lg k) \<union> (if sf_key f = k then claimed f else {})"
    and "length (c_intervals (row_of lg k)) < MAX_INTERVALS_PER_KEY \<Longrightarrow>
      row_bytes (row_of (adopt_one at lg f) k)
      = row_bytes (row_of lg k) \<union> (if sf_key f = k then claimed f else {})"
    and "length (c_intervals (row_of lg k)) < MAX_INTERVALS_PER_KEY \<Longrightarrow>
      length (c_intervals (row_of (adopt_one at lg f) k)) \<le> length (c_intervals (row_of lg k)) + 1"
proof -
  define c where "c = (let c = row_of lg (sf_key f);
      c1 = (if c_etag c = None then c\<lparr>c_etag := sf_etag f\<rparr> else c)
      in if c_total c1 = 0 then c1\<lparr>c_total := sf_total f\<rparr> else c1)"
  have ivs: "c_intervals c = c_intervals (row_of lg (sf_key f))" by (simp add: c_def Let_def)
  have eq: "row_of (adopt_one at lg f) k =
      (if k = sf_key f then (add_interval (sf_start f) (min (sf_end f) (sat_add (sf_start f) (sf_len f))) at c)
         \<lparr>c_last_touch_millis := at\<rparr> else row_of lg k)"
    by (simp add: adopt_one_def c_def Let_def)
  have wf: "wf_row c" using wf_row_of [OF assms] wf_row_ivs [OF ivs] by simp
  have rb: "row_bytes c = row_bytes (row_of lg (sf_key f))" by (rule row_bytes_ivs [OF ivs])
  note A = add_interval_spec [OF wf, of "sf_start f" "min (sf_end f) (sat_add (sf_start f) (sf_len f))" at]
  show "row_bytes (row_of (adopt_one at lg f) k)
      \<subseteq> row_bytes (row_of lg k) \<union> (if sf_key f = k then claimed f else {})"
    using A(2) eq rb by (auto simp: claimed_def)
  assume len: "length (c_intervals (row_of lg k)) < MAX_INTERVALS_PER_KEY"
  show "row_bytes (row_of (adopt_one at lg f) k)
      = row_bytes (row_of lg k) \<union> (if sf_key f = k then claimed f else {})"
    using A(3) eq rb len ivs by (auto simp: claimed_def)
  show "length (c_intervals (row_of (adopt_one at lg f) k)) \<le> length (c_intervals (row_of lg k)) + 1"
  proof (cases "k = sf_key f \<and> sf_start f < min (sf_end f) (sat_add (sf_start f) (sf_len f))")
    case True
    have "wf_ivs (c_intervals c)" using wf by (simp add: wf_row_def)
    from merge_interval_spec [OF this, of "sf_start f" "min (sf_end f) (sat_add (sf_start f) (sf_len f))" at] True
    have "length (merge_interval (sf_start f) (min (sf_end f) (sat_add (sf_start f) (sf_len f))) at (c_intervals c))
      \<le> length (c_intervals c) + 1" by simp
    then show ?thesis using True eq ivs len
      by (auto simp: add_interval_def compact_def compact_intervals_id)
  next
    case False
    then show ?thesis using eq ivs by (auto simp: add_interval_def)
  qed
qed

lemma adopt_rows:
  assumes "wf_ledger lg" and "length (c_intervals (row_of lg k)) + length fs \<le> MAX_INTERVALS_PER_KEY"
  shows "row_bytes (row_of (foldl (adopt_one at) lg fs) k)
    = row_bytes (row_of lg k) \<union> (\<Union>f\<in>{f\<in>set fs. sf_key f = k}. claimed f)"
  using assms
proof (induction fs arbitrary: lg)
  case (Cons f fs)
  have lt: "length (c_intervals (row_of lg k)) < MAX_INTERVALS_PER_KEY" using Cons.prems(2) by simp
  note one = adopt_one_row(2,3) [OF Cons.prems(1) lt, of at f]
  have "row_bytes (row_of (foldl (adopt_one at) (adopt_one at lg f) fs) k)
      = row_bytes (row_of (adopt_one at lg f) k) \<union> (\<Union>f\<in>{f\<in>set fs. sf_key f = k}. claimed f)"
    by (rule Cons.IH) (use Cons.prems one wf_adopt_one in auto)
  then show ?case using one(1) by auto
qed simp

lemma adopt_rows_sub:
  assumes "wf_ledger lg"
  shows "row_bytes (row_of (foldl (adopt_one at) lg fs) k)
    \<subseteq> row_bytes (row_of lg k) \<union> (\<Union>f\<in>{f\<in>set fs. sf_key f = k}. claimed f)"
  using assms
proof (induction fs arbitrary: lg)
  case (Cons f fs)
  let ?U = "\<lambda>fs. \<Union>f\<in>{f\<in>set fs. sf_key f = k}. claimed f"
  have "row_bytes (row_of (foldl (adopt_one at) lg (f # fs)) k)
      \<subseteq> row_bytes (row_of (adopt_one at lg f) k) \<union> ?U fs"
    using Cons.IH [OF wf_adopt_one [OF Cons.prems, of at f]] by simp
  also have "\<dots> \<subseteq> row_bytes (row_of lg k) \<union> (if sf_key f = k then claimed f else {}) \<union> ?U fs"
    using adopt_one_row(1) [OF Cons.prems, of at f k] by blast
  also have "\<dots> \<subseteq> row_bytes (row_of lg k) \<union> ?U (f # fs)" by auto
  finally show ?case .
qed simp

lemma account_sum: "foldl (\<lambda>n f. sat_add n (sf_len f)) n fs \<le> n + (\<Sum>f\<leftarrow>fs. sf_len f)"
  "n + (\<Sum>f\<leftarrow>fs. sf_len f) \<le> U64_MAX \<Longrightarrow>
     foldl (\<lambda>n f. sat_add n (sf_len f)) n fs = n + (\<Sum>f\<leftarrow>fs. sf_len f)"
proof (induction fs arbitrary: n)
  case (Cons f fs)
  { case 1 then show ?case using Cons.IH(1) [of "sat_add n (sf_len f)"] sat_add_le_sum [of n "sf_len f"] by simp }
  { case 2 then show ?case using Cons.IH(2) [of "n + sf_len f"] by (simp add: sat_add_exact) }
qed simp_all

lemma parse_seg_name_prefix:
  assumes "parse_seg_name p = Some x"
  shows "starts_with p ''.seg.'' \<and> \<not> starts_with p ''.segpart.'' \<and> \<not> is_seg_junk p"
proof -
  have "strip_prefix ''.seg.'' p \<noteq> None"
    using assms by (cases "strip_prefix ''.seg.'' p") (simp_all add: parse_seg_name_def)
  then have "starts_with p ''.seg.''" by (auto simp: strip_prefix_def split: if_splits)
  moreover from this have "\<not> starts_with p ''.segpart.''" by (auto simp: starts_with_iff)
  ultimately show ?thesis using assms by (simp add: is_seg_junk_def)
qed

definition segment_names :: "dir \<Rightarrow> string list" where
  "segment_names d = filter (\<lambda>p. parse_seg_name p \<noteq> None) (top_level_files d)"

lemma scan_segment_files_exact:
  assumes "scan_segment_files decode d = (fs, d')"
  shows "length fs = length (segment_names d)"
    and "map sf_len fs = map (file_len d) (segment_names d)"
    and "(\<Union>f\<in>{f\<in>set fs. sf_key f = k}. claimed f) =
      {b. \<exists>p s e. p \<in> set (segment_names d) \<and> parse_seg_name p = Some (k, s, e)
            \<and> s \<le> b \<and> b < min e (sat_add s (file_len d p))}"
proof -
  define mk where "mk = (\<lambda>p. case parse_seg_name p of
      Some (key, s, e) \<Rightarrow> (let m = seg_meta_of decode d' key
         in \<lparr>sf_key = key, sf_start = s, sf_end = e, sf_len = file_len d' p, sf_etag = sm_etag m, sf_total = sm_total m\<rparr>)
    | None \<Rightarrow> \<lparr>sf_key = [], sf_start = 0, sf_end = 0, sf_len = 0, sf_etag = None, sf_total = 0\<rparr>)"
  have names: "filter (\<lambda>p. \<not> starts_with p ''.segpart.'' \<and> starts_with p ''.seg.'' \<and> parse_seg_name p \<noteq> None)
      (top_level_files d) = segment_names d"
    unfolding segment_names_def by (rule filter_cong) (auto dest: parse_seg_name_prefix)
  have d': "d' = remove_files (filter is_seg_junk (top_level_files d)) d"
    using assms by (simp add: scan_segment_files_def Let_def)
  then have fs: "fs = map mk (segment_names d)"
    using assms unfolding scan_segment_files_def Let_def names mk_def by (simp only: prod.inject)
  have len: "file_len d' p = file_len d p" if "p \<in> set (segment_names d)" for p
    using that parse_seg_name_prefix by (auto simp: d' segment_names_def)
  have mk: "sf_key (mk p) = k' \<and> sf_start (mk p) = s \<and> sf_end (mk p) = e \<and> sf_len (mk p) = file_len d p"
    if "p \<in> set (segment_names d)" "parse_seg_name p = Some (k', s, e)" for p k' s e
    using that len [of p] by (simp add: mk_def Let_def)
  have seg: "\<exists>k' s e. parse_seg_name p = Some (k', s, e)" if "p \<in> set (segment_names d)" for p
    using that by (auto simp: segment_names_def)
  show "length fs = length (segment_names d)" by (simp add: fs)
  show "map sf_len fs = map (file_len d) (segment_names d)" using mk seg by (fastforce simp: fs)
  show "(\<Union>f\<in>{f\<in>set fs. sf_key f = k}. claimed f) =
      {b. \<exists>p s e. p \<in> set (segment_names d) \<and> parse_seg_name p = Some (k, s, e)
            \<and> s \<le> b \<and> b < min e (sat_add s (file_len d p))}" (is "?L = ?R")
  proof
    show "?L \<subseteq> ?R" using mk seg by (fastforce simp: fs claimed_def)
    show "?R \<subseteq> ?L" using mk by (fastforce simp: fs claimed_def)
  qed
qed

subsection \<open>Histories of operations\<close>

datatype ledger_op =
    Op_seal string "u64 \<times> u64" "string option" u64 u64 millis
  | Op_adopt string "u64 \<times> u64" millis
  | Op_adopt_all millis
  | Op_forget string u64
  | Op_re_adopt string u64 millis
  | Op_drop_row_if_empty string
  | Op_set_version string "string option" u64
  | Op_touch string millis
  | Op_served string u64 u64
  | Op_decayed_coverage string millis u64

fun ledger_step :: "(byte list \<Rightarrow> seg_meta option) \<Rightarrow> ledger \<Rightarrow> dir \<times> ledger_op \<Rightarrow> ledger" where
  "ledger_step dec lg (d, Op_seal k sp etag tot w at) = snd (ledger_seal d k sp etag tot w at lg)"
| "ledger_step dec lg (d, Op_adopt k sp at) = snd (ledger_adopt d k sp at lg)"
| "ledger_step dec lg (d, Op_adopt_all at) = fst (adopt_all dec d at lg)"
| "ledger_step dec lg (d, Op_forget k n) = forget k n lg"
| "ledger_step dec lg (d, Op_re_adopt k n now) = re_adopt d k n now lg"
| "ledger_step dec lg (d, Op_drop_row_if_empty k) = snd (drop_row_if_empty k lg)"
| "ledger_step dec lg (d, Op_set_version k etag tot) = set_version k etag tot lg"
| "ledger_step dec lg (d, Op_touch k at) = ledger_touch k at lg"
| "ledger_step dec lg (d, Op_served k s e) = served k s e lg"
| "ledger_step dec lg (d, Op_decayed_coverage k at w) = snd (decayed_coverage k at w lg)"

text \<open>The one premise: a row rebuilt after an eviction sees files that do not overlap.\<close>

fun sound_op :: "dir \<times> ledger_op \<Rightarrow> bool" where
  "sound_op (d, Op_re_adopt k n now) = disjoint_listing (segments_for_key d k)"
| "sound_op _ = True"

lemma wf_re_adopt [inv_intros]:
  "wf_ledger lg \<Longrightarrow> disjoint_listing (segments_for_key d k) \<Longrightarrow> wf_ledger (re_adopt d k n now lg)"
  by (auto simp: re_adopt_def Let_def adopt_files_spec split: option.splits intro!: inv_intros)

lemma wf_ledger_step [inv_intros]: "wf_ledger lg \<Longrightarrow> sound_op x \<Longrightarrow> wf_ledger (ledger_step dec lg x)"
  by (cases "(dec, lg, x)" rule: ledger_step.cases) (auto intro: inv_intros)

lemma wf_ledger_run: "wf_ledger lg \<Longrightarrow> \<forall>x\<in>set ops. sound_op x \<Longrightarrow> wf_ledger (foldl (ledger_step dec) lg ops)"
  by (induction ops arbitrary: lg) (auto intro: inv_intros)

text \<open>The byte positions the names of the directory's files put behind a key.\<close>

definition disk_bytes :: "dir \<Rightarrow> string \<Rightarrow> nat set" where
  "disk_bytes d k =
     {b. \<exists>p s e. file_exists d p \<and> s \<le> b \<and> b < e
          \<and> (p = seg_path k s e \<or> (s, e, p) \<in> set (segments_for_key d k) \<or> parse_seg_name p = Some (k, s, e))}"

lemma seg_file_bytes: "file_exists d (seg_path k s e) \<Longrightarrow> {s..<e} \<subseteq> disk_bytes d k"
  unfolding disk_bytes_def by fastforce

lemma seg_file_measured:
  "file_exists d (seg_path k s e) \<Longrightarrow> {s..<min e n} \<subseteq> disk_bytes d k"
  by (rule order_trans [OF _ seg_file_bytes]) auto

lemma seal_bytes:
  assumes "wf_ledger lg"
  shows "row_bytes (row_of (snd (ledger_seal d k (s, e) etag tot w at lg)) q)
    \<subseteq> row_bytes (row_of lg q) \<union>
       (if q = k \<and> file_exists d (seg_path k s e)
        then {s..<min e (sat_add s (file_len d (seg_path k s e)))} else {})"
proof -
  let ?en = "min e (sat_add s (file_len d (seg_path k s e)))"
  let ?c = "(add_interval s ?en at (with_version etag tot (row_of lg k)))\<lparr>c_last_touch_millis := at\<rparr>"
  have "row_bytes (snd (decay_and_covered at w ?c)) \<subseteq> row_bytes ?c" by (rule decay_spec)
  also have "\<dots> \<subseteq> row_bytes (row_of lg k) \<union> {s..<?en}"
    using add_interval_spec(2) [of "with_version etag tot (row_of lg k)" s ?en at] wf_row_of [OF assms, of k]
    by simp
  finally show ?thesis by (simp add: ledger_seal_def Let_def)
qed

lemma listed_disk_bytes: "sl.listed_bytes d k \<subseteq> disk_bytes d k"
  using sl.segs_exist by (fastforce simp: sl.listed_bytes_def disk_bytes_def)

lemma adopt_bytes:
  assumes "wf_ledger lg"
  shows "row_bytes (row_of (snd (ledger_adopt d k (s, e) at lg)) q) \<subseteq> row_bytes (row_of lg q) \<union> disk_bytes d q"
proof -
  note A = add_interval_spec(2) [OF wf_row_of [OF assms, of k], of s _ at]
  have one: "{s..<min e n} \<subseteq> disk_bytes d k" if "file_exists d (seg_path k s e)" for n
    using seg_file_measured [OF that] .
  have union: "{s..<e} \<subseteq> disk_bytes d k" if "disk_covers d k s e" "s < e"
    using that sl.covers_iff [of s e d k] listed_disk_bytes by (auto simp: disk_covers_def)
  show ?thesis
    using A one union by (auto simp: ledger_adopt_def Let_def) (meson UnE subsetD)+
qed

lemma re_adopt_bytes:
  assumes "disjoint_listing (segments_for_key d k)"
  shows "row_bytes (row_of (re_adopt d k n now lg) q) \<subseteq> row_bytes (row_of lg q) \<union> disk_bytes d q"
proof (cases "map_of (lg_map lg) k")
  case (Some c)
  have "row_bytes (adopt_files (map (\<lambda>(s, e, _). (s, e)) (segments_for_key d k)) now c) \<subseteq> disk_bytes d k"
    using adopt_files_spec [OF assms, of now c] listed_disk_bytes [of d k] by (auto simp: sl.listed_bytes_def)
  then show ?thesis using Some by (auto simp: re_adopt_def Let_def)
next
  case None
  then show ?thesis by (simp add: re_adopt_def Let_def)
qed

lemma adopt_all_bytes: "row_bytes (row_of (fst (adopt_all dec d at lg)) q) \<subseteq> disk_bytes d q"
proof -
  obtain fs d' where scan: "scan_segment_files dec d = (fs, d')" by fastforce
  have "wf_ledger (lg\<lparr>lg_map := []\<rparr>)" by (simp add: wf_ledger_def)
  from adopt_rows_sub [OF this, of at fs q] have "row_bytes (row_of (fst (adopt_all dec d at lg)) q)
      \<subseteq> (\<Union>f\<in>{f\<in>set fs. sf_key f = q}. claimed f)"
    by (simp add: adopt_all_def scan row_of_def)
  also have "\<dots> \<subseteq> disk_bytes d q"
    unfolding scan_segment_files_exact(3) [OF scan]
    by (auto simp: disk_bytes_def segment_names_def top_level_mem)
  finally show ?thesis .
qed

lemma row_of_del [simp]: "row_of (lg\<lparr>lg_map := hm_del k (lg_map lg)\<rparr>) q = (if q = k then coverage_default else row_of lg q)"
  by (simp add: row_of_def)

lemma served_bytes: "row_bytes (row_of (served k s e lg) q) = row_bytes (row_of lg q)"
proof (cases "map_of (lg_map lg) k")
  case (Some c)
  have "iv_bytes (map (\<lambda>(a, b, t, r). if a < e \<and> s < b then (a, b, t, sat_add r 1) else (a, b, t, r)) ivs)
      = iv_bytes ivs" for ivs by (induction ivs) (auto split: if_splits)
  then show ?thesis using Some by (simp add: served_def row_bytes_def) (simp add: row_of_def)
qed (simp add: served_def)

lemma ledger_step_bytes:
  assumes "wf_ledger lg" and "sound_op (d, op)"
  shows "row_bytes (row_of (ledger_step dec lg (d, op)) q) \<subseteq> row_bytes (row_of lg q) \<union> disk_bytes d q"
proof (cases op)
  case (Op_seal k sp etag tot w at)
  obtain s e where sp: "sp = (s, e)" by (cases sp)
  have "(if q = k \<and> file_exists d (seg_path k s e)
        then {s..<min e (sat_add s (file_len d (seg_path k s e)))} else {}) \<subseteq> disk_bytes d q"
    using seg_file_measured [of d k s e] by simp
  then show ?thesis using Op_seal sp seal_bytes [OF assms(1), of d k s e etag tot w at q] by auto
next
  case (Op_adopt k sp at)
  then show ?thesis using adopt_bytes [OF assms(1)] by (cases sp) simp
next
  case (Op_adopt_all at)
  then show ?thesis using adopt_all_bytes [of dec d at lg q] by auto
next
  case (Op_forget k n)
  then show ?thesis by (auto simp: forget_def row_of_def)
next
  case (Op_re_adopt k n now)
  then show ?thesis using re_adopt_bytes [of d k n now lg q] assms(2) by simp
next
  case (Op_drop_row_if_empty k)
  then show ?thesis by (auto simp: drop_row_if_empty_def split: option.splits)
next
  case (Op_set_version k etag tot)
  then show ?thesis by (auto simp: set_version_def)
next
  case (Op_touch k at)
  then show ?thesis by (auto simp: ledger_touch_def split: option.splits) (auto simp: row_of_def)
next
  case (Op_served k s e)
  then show ?thesis by (simp add: served_bytes)
next
  case (Op_decayed_coverage k at w)
  have "row_bytes (snd (decay_and_covered at w c)) \<subseteq> row_bytes c" for c by (rule decay_spec)
  then show ?thesis using Op_decayed_coverage
    by (cases "map_of (lg_map lg) k") (auto simp: decayed_coverage_def case_prod_unfold Let_def row_of_def put_row_def)
qed

subsection \<open>Properties\<close>

text \<open>
  C15: recording a span keeps a row's intervals non-empty, in order and disjoint and at most
  4096; the row then claims exactly the old bytes and the new span, and when the ceiling
  forces spans out it claims less, never a byte that was not recorded.
\<close>

theorem add_interval_exact:
  assumes "wf_row c"
  shows "wf_row (add_interval start en now c)
    \<and> row_bytes (add_interval start en now c) \<subseteq> row_bytes c \<union> {start..<en}
    \<and> (length (c_intervals c) < MAX_INTERVALS_PER_KEY \<longrightarrow>
        row_bytes (add_interval start en now c) = row_bytes c \<union> {start..<en})"
  using add_interval_spec [OF assms] by blast

theorem add_interval_exact_witness:
  "wf_row (add_interval 3 7 9 (coverage_default\<lparr>c_intervals := [(0, 4, 1, 2), (6, 8, 1, 3)]\<rparr>))
    \<and> row_bytes (add_interval 3 7 9 (coverage_default\<lparr>c_intervals := [(0, 4, 1, 2), (6, 8, 1, 3)]\<rparr>))
      = row_bytes (coverage_default\<lparr>c_intervals := [(0, 4, 1, 2), (6, 8, 1, 3)]\<rparr>) \<union> {3..<7}"
  using add_interval_exact [of "coverage_default\<lparr>c_intervals := [(0, 4, 1, 2), (6, 8, 1, 3)]\<rparr>" 3 7 9]
  by (simp add: wf_row_def wf_ivs_Cons MAX_INTERVALS_PER_KEY_def)

text \<open>
  The one-pass walk over a key's segment files answers whether the span is covered by
  their union, exactly.
\<close>

lemma disk_covers_iff:
  assumes "start < en"
  shows "disk_covers d key start en \<longleftrightarrow> {start..<en} \<subseteq> (\<Union>(s, e, _)\<in>set (segments_for_key d key). {s..<e})"
  using sl.covers_iff [OF assms] by (simp add: disk_covers_def sl.listed_bytes_def)

lemma disk_covers_iff_witness:
  "disk_covers [(seg_path ''k'' 0 4, \<lparr>f_data = [1, 2], f_mtime = None\<rparr>)] ''k'' 0 4 \<longleftrightarrow> {0..<4} \<subseteq> (\<Union>(s, e, _)\<in>set (segments_for_key [(seg_path ''k'' 0 4, \<lparr>f_data = [1, 2], f_mtime = None\<rparr>)] ''k''). {s..<e})"
  by (rule disk_covers_iff) simp



text \<open>
  no operation makes the ledger claim a byte out of nothing: a byte a row claims after
  an operation was claimed before it, or lies inside the range a file of the key names.
\<close>

lemma ledger_claims_backed:
  assumes "wf_ledger lg" and "sound_op (d, op)"
  shows "row_bytes (row_of (ledger_step decode lg (d, op)) key) \<subseteq> row_bytes (row_of lg key) \<union> disk_bytes d key"
  by (rule ledger_step_bytes [OF assms])

lemma ledger_claims_backed_witness:
  "row_bytes (row_of (ledger_step (\<lambda>_. None) ledger_new ([], Op_adopt ''k'' (0, 5) 9)) ''k'')
    \<subseteq> row_bytes (row_of ledger_new ''k'') \<union> disk_bytes [] ''k''"
  by (rule ledger_claims_backed) simp_all

text \<open>
  Sealing measures. It succeeds exactly when the span's file is there and not empty, then
  adds the file's real length to the account and claims no more than the file holds; when it
  refuses, nothing changes.
\<close>

lemma seal_measured:
  assumes "wf_ledger lg" and "s < e" and "e \<le> U64_MAX"
  shows "case ledger_seal d key (s, e) etag tot window at lg of (ok, lg') \<Rightarrow>
      (ok \<longleftrightarrow> file_exists d (seg_path key s e) \<and> 0 < file_len d (seg_path key s e))
    \<and> (if ok then lg_total_staged lg' = sat_add (lg_total_staged lg) (file_len d (seg_path key s e))
                \<and> row_bytes (row_of lg' key) \<subseteq> row_bytes (row_of lg key) \<union> {s..<s + file_len d (seg_path key s e)}
       else lg' = lg)"
proof -
  let ?l = "file_len d (seg_path key s e)"
  obtain ok lg' where seal: "ledger_seal d key (s, e) etag tot window at lg = (ok, lg')" by fastforce
  have "ok \<longleftrightarrow> file_exists d (seg_path key s e) \<and> 0 < ?l"
    using seal assms(2,3) by (auto simp: ledger_seal_def Let_def sat_add_def split: if_splits)
  moreover have "if ok then lg_total_staged lg' = sat_add (lg_total_staged lg) ?l else lg' = lg"
    using seal by (auto simp: ledger_seal_def Let_def split: if_splits)
  moreover {
    have "{s..<min e (sat_add s ?l)} \<subseteq> {s..<s + ?l}" by (auto simp: sat_add_def)
  moreover have "row_bytes (row_of lg' key) \<subseteq> row_bytes (row_of lg key) \<union> {s..<min e (sat_add s ?l)}"
    using seal_bytes [OF assms(1), of d key s e etag tot window at key] seal
    by (cases "file_exists d (seg_path key s e)") auto
    ultimately have "row_bytes (row_of lg' key) \<subseteq> row_bytes (row_of lg key) \<union> {s..<s + ?l}" by blast
  }
  ultimately show ?thesis using seal by simp
qed

lemma seal_measured_witness:
  "case ledger_seal [(seg_path ''k'' 0 4, \<lparr>f_data = [1, 2], f_mtime = None\<rparr>)] ''k'' (0, 4) None 9 0 5 ledger_new of (ok, lg') \<Rightarrow>
      (ok \<longleftrightarrow> file_exists [(seg_path ''k'' 0 4, \<lparr>f_data = [1, 2], f_mtime = None\<rparr>)] (seg_path ''k'' 0 4)
          \<and> 0 < file_len [(seg_path ''k'' 0 4, \<lparr>f_data = [1, 2], f_mtime = None\<rparr>)] (seg_path ''k'' 0 4))
    \<and> (if ok then lg_total_staged lg' = sat_add (lg_total_staged ledger_new)
                  (file_len [(seg_path ''k'' 0 4, \<lparr>f_data = [1, 2], f_mtime = None\<rparr>)] (seg_path ''k'' 0 4))
                \<and> row_bytes (row_of lg' ''k'') \<subseteq> row_bytes (row_of ledger_new ''k'')
                    \<union> {0..<0 + file_len [(seg_path ''k'' 0 4, \<lparr>f_data = [1, 2], f_mtime = None\<rparr>)] (seg_path ''k'' 0 4)}
       else lg' = ledger_new)"
  by (rule seal_measured) (simp_all add: U64_MAX_def)

text \<open>
  The startup rebuild is the disk. The account is the sum of the lengths of the segment
  files, and each row claims exactly the bytes that the files bearing its key hold.
\<close>

lemma adopt_all_exact:
  assumes "length (segment_names d) \<le> MAX_INTERVALS_PER_KEY"
    and "(\<Sum>p\<leftarrow>segment_names d. file_len d p) \<le> U64_MAX"
  shows "lg_total_staged (fst (adopt_all decode d at lg)) = (\<Sum>p\<leftarrow>segment_names d. file_len d p)
    \<and> row_bytes (row_of (fst (adopt_all decode d at lg)) key) =
      {b. \<exists>p s e. p \<in> set (segment_names d) \<and> parse_seg_name p = Some (key, s, e)
            \<and> s \<le> b \<and> b < min e (sat_add s (file_len d p))}"
proof -
  obtain fs d' where scan: "scan_segment_files decode d = (fs, d')" by fastforce
  note S = scan_segment_files_exact [OF scan]
  have wf: "wf_ledger (lg\<lparr>lg_map := []\<rparr>)" by (simp add: wf_ledger_def)
  have empty: "row_of (lg\<lparr>lg_map := []\<rparr>) key = coverage_default" by (simp add: row_of_def)
  have "length (c_intervals coverage_default) + length fs \<le> MAX_INTERVALS_PER_KEY"
    using S(1) assms(1) by (simp add: coverage_default_def)
  from adopt_rows [OF wf, of key, unfolded empty, OF this, of at] S(3) [of key]
  have "row_bytes (row_of (fst (adopt_all decode d at lg)) key) =
      {b. \<exists>p s e. p \<in> set (segment_names d) \<and> parse_seg_name p = Some (key, s, e)
            \<and> s \<le> b \<and> b < min e (sat_add s (file_len d p))}"
    by (simp add: adopt_all_def scan)
  moreover have "lg_total_staged (fst (adopt_all decode d at lg)) = (\<Sum>p\<leftarrow>segment_names d. file_len d p)"
    using account_sum(2) [of 0 fs] S(2) assms(2) by (simp add: adopt_all_def scan)
  ultimately show ?thesis by blast
qed

lemma adopt_all_exact_witness:
  "lg_total_staged (fst (adopt_all (\<lambda>_. None) [(seg_path ''k'' 0 4, \<lparr>f_data = [1, 2], f_mtime = None\<rparr>)] 5 ledger_new)) = (\<Sum>p\<leftarrow>segment_names [(seg_path ''k'' 0 4, \<lparr>f_data = [1, 2], f_mtime = None\<rparr>)]. file_len [(seg_path ''k'' 0 4, \<lparr>f_data = [1, 2], f_mtime = None\<rparr>)] p)
    \<and> row_bytes (row_of (fst (adopt_all (\<lambda>_. None) [(seg_path ''k'' 0 4, \<lparr>f_data = [1, 2], f_mtime = None\<rparr>)] 5 ledger_new)) ''k'') =
      {b. \<exists>p s e. p \<in> set (segment_names [(seg_path ''k'' 0 4, \<lparr>f_data = [1, 2], f_mtime = None\<rparr>)]) \<and> parse_seg_name p = Some (''k'', s, e)
            \<and> s \<le> b \<and> b < min e (sat_add s (file_len [(seg_path ''k'' 0 4, \<lparr>f_data = [1, 2], f_mtime = None\<rparr>)] p))}"
  by (rule adopt_all_exact) (simp_all add: segment_names_def top_level_files_def MAX_INTERVALS_PER_KEY_def file_len_def U64_MAX_def)

end
