(* ===== verification/Signing.thy ===== *)
theory Signing
  imports Prelude
begin

text \<open>
  The signing contract, \<^verbatim>\<open>src/signing.rs\<close>: the query parameters a signed read is built from,
  the caps a deployment enforces and their boot validation, and the taxonomy of refusals with
  its spellings and statuses.
\<close>

definition ALGORITHM :: string where "ALGORITHM = ''X-Amz-Algorithm''"
definition CREDENTIAL :: string where "CREDENTIAL = ''X-Amz-Credential''"
definition DATE :: string where "DATE = ''X-Amz-Date''"
definition EXPIRES :: string where "EXPIRES = ''X-Amz-Expires''"
definition SIGNED_HEADERS :: string where "SIGNED_HEADERS = ''X-Amz-SignedHeaders''"
definition SIGNATURE :: string where "SIGNATURE = ''X-Amz-Signature''"
definition SESSION :: string where "SESSION = ''session''"

definition PROTOCOL_MAX_EXPIRES_SECS :: u64 where
  "PROTOCOL_MAX_EXPIRES_SECS = 604800"

definition SESSION_MAX_LEN :: nat where
  "SESSION_MAX_LEN = 128"

definition DEFAULT_MAX_EXPIRY_SECS :: u64 where
  "DEFAULT_MAX_EXPIRY_SECS = 21600"

definition DEFAULT_SESSION_RPS :: nat where
  "DEFAULT_SESSION_RPS = 30"

definition DEFAULT_SESSION_MIB_PER_MIN :: u64 where
  "DEFAULT_SESSION_MIB_PER_MIN = 1024"

record caps =
  max_expiry_secs :: u64
  session_rps :: nat
  session_mib_per_min :: u64

definition caps_default :: caps where
  "caps_default =
     \<lparr>max_expiry_secs = DEFAULT_MAX_EXPIRY_SECS, session_rps = DEFAULT_SESSION_RPS,
      session_mib_per_min = DEFAULT_SESSION_MIB_PER_MIN\<rparr>"

datatype caps_error = Expiry_zero | Expiry_over_protocol | Rps_zero | Mib_zero

definition caps_validate :: "caps \<Rightarrow> caps_error option" where
  "caps_validate c =
     (if max_expiry_secs c = 0 then Some Expiry_zero
      else if max_expiry_secs c > PROTOCOL_MAX_EXPIRES_SECS then Some Expiry_over_protocol
      else if session_rps c = 0 then Some Rps_zero
      else if session_mib_per_min c = 0 then Some Mib_zero
      else None)"

datatype reason =
    MissingSignature | MissingCredential | MalformedCredential | MissingSignedHeaders
  | MalformedSignedHeaders | EmptySignedHeaders | SignedHeaderAbsent | HostNotSigned
  | MalformedSignature | UnsupportedAuthScheme | MalformedAuthorizationHeader
  | UnsupportedAlgorithm | MissingAlgorithm | UnsupportedService | StreamingPayload
  | MissingExpires | UnknownAccessKey | SignatureMismatch | ExpiresCapExceeded
  | RequestExpired | RequestTimeSkewed | RequestDateInFuture | MissingRequestDate
  | MalformedRequestDate | InvalidRequestDate | CredentialScopeDateMismatch
  | MalformedRequest | ExpiresTooLong | MissingSession | MalformedSession
  | OutsideKeyPrefix | SessionRateExceeded | SessionBytesExceeded

fun as_str :: "reason \<Rightarrow> string" where
  "as_str MissingSignature = ''missing signature''"
| "as_str MissingCredential = ''missing credential''"
| "as_str MalformedCredential = ''malformed credential''"
| "as_str MissingSignedHeaders = ''missing signed headers''"
| "as_str MalformedSignedHeaders = ''malformed signed headers''"
| "as_str EmptySignedHeaders = ''empty SignedHeaders''"
| "as_str SignedHeaderAbsent = ''signed header missing from request''"
| "as_str HostNotSigned = ''host header is not signed''"
| "as_str MalformedSignature = ''malformed signature''"
| "as_str UnsupportedAuthScheme = ''unsupported auth scheme''"
| "as_str MalformedAuthorizationHeader = ''malformed authorization header''"
| "as_str UnsupportedAlgorithm = ''unsupported X-Amz-Algorithm''"
| "as_str MissingAlgorithm = ''missing X-Amz-Algorithm''"
| "as_str UnsupportedService = ''unsupported service in credential scope''"
| "as_str StreamingPayload = ''streaming payloads are not supported''"
| "as_str MissingExpires = ''missing X-Amz-Expires''"
| "as_str UnknownAccessKey = ''unknown access key''"
| "as_str SignatureMismatch = ''signature does not match''"
| "as_str ExpiresCapExceeded = ''X-Amz-Expires exceeds the maximum''"
| "as_str RequestExpired = ''request has expired''"
| "as_str RequestTimeSkewed = ''request time too skewed''"
| "as_str RequestDateInFuture = ''request date is later than server time too much''"
| "as_str MissingRequestDate = ''missing request date''"
| "as_str MalformedRequestDate = ''malformed request date''"
| "as_str InvalidRequestDate = ''invalid request date''"
| "as_str CredentialScopeDateMismatch = ''credential scope date does not match the request date''"
| "as_str MalformedRequest = ''malformed request''"
| "as_str ExpiresTooLong = ''expires too long''"
| "as_str MissingSession = ''missing session''"
| "as_str MalformedSession = ''malformed session''"
| "as_str OutsideKeyPrefix = ''outside key prefix''"
| "as_str SessionRateExceeded = ''session rate exceeded''"
| "as_str SessionBytesExceeded = ''session bytes exceeded''"

fun reason_status :: "reason \<Rightarrow> nat" where
  "reason_status SessionRateExceeded = 503"
| "reason_status SessionBytesExceeded = 503"
| "reason_status _ = 403"

fun documented :: "reason \<Rightarrow> bool" where
  "documented MissingSignature = True"
| "documented SignatureMismatch = True"
| "documented UnknownAccessKey = True"
| "documented RequestExpired = True"
| "documented ExpiresTooLong = True"
| "documented MissingSession = True"
| "documented MalformedSession = True"
| "documented OutsideKeyPrefix = True"
| "documented HostNotSigned = True"
| "documented SessionRateExceeded = True"
| "documented SessionBytesExceeded = True"
| "documented _ = False"

definition ALL_reasons :: "reason list" where
  "ALL_reasons =
     [MissingSignature, MissingCredential, MalformedCredential, MissingSignedHeaders,
      MalformedSignedHeaders, EmptySignedHeaders, SignedHeaderAbsent, HostNotSigned,
      MalformedSignature, UnsupportedAuthScheme, MalformedAuthorizationHeader,
      UnsupportedAlgorithm, MissingAlgorithm, UnsupportedService, StreamingPayload,
      MissingExpires, UnknownAccessKey, SignatureMismatch, ExpiresCapExceeded,
      RequestExpired, RequestTimeSkewed, RequestDateInFuture, MissingRequestDate,
      MalformedRequestDate, InvalidRequestDate, CredentialScopeDateMismatch,
      MalformedRequest, ExpiresTooLong, MissingSession, MalformedSession,
      OutsideKeyPrefix, SessionRateExceeded, SessionBytesExceeded]"

subsection \<open>Lemmas\<close>

lemma ALL_complete: "r \<in> set ALL_reasons"
  by (cases r) (simp_all add: ALL_reasons_def)

lemma ALL_spellings: "distinct (map as_str ALL_reasons)"
  by (simp add: ALL_reasons_def)

lemma as_str_inj: "as_str a = as_str b \<Longrightarrow> a = b"
  using ALL_spellings ALL_complete [of a] ALL_complete [of b]
  by (auto simp: distinct_map inj_on_def)

lemma caps_validate_None:
  "caps_validate c = None \<longleftrightarrow>
     0 < max_expiry_secs c \<and> max_expiry_secs c \<le> PROTOCOL_MAX_EXPIRES_SECS
     \<and> 0 < session_rps c \<and> 0 < session_mib_per_min c"
  by (auto simp: caps_validate_def)

end
