(* ===== verification/Config.thy ===== *)
theory Config
  imports Keys Signing
begin

text \<open>
  The runtime configuration, \<^verbatim>\<open>src/config.rs\<close>: its data, the per-upstream fill profile, and
  the boot validation. TOML parsing and the default of each key belong to serde; the model
  starts from the raw record. Listener addresses, TLS material, IP lists and environment
  names are passed through by the code and are not represented.
\<close>

datatype cold_miss_mode = Proxy | Redirect
datatype eviction_policy_mode = Lru | Heat

record upstream_config =
  u_id :: string
  u_backend_type :: string
  u_base_url :: string
  u_cold_miss :: cold_miss_mode
  u_cache_profile :: string
  u_link_api_token_env :: "string option"

record profile_knobs =
  cp_min_file_size :: u64
  cp_coverage_window_secs :: u64

record effective_profile =
  ep_efficient :: bool
  ep_nocache :: bool
  ep_min_file_size :: u64
  ep_coverage_window_secs :: u64

definition default_coverage_window_secs :: u64 where
  "default_coverage_window_secs = 3600"

definition profile_nocache :: effective_profile where
  "profile_nocache =
     \<lparr>ep_efficient = False, ep_nocache = True, ep_min_file_size = 0, ep_coverage_window_secs = 0\<rparr>"

definition profile_efficient :: effective_profile where
  "profile_efficient =
     \<lparr>ep_efficient = True, ep_nocache = False, ep_min_file_size = 0,
      ep_coverage_window_secs = default_coverage_window_secs\<rparr>"

record config =
  front_origin_token_header :: "string option"
  front_origin_token_env :: "string option"
  front_content_auth_max_expiry_secs :: u64
  front_content_auth_session_rps :: nat
  front_content_auth_session_mib_per_min :: u64
  front_threads :: "nat option"
  max_size_bytes :: u64
  max_entries :: nat
  inactive_ttl_secs :: u64
  revalidate_ttl_secs :: u64
  negative_ttl_secs :: u64
  eviction_policy :: eviction_policy_mode
  session_window_bytes :: u64
  window_floor_bytes :: u64
  read_grace_secs :: u64
  watch_idle_secs :: u64
  watch_pin_bytes :: u64
  concurrency_per_upstream :: nat
  retry_max_attempts :: nat
  retry_base_ms :: u64
  retry_max_ms :: u64
  upstreams :: "upstream_config list"
  routes :: "route_rule list"
  cache_profiles :: "(string \<times> profile_knobs) list"

definition config_upstream :: "config \<Rightarrow> string \<Rightarrow> upstream_config option" where
  "config_upstream c uid = find (\<lambda>u. u_id u = uid) (upstreams c)"

definition cache_profile :: "config \<Rightarrow> string \<Rightarrow> effective_profile" where
  "cache_profile c uid =
     (let name = (case config_upstream c uid of Some u \<Rightarrow> u_cache_profile u | None \<Rightarrow> ''efficient'')
      in if name = ''nocache'' then profile_nocache
         else case map_of (cache_profiles c) name of
                Some p \<Rightarrow> \<lparr>ep_efficient = True, ep_nocache = False,
                          ep_min_file_size = cp_min_file_size p,
                          ep_coverage_window_secs = cp_coverage_window_secs p\<rparr>
              | None \<Rightarrow> profile_efficient)"

definition content_caps :: "config \<Rightarrow> caps" where
  "content_caps c =
     \<lparr>max_expiry_secs = front_content_auth_max_expiry_secs c,
      session_rps = front_content_auth_session_rps c,
      session_mib_per_min = front_content_auth_session_mib_per_min c\<rparr>"

definition config_default :: config where
  "config_default =
     \<lparr>front_origin_token_header = None, front_origin_token_env = None,
      front_content_auth_max_expiry_secs = DEFAULT_MAX_EXPIRY_SECS,
      front_content_auth_session_rps = DEFAULT_SESSION_RPS,
      front_content_auth_session_mib_per_min = DEFAULT_SESSION_MIB_PER_MIN,
      front_threads = None, max_size_bytes = 107374182400, max_entries = 500000,
      inactive_ttl_secs = 1200, revalidate_ttl_secs = 60, negative_ttl_secs = 60,
      eviction_policy = Lru, session_window_bytes = 64 * 1024 * 1024,
      window_floor_bytes = 8 * 1024 * 1024, read_grace_secs = 300, watch_idle_secs = 900,
      watch_pin_bytes = 128 * 1024 * 1024, concurrency_per_upstream = 3,
      retry_max_attempts = 4, retry_base_ms = 200, retry_max_ms = 30000,
      upstreams = [\<lparr>u_id = ''primary'', u_backend_type = ''openlist'',
                    u_base_url = ''http://127.0.0.1:5244/dav'', u_cold_miss = Proxy,
                    u_cache_profile = ''efficient'', u_link_api_token_env = None\<rparr>],
      routes = route_table_new [\<lparr>rr_prefix = [], rr_upstream = ''primary''\<rparr>],
      cache_profiles = []\<rparr>"

end
