(* ===== verification/Staging.thy ===== *)
theory Staging
  imports Ledger Protection Window Config
begin

text \<open>
  Staging, \<^verbatim>\<open>src/cache/staging.rs\<close>: sealing a finished span, choosing which staged spans an
  eviction deletes, and serving a range from the segment files.

  The state is the ledger and the directory; what is protected is an argument, read as the
  pass asks for it. The JSON encoder is an argument. A response body is the list of chunks it
  yields and whether it ends in an error.
\<close>

definition STAGE_MIN_AGE_MS :: u64 where
  "STAGE_MIN_AGE_MS = 60000"

definition HEAT_TRAILING_WINDOW :: nat where
  "HEAT_TRAILING_WINDOW = 20"

record finalized_span =
  fs_key :: string
  fs_upstream_id :: string
  fs_etag :: "string option"
  fs_total :: u64
  fs_start :: u64
  fs_end :: u64
  fs_bytes :: u64
  fs_now_millis :: millis

record staging =
  st_ledger :: ledger
  st_dir :: dir

subsection \<open>Row queries\<close>

definition known_etag :: "staging \<Rightarrow> string \<Rightarrow> string option" where
  "known_etag st key = Option.bind (view (st_ledger st) key) rv_etag"

definition expired :: "u64 \<Rightarrow> millis \<Rightarrow> protection \<Rightarrow> staging \<Rightarrow> string list \<times> protection" where
  "expired ttl now p st =
     (let (sp, p') = spared now p in (expired_candidates ttl now sp (st_ledger st), p'))"

definition working_window_bytes :: "config \<Rightarrow> u64" where
  "working_window_bytes cfg = reserve_bytes (watch_pin_bytes cfg) (session_window_bytes cfg)"

definition unkeepable_keys :: "config \<Rightarrow> staging \<Rightarrow> nat" where
  "unkeepable_keys cfg st = length (unkeepable_rows (max_size_bytes cfg) (st_ledger st))"

subsection \<open>Choosing spans\<close>

definition span_policy :: "span_reads list \<Rightarrow> u64 \<times> u64 \<Rightarrow> millis \<times> u64" where
  "span_policy prior f =
     (case find (\<lambda>p. sr_start p \<le> fst f \<and> snd f \<le> sr_end p) prior of
        Some p \<Rightarrow> (sr_last_read_millis p, sr_reads p)
      | None \<Rightarrow> (0, 0))"

definition young :: "millis \<Rightarrow> millis \<times> u64 \<Rightarrow> bool" where
  "young now pol = (fst pol > 0 \<and> fst pol > now - STAGE_MIN_AGE_MS)"

definition outside_pin :: "pin option \<Rightarrow> u64 \<times> u64 \<Rightarrow> bool" where
  "outside_pin pn f =
     (case pn of Some p \<Rightarrow> snd f \<le> pin_start p \<or> fst f \<ge> pin_end p | None \<Rightarrow> True)"

text \<open>\<^verbatim>\<open>Reverse(n)\<close> sorts as the negated number.\<close>

definition pin_rank :: "pin option \<Rightarrow> u64 \<times> u64 \<Rightarrow> nat \<times> int" where
  "pin_rank pn f =
     (case pn of
        Some p \<Rightarrow> if snd f \<le> pin_anchor p then (0, - int (pin_anchor p - snd f))
                  else if fst f \<ge> pin_anchor p then (2, - int (fst f - pin_anchor p))
                  else (1, 0)
      | None \<Rightarrow> (1, 0))"

definition policy_order :: "eviction_policy_mode \<Rightarrow> (u64 \<times> u64) list \<Rightarrow> (millis \<times> u64) list \<Rightarrow> nat list" where
  "policy_order mode files pol =
     (case mode of
        Lru \<Rightarrow> sort_key (\<lambda>i. (fst (pol ! i), fst (files ! i))) [0..<length files]
      | Heat \<Rightarrow> sort_key (\<lambda>i. ((length files - 1 - i) div HEAT_TRAILING_WINDOW,
                              snd (pol ! i), fst (pol ! i), fst (files ! i))) [0..<length files])"

fun take_need :: "u64 \<Rightarrow> u64 \<Rightarrow> (u64 \<times> u64) list \<Rightarrow> (u64 \<times> u64) list" where
  "take_need need acc [] = []"
| "take_need need acc ((s, e) # fs) =
     (if acc \<ge> need then [] else (s, e) # take_need need (acc + (e - s)) fs)"

definition candidates ::
  "config \<Rightarrow> (u64 \<times> u64) list \<Rightarrow> span_reads list \<Rightarrow> pin option \<Rightarrow> bool \<Rightarrow> millis \<Rightarrow> (u64 \<times> u64) list" where
  "candidates cfg files prior pn inside_pins now =
     (let pol = map (span_policy prior) files;
          ordered = policy_order (eviction_policy cfg) files pol;
          chosen = (if inside_pins
                    then sort_key (\<lambda>i. pin_rank pn (files ! i)) (filter (\<lambda>i. \<not> young now (pol ! i)) ordered)
                    else filter (\<lambda>i. \<not> young now (pol ! i) \<and> outside_pin pn (files ! i)) ordered)
      in map (\<lambda>i. files ! i) chosen)"

definition pick_spans ::
  "config \<Rightarrow> dir \<Rightarrow> string \<Rightarrow> span_reads list \<Rightarrow> u64 \<Rightarrow> pin option \<Rightarrow> bool \<Rightarrow> u64 option \<Rightarrow> millis
     \<Rightarrow> (u64 \<times> u64) list" where
  "pick_spans cfg d key prior need pn inside_pins cap now =
     (let files = map (\<lambda>(s, e, _). (s, e)) (segments_for_key d key)
      in if files = [] then []
         else let need' = (case cap of
                             Some c \<Rightarrow> max need ((\<Sum>(s, e)\<leftarrow>files. e - s) - c)
                           | None \<Rightarrow> need)
              in take_need need' 0 (candidates cfg files prior pn inside_pins now))"

subsection \<open>Deleting spans\<close>

fun remove_spans :: "string \<Rightarrow> (u64 \<times> u64) list \<Rightarrow> dir \<Rightarrow> u64 \<times> dir" where
  "remove_spans key [] d = (0, d)"
| "remove_spans key ((s, e) # picks) d =
     (let n = file_len d (seg_path key s e);
          (freed, d') = remove_spans key picks (remove_file (seg_path key s e) d)
      in (n + freed, d'))"

definition drop_spans :: "string \<Rightarrow> (u64 \<times> u64) list \<Rightarrow> millis \<Rightarrow> staging \<Rightarrow> u64 \<times> staging" where
  "drop_spans key picks now st =
     (let (freed, d') = remove_spans key picks (st_dir st)
      in (freed, \<lparr>st_ledger = re_adopt d' key freed now (st_ledger st), st_dir = d'\<rparr>))"

definition drop_empty_row :: "string \<Rightarrow> staging \<Rightarrow> staging" where
  "drop_empty_row key st =
     (let (gone, lg) = drop_row_if_empty key (st_ledger st)
      in if gone then \<lparr>st_ledger = lg, st_dir = remove_file (segmeta_path key) (st_dir st)\<rparr>
         else st\<lparr>st_ledger := lg\<rparr>)"

definition trim_row ::
  "config \<Rightarrow> string \<Rightarrow> u64 \<Rightarrow> pin option \<Rightarrow> bool \<Rightarrow> u64 option \<Rightarrow> millis \<Rightarrow> staging \<Rightarrow> u64 \<times> staging" where
  "trim_row cfg key want pn inside_pins cap now st =
     (case view (st_ledger st) key of
        None \<Rightarrow> (0, st)
      | Some v \<Rightarrow>
          (let picks = pick_spans cfg (st_dir st) key (rv_spans v) want pn inside_pins cap now
           in if picks = [] then (0, st)
              else let (freed, st') = drop_spans key picks now st
                   in if freed = 0 then (0, st') else (freed, drop_empty_row key st')))"

text \<open>One pass of the global budget over the rows; \<open>acc\<close> is (keys touched, bytes freed).\<close>

fun budget_pass ::
  "config \<Rightarrow> protection \<Rightarrow> bool \<Rightarrow> u64 \<Rightarrow> millis \<Rightarrow> string list \<Rightarrow> (nat \<times> u64) \<times> staging \<Rightarrow> (nat \<times> u64) \<times> staging" where
  "budget_pass cfg p inside_pins need now [] acc = acc"
| "budget_pass cfg p inside_pins need now (key # ks) ((touched, freed), st) =
     (if freed \<ge> need then ((touched, freed), st)
      else let v = verdict_of p key now
           in if v_pin v = None \<and> v_leased v
              then budget_pass cfg p inside_pins need now ks ((touched, freed), st)
              else let (n, st') = trim_row cfg key (need - freed) (v_pin v) inside_pins None now st
                   in budget_pass cfg p inside_pins need now ks
                        ((if n > 0 then touched + 1 else touched, freed + n), st'))"

fun cap_pass ::
  "config \<Rightarrow> protection \<Rightarrow> millis \<Rightarrow> string list \<Rightarrow> (nat \<times> u64) \<times> staging \<Rightarrow> (nat \<times> u64) \<times> staging" where
  "cap_pass cfg p now [] acc = acc"
| "cap_pass cfg p now (key # ks) ((touched, freed), st) =
     (let v = verdict_of p key now
      in if v_leased v \<and> v_pin v = None
         then cap_pass cfg p now ks ((touched, freed), st)
         else let (n, st') = trim_row cfg key 0 (v_pin v) False (Some (working_window_bytes cfg)) now st
              in cap_pass cfg p now ks ((if n > 0 then touched + 1 else touched, freed + n), st'))"

definition evict_staged ::
  "config \<Rightarrow> protection \<Rightarrow> u64 \<Rightarrow> millis \<Rightarrow> staging \<Rightarrow> (nat \<times> u64) \<times> staging" where
  "evict_staged cfg p need now st =
     (let order = map snd (rows_by_age (max_size_bytes cfg) (st_ledger st));
          pass1 = budget_pass cfg p False need now order ((0, 0), st);
          pass2 = budget_pass cfg p True need now order pass1
      in cap_pass cfg p now (unkeepable_rows (max_size_bytes cfg) (st_ledger (snd pass2))) pass2)"

subsection \<open>Sealing and resetting\<close>

definition seal_span ::
  "config \<Rightarrow> (seg_meta \<Rightarrow> stored_file option) \<Rightarrow> finalized_span \<Rightarrow> staging \<Rightarrow> staging" where
  "seal_span cfg encode sp st =
     (let key = fs_key sp;
          window = ep_coverage_window_secs (cache_profile cfg (fs_upstream_id sp)) * 1000;
          changed = (case (known_etag st key, fs_etag sp) of
                       (Some a, Some b) \<Rightarrow> a \<noteq> b
                     | _ \<Rightarrow> False);
          st1 = (if changed
                 then let (freed, d) = remove_key_segments key (Some (seg_path key (fs_start sp) (fs_end sp))) (st_dir st)
                      in \<lparr>st_ledger = forget key freed (st_ledger st), st_dir = d\<rparr>
                 else st);
          lg = snd (ledger_seal (st_dir st1) key (fs_start sp, fs_end sp) (fs_etag sp) (fs_total sp)
                      window (fs_now_millis sp) (st_ledger st1))
      in \<lparr>st_ledger = lg,
          st_dir = (case encode \<lparr>sm_etag = fs_etag sp, sm_total = fs_total sp\<rparr> of
                      Some f \<Rightarrow> write_file (segmeta_path key) f (st_dir st1)
                    | None \<Rightarrow> st_dir st1)\<rparr>)"

definition seal_renamed ::
  "config \<Rightarrow> (seg_meta \<Rightarrow> stored_file option) \<Rightarrow> string \<Rightarrow> string \<Rightarrow> finalized_span \<Rightarrow> staging \<Rightarrow> bool \<times> staging" where
  "seal_renamed cfg encode segpart seg sp st =
     (case rename_file segpart seg (st_dir st) of
        Some d \<Rightarrow> (True, seal_span cfg encode sp (st\<lparr>st_dir := d\<rparr>))
      | None \<Rightarrow> (False, st\<lparr>st_dir := remove_file segpart (st_dir st)\<rparr>))"

definition reset :: "string \<Rightarrow> staging \<Rightarrow> staging" where
  "reset key st =
     (let files = key_segment_files (st_dir st) key;
          freed = (\<Sum>f\<leftarrow>files. file_len (st_dir st) f)
      in \<lparr>st_ledger = forget key freed (st_ledger st),
          st_dir = remove_file (segmeta_path key) (remove_files files (st_dir st))\<rparr>)"

definition add_read :: "string \<Rightarrow> u64 \<Rightarrow> u64 \<Rightarrow> staging \<Rightarrow> staging" where
  "add_read key s e st = st\<lparr>st_ledger := served key s e (st_ledger st)\<rparr>"

definition staging_touch :: "string \<Rightarrow> millis \<Rightarrow> staging \<Rightarrow> staging" where
  "staging_touch key now st = st\<lparr>st_ledger := ledger_touch key now (st_ledger st)\<rparr>"

subsection \<open>Serving staged bytes\<close>

record staged_plan =
  sp_pieces :: "(string \<times> u64 \<times> u64) list"
  sp_frontier :: u64

fun plan_pieces :: "(u64 \<times> u64 \<times> string) list \<Rightarrow> u64 \<Rightarrow> u64 \<Rightarrow> (string \<times> u64 \<times> u64) list \<times> u64" where
  "plan_pieces [] cursor en = ([], cursor)"
| "plan_pieces ((s, e, path) # segs) cursor en =
     (if cursor \<ge> en then ([], cursor)
      else if e \<le> cursor then plan_pieces segs cursor en
      else if s > cursor then ([], cursor)
      else let piece_end = min e en;
               (ps, fr) = plan_pieces segs piece_end en
           in ((path, cursor - s, piece_end - cursor) # ps, fr))"

definition plan_staged :: "(u64 \<times> u64 \<times> string) list \<Rightarrow> u64 \<Rightarrow> u64 \<Rightarrow> staged_plan" where
  "plan_staged segs start en =
     (let (ps, fr) = plan_pieces segs start en in \<lparr>sp_pieces = ps, sp_frontier = fr\<rparr>)"

type_synonym body = "byte list list \<times> bool"

text \<open>The read loop over one open file, from its offset: chunks of at most 256 KiB.\<close>

function read_piece :: "byte list \<Rightarrow> nat \<Rightarrow> body" where
  "read_piece data remaining =
     (if remaining = 0 then ([], False)
      else let want = min (256 * 1024) remaining;
               buf = take want data
           in if buf = [] then ([], True)
              else let (cs, err) = read_piece (drop want data) (remaining - length buf)
                   in (buf # cs, err))"
  by pat_completeness auto
termination
  by (relation "measure snd") auto

declare read_piece.simps [simp del]

fun pieces_then :: "dir \<Rightarrow> (string \<times> u64 \<times> u64) list \<Rightarrow> body \<Rightarrow> body" where
  "pieces_then d [] tail = tail"
| "pieces_then d ((path, off, len) # pieces) tail =
     (case map_of d path of
        None \<Rightarrow> ([], True)
      | Some f \<Rightarrow>
          (let (cs, err) = read_piece (drop off (f_data f)) len
           in if err then (cs, True)
              else let (cs', err') = pieces_then d pieces tail in (cs @ cs', err')))"

definition staged_body :: "dir \<Rightarrow> (string \<times> u64 \<times> u64) list \<Rightarrow> body" where
  "staged_body d pieces = pieces_then d pieces ([], False)"

subsection \<open>Lemmas: serving\<close>

lemma read_piece_spec:
  "read_piece data remaining = (cs, err) \<Longrightarrow> concat cs = take remaining data \<and> (err \<longleftrightarrow> length data < remaining)"
proof (induction data remaining arbitrary: cs err rule: read_piece.induct)
  case (1 data remaining)
  let ?w = "min (256 * 1024) remaining"
  consider "remaining = 0" | "remaining \<noteq> 0" "data = []" | "remaining \<noteq> 0" "data \<noteq> []" by blast
  then show ?case
  proof cases
    case 1
    then show ?thesis using "1.prems" by (auto simp: read_piece.simps [of data 0])
  next
    case 2
    then show ?thesis using "1.prems" by (auto simp: read_piece.simps [of "[]" remaining])
  next
    case 3
    then have False: "\<not> (remaining = 0 \<or> take ?w data = [])" by simp
    let ?buf = "take ?w data"
    obtain cs' err' where rec: "read_piece (drop ?w data) (remaining - length ?buf) = (cs', err')" by fastforce
    have IH: "concat cs' = take (remaining - length ?buf) (drop ?w data)"
      "err' \<longleftrightarrow> length (drop ?w data) < remaining - length ?buf"
      using "1.IH" [OF _ refl refl _ rec] False by auto
    have step: "read_piece data remaining =
        (case read_piece (drop ?w data) (remaining - length ?buf) of (cs, err) \<Rightarrow> (?buf # cs, err))"
      by (subst read_piece.simps) (use False in \<open>simp only: Let_def de_Morgan_disj if_False\<close>)
    have res: "cs = ?buf # cs'" "err = err'"
      using "1.prems" step rec by simp_all
    show ?thesis
    proof (cases "length data < ?w")
      case True
      then show ?thesis using IH res by auto
    next
      case False
      then have len: "length ?buf = ?w" by (simp only: length_take min_absorb2 not_less)
      have "take remaining data = ?buf @ take (remaining - ?w) (drop ?w data)"
        by (metis append_take_drop_id le_add_diff_inverse min.cobounded2 take_add)
      then show ?thesis using IH res len False by auto
    qed
  qed
qed

lemma pieces_then_concat:
  "pieces_then d pieces tail = (cs, False) \<Longrightarrow>
     concat cs = concat (map (\<lambda>(p, off, len). take len (drop off (f_data (the (map_of d p))))) pieces)
                 @ concat (fst tail)"
proof (induction pieces arbitrary: cs)
  case Nil
  then show ?case by (cases tail) simp
next
  case (Cons pc pieces)
  obtain p off len where pc: "pc = (p, off, len)" by (cases pc)
  obtain f where f: "map_of d p = Some f" using Cons.prems pc by (auto split: option.splits)
  obtain c1 e1 where r: "read_piece (drop off (f_data f)) len = (c1, e1)" by fastforce
  obtain c2 e2 where t: "pieces_then d pieces tail = (c2, e2)" by fastforce
  have "\<not> e1" "\<not> e2" "cs = c1 @ c2" using Cons.prems pc f r t by (auto split: if_splits)
  then show ?case using Cons.IH [of c2] read_piece_spec [OF r] t pc f by simp
qed

text \<open>A short or missing segment file ends the body in an error; nothing else does.\<close>

lemma pieces_then_error:
  "snd (pieces_then d pieces tail) \<longleftrightarrow>
     (\<exists>(p, off, len)\<in>set pieces. case map_of d p of None \<Rightarrow> True | Some f \<Rightarrow> length (f_data f) - off < len)
     \<or> snd tail"
proof (induction pieces)
  case (Cons pc pieces)
  obtain p off len where pc: "pc = (p, off, len)" by (cases pc)
  show ?case
  proof (cases "map_of d p")
    case (Some f)
    obtain c1 e1 where r: "read_piece (drop off (f_data f)) len = (c1, e1)" by fastforce
    show ?thesis using Cons.IH read_piece_spec [OF r] r pc Some
      by (simp add: case_prod_unfold Let_def)
  qed (simp add: pc)
qed simp

lemma plan_pieces_mono: "plan_pieces xs cursor en = (ps, fr) \<Longrightarrow> cursor \<le> fr"
proof (induction xs cursor en arbitrary: ps rule: plan_pieces.induct)
  case (2 s e path segs cursor en)
  then show ?case by (fastforce simp: Let_def split: if_splits prod.splits)
qed simp

context segment_listing
begin

text \<open>
  The plan over a listing in start order: the pieces tile the range up to the frontier, and the
  frontier is the end of the range or a byte no listed segment holds.
\<close>

lemma plan_pieces_spec:
  assumes "sorted (map fst xs)" and "cursor \<le> en" and "plan_pieces xs cursor en = (ps, fr)"
  shows "cursor \<le> fr \<and> fr \<le> en
    \<and> (fr < en \<longrightarrow> fr \<notin> (\<Union>(s, e, _)\<in>set xs. {s..<e}))
    \<and> (\<Sum>(_, _, len)\<leftarrow>ps. len) = fr - cursor"
  using assms
proof (induction xs cursor en arbitrary: ps rule: plan_pieces.induct)
  case (2 s e path segs cursor en)
  have sorted: "sorted (map fst segs)" "\<forall>x\<in>set segs. s \<le> fst x" using "2.prems"(1) by auto
  consider "cursor \<ge> en" | "cursor < en" "e \<le> cursor" | "cursor < en" "cursor < e" "s > cursor"
    | "cursor < en" "cursor < e" "s \<le> cursor" by linarith
  then show ?case
  proof cases
    case 1
    then show ?thesis using "2.prems" by auto
  next
    case 2
    then have IH: "cursor \<le> fr \<and> fr \<le> en \<and> (fr < en \<longrightarrow> fr \<notin> (\<Union>(s, e, _)\<in>set segs. {s..<e}))
        \<and> (\<Sum>(_, _, len)\<leftarrow>ps. len) = fr - cursor"
      using "2.IH"(1) [of ps] "2.prems" sorted by simp
    moreover from this 2 have "fr \<notin> {s..<e}" by auto
    ultimately show ?thesis by auto
  next
    case 3
    then have "cursor \<notin> (\<Union>(s, e, _)\<in>set segs. {s..<e})" using sorted(2) by force
    then show ?thesis using 3 "2.prems" by auto
  next
    case 4
    obtain ps' fr' where rec: "plan_pieces segs (min e en) en = (ps', fr')" by fastforce
    have res: "ps = (path, cursor - s, min e en - cursor) # ps'" "fr = fr'"
      using "2.prems"(3) 4 rec by (auto simp: Let_def)
    have IH: "min e en \<le> fr \<and> fr \<le> en \<and> (fr < en \<longrightarrow> fr \<notin> (\<Union>(s, e, _)\<in>set segs. {s..<e}))
        \<and> (\<Sum>(_, _, len)\<leftarrow>ps'. len) = fr - min e en"
      using "2.IH"(2) [OF _ _ _ refl sorted(1)] rec res 4 by auto
    then have "fr < en \<Longrightarrow> fr \<notin> {s..<e}" by auto
    then show ?thesis using IH res 4 by auto
  qed
qed auto

text \<open>When every listed file holds its range of an object, the plan's pieces are the object's bytes.\<close>

lemma plan_pieces_bytes:
  assumes "plan_pieces xs cursor en = (ps, fr)" and "cursor \<le> en"
    and "\<forall>(s, e, p)\<in>set xs. \<exists>f. map_of d p = Some f \<and> f_data f = map obj [s..<e]"
  shows "concat (map (\<lambda>(p, off, len). take len (drop off (f_data (the (map_of d p))))) ps) = map obj [cursor..<fr]
    \<and> (\<forall>(p, off, len)\<in>set ps. \<exists>f. map_of d p = Some f \<and> off + len \<le> length (f_data f))"
  using assms
proof (induction xs cursor en arbitrary: ps rule: plan_pieces.induct)
  case (2 s e path segs cursor en)
  have files: "\<forall>(s, e, p)\<in>set segs. \<exists>f. map_of d p = Some f \<and> f_data f = map obj [s..<e]"
    using "2.prems"(3) by simp
  consider "cursor \<ge> en \<or> (cursor < e \<and> s > cursor)" | "cursor < en" "e \<le> cursor"
    | "cursor < en" "cursor < e" "s \<le> cursor" by linarith
  then show ?case
  proof cases
    case 1
    then have "ps = []" "fr = cursor" using "2.prems"(1) by (auto split: if_splits)
    then show ?thesis by simp
  next
    case 2
    then show ?thesis using "2.IH"(1) [of ps] "2.prems"(1,2) files by simp
  next
    case 3
    obtain ps' fr' where rec: "plan_pieces segs (min e en) en = (ps', fr')" by fastforce
    have res: "ps = (path, cursor - s, min e en - cursor) # ps'" "fr = fr'"
      using "2.prems"(1) 3 rec by (auto simp: Let_def)
    obtain f where f: "map_of d path = Some f" "f_data f = map obj [s..<e]" using "2.prems"(3) by auto
    have IH: "concat (map (\<lambda>(p, off, len). take len (drop off (f_data (the (map_of d p))))) ps') = map obj [min e en..<fr]"
      "\<forall>(p, off, len)\<in>set ps'. \<exists>f. map_of d p = Some f \<and> off + len \<le> length (f_data f)"
      using "2.IH"(2) [OF _ _ _ refl] rec res 3 files by auto
    have "take (min e en - cursor) (drop (cursor - s) (f_data f)) = map obj [cursor..<min e en]"
      using 3 f by (simp add: drop_map take_map)
    moreover have "min e en \<le> fr" using rec res plan_pieces_mono [OF rec] 3 by simp
    then have "[cursor..<fr] = [cursor..<min e en] @ [min e en..<fr]"
      using 3 upt_add_eq_append [of cursor "min e en" "fr - min e en"] by simp
    ultimately show ?thesis using IH res f 3 by simp
  qed
qed auto

end

subsection \<open>Lemmas: what an eviction may delete\<close>

lemma parse_digits_lt: "parse_digits acc s = Some n \<Longrightarrow> acc < 2 ^ 64 \<Longrightarrow> n < 2 ^ 64"
  by (induction s arbitrary: acc) (auto simp: Let_def split: option.splits if_splits)

lemma parse_u64_lt: "parse_u64 s = Some n \<Longrightarrow> n < 2 ^ 64"
  by (auto simp: parse_u64_def Let_def split: if_splits dest: parse_digits_lt)

lemma parse_seg_name_lt: "parse_seg_name p = Some (k, s, e) \<Longrightarrow> s < 2 ^ 64 \<and> e < 2 ^ 64"
  by (auto simp: parse_seg_name_def bind_eq_Some_conv dest: parse_u64_lt)

lemma segments_for_key_lt: "(s, e, p) \<in> set (segments_for_key d k) \<Longrightarrow> s < 2 ^ 64 \<and> e < 2 ^ 64"
  by (auto simp: segments_for_key_mem dest: parse_seg_name_lt)

lemma policy_order_set: "set (policy_order mode files pol) = {0..<length files}"
  by (cases mode) (simp_all add: policy_order_def)

lemma candidates_spec:
  assumes "f \<in> set (candidates cfg files prior pn inside_pins now)"
  shows "f \<in> set files \<and> \<not> young now (span_policy prior f) \<and> (\<not> inside_pins \<longrightarrow> outside_pin pn f)"
  using assms policy_order_set [of "eviction_policy cfg" files "map (span_policy prior) files"]
  by (auto simp: candidates_def Let_def split: if_splits)

lemma candidates_complete:
  assumes "f \<in> set files" and "\<not> young now (span_policy prior f)" and "inside_pins \<or> outside_pin pn f"
  shows "f \<in> set (candidates cfg files prior pn inside_pins now)"
proof -
  obtain i where i: "i < length files" "f = files ! i" using assms(1) by (auto simp: in_set_conv_nth)
  then have "i \<in> set (policy_order (eviction_policy cfg) files (map (span_policy prior) files))"
    by (simp add: policy_order_set)
  then show ?thesis using assms(2,3) i by (auto simp: candidates_def Let_def)
qed

lemma take_need_prefix: "\<exists>rest. fs = take_need need acc fs @ rest"
  by (induction need acc fs rule: take_need.induct) auto

lemma take_need_enough:
  "need \<le> acc + (\<Sum>(s, e)\<leftarrow>take_need need acc fs. e - s) \<or> take_need need acc fs = fs"
  by (induction need acc fs rule: take_need.induct) (auto simp: add.assoc)

lemma take_need_minimal:
  "take_need need acc fs = xs @ [y] \<Longrightarrow> acc + (\<Sum>(s, e)\<leftarrow>xs. e - s) < need"
proof (induction need acc fs arbitrary: xs rule: take_need.induct)
  case (2 need acc s e fs)
  then show ?case by (cases xs) (auto simp: add.assoc split: if_splits)
qed simp

lemma pick_spans_mem:
  assumes "f \<in> set (pick_spans cfg d key prior need pn inside_pins cap now)"
  shows "(\<exists>p. (fst f, snd f, p) \<in> set (segments_for_key d key)) \<and> \<not> young now (span_policy prior f)
    \<and> (\<not> inside_pins \<longrightarrow> outside_pin pn f)"
proof -
  let ?files = "map (\<lambda>(s, e, _). (s, e)) (segments_for_key d key)"
  obtain n where "f \<in> set (take_need n 0 (candidates cfg ?files prior pn inside_pins now))"
    using assms by (auto simp: pick_spans_def Let_def split: if_splits)
  moreover obtain rest where "candidates cfg ?files prior pn inside_pins now
      = take_need n 0 (candidates cfg ?files prior pn inside_pins now) @ rest"
    using take_need_prefix by blast
  ultimately have "f \<in> set (candidates cfg ?files prior pn inside_pins now)"
    by (metis UnCI set_append)
  from candidates_spec [OF this] show ?thesis by force
qed

definition shrinks :: "(string \<Rightarrow> bool) \<Rightarrow> dir \<Rightarrow> dir \<Rightarrow> bool" where
  "shrinks P d d' = (\<forall>p. map_of d' p = map_of d p \<or> map_of d' p = None \<and> P p)"

lemma shrinks_refl [simp]: "shrinks P d d"
  by (simp add: shrinks_def)

lemma shrinks_trans: "shrinks P d d' \<Longrightarrow> shrinks P d' d'' \<Longrightarrow> shrinks P d d''"
  unfolding shrinks_def by metis

lemma shrinks_mono: "shrinks P d d' \<Longrightarrow> (\<And>p. P p \<Longrightarrow> Q p) \<Longrightarrow> shrinks Q d d'"
  by (auto simp: shrinks_def)

lemma shrinks_remove: "P p \<Longrightarrow> shrinks P d (remove_file p d)"
  by (simp add: shrinks_def)

lemma remove_spans_shrinks:
  "\<forall>f\<in>set picks. P (seg_path key (fst f) (snd f)) \<Longrightarrow> shrinks P d (snd (remove_spans key picks d))"
proof (induction key picks d rule: remove_spans.induct)
  case (2 key s e picks d)
  then show ?case
    by (auto simp: case_prod_unfold Let_def intro: shrinks_trans [OF shrinks_remove])
qed simp

lemma drop_spans_shrinks:
  "\<forall>f\<in>set picks. P (seg_path key (fst f) (snd f)) \<Longrightarrow> shrinks P (st_dir st) (st_dir (snd (drop_spans key picks now st)))"
  using remove_spans_shrinks [of picks P key "st_dir st"] by (simp add: drop_spans_def case_prod_unfold Let_def)

lemma drop_empty_row_shrinks: "P (segmeta_path key) \<Longrightarrow> shrinks P (st_dir st) (st_dir (drop_empty_row key st))"
  by (simp add: drop_empty_row_def case_prod_unfold Let_def shrinks_remove)

text \<open>What trimming one row may delete: its spans the pass allows, and its version marker.\<close>

definition trimmable :: "string \<Rightarrow> pin option \<Rightarrow> bool \<Rightarrow> string \<Rightarrow> bool" where
  "trimmable key pn inside_pins path =
     (path = segmeta_path key \<or>
      (\<exists>s e. path = seg_path key s e \<and> s < 2 ^ 64 \<and> e < 2 ^ 64 \<and> (\<not> inside_pins \<longrightarrow> outside_pin pn (s, e))))"

lemma trim_row_shrinks:
  "shrinks (trimmable key pn inside_pins) (st_dir st)
     (st_dir (snd (trim_row cfg key want pn inside_pins cap now st)))"
proof (cases "view (st_ledger st) key")
  case (Some v)
  define picks where "picks = pick_spans cfg (st_dir st) key (rv_spans v) want pn inside_pins cap now"
  have "\<forall>f\<in>set picks. trimmable key pn inside_pins (seg_path key (fst f) (snd f))"
  proof
    fix f assume "f \<in> set picks"
    from pick_spans_mem [OF this [unfolded picks_def]] segments_for_key_lt
    show "trimmable key pn inside_pins (seg_path key (fst f) (snd f))"
      unfolding trimmable_def by (metis prod.collapse)
  qed
  then have "shrinks (trimmable key pn inside_pins) (st_dir st) (st_dir (snd (drop_spans key picks now st)))"
    by (rule drop_spans_shrinks)
  moreover have "trimmable key pn inside_pins (segmeta_path key)" by (simp add: trimmable_def)
  ultimately show ?thesis using Some drop_empty_row_shrinks shrinks_trans
    by (simp add: trim_row_def picks_def [symmetric] case_prod_unfold Let_def)
qed (simp add: trim_row_def)

definition leased_unpinned :: "protection \<Rightarrow> millis \<Rightarrow> string \<Rightarrow> bool" where
  "leased_unpinned p now key = (v_leased (verdict_of p key now) \<and> v_pin (verdict_of p key now) = None)"

definition evictable :: "protection \<Rightarrow> millis \<Rightarrow> bool \<Rightarrow> string \<Rightarrow> bool" where
  "evictable p now inside_pins path =
     (\<exists>key. \<not> leased_unpinned p now key \<and> trimmable key (v_pin (verdict_of p key now)) inside_pins path)"

lemma evictable_seg:
  assumes "s < 2 ^ 64" and "e < 2 ^ 64" and "evictable p now inside_pins (seg_path k s e)"
  shows "\<not> leased_unpinned p now k \<and> (\<not> inside_pins \<longrightarrow> outside_pin (v_pin (verdict_of p k now)) (s, e))"
proof -
  obtain key s' e' where "\<not> leased_unpinned p now key" "seg_path k s e = seg_path key s' e'"
    "s' < 2 ^ 64" "e' < 2 ^ 64" "\<not> inside_pins \<longrightarrow> outside_pin (v_pin (verdict_of p key now)) (s', e')"
    using assms(3) by (auto simp: evictable_def trimmable_def)
  moreover from this seg_path_inj [OF _ assms(1,2), of k key s' e'] have "k = key" "s = s'" "e = e'" by blast+
  ultimately show ?thesis by blast
qed

lemma trim_row_evictable:
  assumes "\<not> leased_unpinned p now key"
  shows "shrinks (evictable p now inside_pins) (st_dir st)
    (st_dir (snd (trim_row cfg key want (v_pin (verdict_of p key now)) inside_pins cap now st)))"
  by (rule shrinks_mono [OF trim_row_shrinks]) (use assms in \<open>auto simp: evictable_def\<close>)

text \<open>
  Both passes are a sequence of row trims: a relation that is reflexive and transitive and holds
  of every trim of a row that is not leased without a pin holds of the pass.
\<close>

definition trim_step ::
  "config \<Rightarrow> string \<Rightarrow> u64 \<Rightarrow> pin option \<Rightarrow> bool \<Rightarrow> u64 option \<Rightarrow> millis \<Rightarrow> (nat \<times> u64) \<times> staging \<Rightarrow> (nat \<times> u64) \<times> staging" where
  "trim_step cfg key want pn inside_pins cap now acc =
     (let t = trim_row cfg key want pn inside_pins cap now (snd acc)
      in ((if fst t > 0 then fst (fst acc) + 1 else fst (fst acc), snd (fst acc) + fst t), snd t))"

lemma budget_pass_rel:
  assumes "reflp R" and "transp R"
    and "\<And>key want acc. \<not> leased_unpinned p now key \<Longrightarrow>
      R acc (trim_step cfg key want (v_pin (verdict_of p key now)) inside_pins None now acc)"
  shows "R acc (budget_pass cfg p inside_pins need now ks acc)"
proof (induction ks arbitrary: acc)
  case Nil
  then show ?case using assms(1) by (simp add: reflpD)
next
  case (Cons key ks)
  obtain touched freed st where acc: "acc = ((touched, freed), st)" by (cases acc) auto
  show ?case
  proof (cases "freed \<ge> need \<or> leased_unpinned p now key")
    case True
    then show ?thesis using Cons assms(1) acc by (auto simp: leased_unpinned_def Let_def reflpD)
  next
    case False
    let ?s = "trim_step cfg key (need - freed) (v_pin (verdict_of p key now)) inside_pins None now acc"
    have "budget_pass cfg p inside_pins need now (key # ks) acc = budget_pass cfg p inside_pins need now ks ?s"
      using False acc by (auto simp: trim_step_def leased_unpinned_def case_prod_unfold Let_def)
    then show ?thesis using assms(3) [of key acc "need - freed"] False Cons [of ?s] assms(2)
      by (auto dest: transpD)
  qed
qed

lemma cap_pass_rel:
  assumes "reflp R" and "transp R"
    and "\<And>key want acc. \<not> leased_unpinned p now key \<Longrightarrow>
      R acc (trim_step cfg key want (v_pin (verdict_of p key now)) False (Some (working_window_bytes cfg)) now acc)"
  shows "R acc (cap_pass cfg p now ks acc)"
proof (induction ks arbitrary: acc)
  case Nil
  then show ?case using assms(1) by (simp add: reflpD)
next
  case (Cons key ks)
  obtain touched freed st where acc: "acc = ((touched, freed), st)" by (cases acc) auto
  show ?case
  proof (cases "leased_unpinned p now key")
    case True
    then show ?thesis using Cons assms(1) acc by (auto simp: leased_unpinned_def Let_def)
  next
    case False
    let ?s = "trim_step cfg key 0 (v_pin (verdict_of p key now)) False (Some (working_window_bytes cfg)) now acc"
    have "cap_pass cfg p now (key # ks) acc = cap_pass cfg p now ks ?s"
      using False acc by (auto simp: trim_step_def leased_unpinned_def case_prod_unfold Let_def)
    then show ?thesis using assms(3) [of key acc 0] False Cons [of ?s] assms(2)
      by (auto dest: transpD)
  qed
qed

definition shrinks_acc :: "(string \<Rightarrow> bool) \<Rightarrow> (nat \<times> u64) \<times> staging \<Rightarrow> (nat \<times> u64) \<times> staging \<Rightarrow> bool" where
  "shrinks_acc P a b = shrinks P (st_dir (snd a)) (st_dir (snd b))"

lemma shrinks_acc_rel: "reflp (shrinks_acc P)" "transp (shrinks_acc P)"
  unfolding shrinks_acc_def reflp_def transp_def by (simp, blast intro: shrinks_trans)

lemma budget_pass_shrinks:
  "shrinks (evictable p now inside_pins) (st_dir (snd acc)) (st_dir (snd (budget_pass cfg p inside_pins need now ks acc)))"
  using budget_pass_rel [of "shrinks_acc (evictable p now inside_pins)", OF shrinks_acc_rel]
    trim_row_evictable [of p now _ inside_pins]
  by (simp add: shrinks_acc_def trim_step_def Let_def)

lemma cap_pass_shrinks:
  "shrinks (evictable p now False) (st_dir (snd acc)) (st_dir (snd (cap_pass cfg p now ks acc)))"
  using cap_pass_rel [of "shrinks_acc (evictable p now False)", OF shrinks_acc_rel]
    trim_row_evictable [of p now _ False]
  by (simp add: shrinks_acc_def trim_step_def Let_def)

subsection \<open>Lemmas: the account and the disk\<close>

definition is_segment_name :: "string \<Rightarrow> bool" where
  "is_segment_name p = (CHR ''/'' \<notin> set p \<and> parse_seg_name p \<noteq> None)"

definition staged_bytes :: "dir \<Rightarrow> nat" where
  "staged_bytes d = (\<Sum>(p, f)\<leftarrow>d. if is_segment_name p then length (f_data f) else 0)"

definition account_exact :: "staging \<Rightarrow> bool" where
  "account_exact st = (lg_total_staged (st_ledger st) = staged_bytes (st_dir st))"

lemma staged_remove:
  "wf_dir d \<Longrightarrow> staged_bytes d = (if is_segment_name p then file_len d p else 0) + staged_bytes (remove_file p d)"
proof (induction d)
  case (Cons a d)
  obtain q f where a: "a = (q, f)" by (cases a)
  show ?case
  proof (cases "q = p")
    case True
    then have "p \<notin> fst ` set d" using Cons.prems a by (auto simp: wf_dir_def)
    then have "remove_file p (a # d) = d"
      using a True by (force simp: remove_file_def filter_id_conv)
    then show ?thesis using True a by (simp add: staged_bytes_def file_len_def)
  next
    case False
    then show ?thesis using Cons a by (simp add: staged_bytes_def remove_file_def file_len_def wf_dir_def)
  qed
qed (simp add: staged_bytes_def remove_file_def file_len_def)

lemma staged_remove_other: "wf_dir d \<Longrightarrow> \<not> is_segment_name p \<Longrightarrow> staged_bytes (remove_file p d) = staged_bytes d"
  using staged_remove [of d p] by simp

lemma is_segment_seg_path [simp]: "s < 2 ^ 64 \<Longrightarrow> e < 2 ^ 64 \<Longrightarrow> is_segment_name (seg_path k s e)"
  using parse_seg_path [of s e k] by (simp add: is_segment_name_def)

lemma segmeta_not_segment [simp]: "\<not> is_segment_name (segmeta_path k)"
  by (auto simp: is_segment_name_def segmeta_path_def starts_with_def dest!: parse_seg_name_prefix)

lemma segpart_not_segment [simp]: "\<not> is_segment_name (segpart_path k s e)"
  by (auto simp: is_segment_name_def segpart_path_def starts_with_def dest!: parse_seg_name_prefix)

lemma staged_write:
  "wf_dir d \<Longrightarrow> staged_bytes (write_file p f d) + (if is_segment_name p then file_len d p else 0)
     = staged_bytes d + (if is_segment_name p then length (f_data f) else 0)"
  using staged_remove [of d p] by (simp add: write_file_def staged_bytes_def)

lemma remove_spans_account:
  assumes "wf_dir d" and "\<forall>f\<in>set picks. fst f < 2 ^ 64 \<and> snd f < 2 ^ 64"
  shows "staged_bytes d = fst (remove_spans key picks d) + staged_bytes (snd (remove_spans key picks d))
    \<and> wf_dir (snd (remove_spans key picks d))"
  using assms
proof (induction key picks d rule: remove_spans.induct)
  case (2 key s e picks d)
  let ?d = "remove_file (seg_path key s e) d"
  have "wf_dir ?d" using "2.prems"(1) by (rule wf_dir_remove_file)
  then have "staged_bytes ?d = fst (remove_spans key picks ?d) + staged_bytes (snd (remove_spans key picks ?d))
    \<and> wf_dir (snd (remove_spans key picks ?d))" using 2 by simp
  then show ?case using staged_remove [OF "2.prems"(1), of "seg_path key s e"] "2.prems"(2)
    by (simp add: case_prod_unfold Let_def)
qed simp

lemma re_adopt_staged [simp]: "lg_total_staged (re_adopt d key n now lg) = lg_total_staged lg - n"
  by (simp add: re_adopt_def Let_def put_row_def split: option.splits)

lemma drop_row_if_empty_staged [simp]: "lg_total_staged (snd (drop_row_if_empty key lg)) = lg_total_staged lg"
  by (simp add: drop_row_if_empty_def split: option.splits)

text \<open>Deleting from one state to the next: what left the disk left the account.\<close>

definition gave_up :: "u64 \<Rightarrow> staging \<Rightarrow> staging \<Rightarrow> bool" where
  "gave_up n st st' =
     (wf_dir (st_dir st) \<longrightarrow> wf_dir (st_dir st')
        \<and> staged_bytes (st_dir st) = n + staged_bytes (st_dir st')
        \<and> lg_total_staged (st_ledger st') = lg_total_staged (st_ledger st) - n)"

lemma gave_up_0 [simp]: "gave_up 0 st st"
  by (simp add: gave_up_def)

lemma gave_up_trans: "gave_up m a b \<Longrightarrow> gave_up n b c \<Longrightarrow> gave_up (m + n) a c"
  by (auto simp: gave_up_def)

lemma drop_spans_gave_up:
  "\<forall>f\<in>set picks. fst f < 2 ^ 64 \<and> snd f < 2 ^ 64 \<Longrightarrow>
     gave_up (fst (drop_spans key picks now st)) st (snd (drop_spans key picks now st))"
  using remove_spans_account [of "st_dir st" picks key]
  by (simp add: gave_up_def drop_spans_def case_prod_unfold Let_def)

lemma drop_empty_row_gave_up: "gave_up 0 st (drop_empty_row key st)"
  by (simp add: gave_up_def drop_empty_row_def case_prod_unfold Let_def wf_dir_remove_file staged_remove_other)

lemma trim_row_gave_up:
  "gave_up (fst (trim_row cfg key want pn inside_pins cap now st)) st (snd (trim_row cfg key want pn inside_pins cap now st))"
proof (cases "view (st_ledger st) key")
  case (Some v)
  define picks where "picks = pick_spans cfg (st_dir st) key (rv_spans v) want pn inside_pins cap now"
  have "\<forall>f\<in>set picks. fst f < 2 ^ 64 \<and> snd f < 2 ^ 64"
    using pick_spans_mem segments_for_key_lt unfolding picks_def by metis
  note drop = drop_spans_gave_up [OF this, of key now st]
  have "gave_up (fst (drop_spans key picks now st)) st (drop_empty_row key (snd (drop_spans key picks now st)))"
    using gave_up_trans [OF drop drop_empty_row_gave_up] by simp
  with drop show ?thesis using Some
    by (auto simp: trim_row_def picks_def [symmetric] case_prod_unfold Let_def)
qed (simp add: trim_row_def)

definition gave_up_acc :: "(nat \<times> u64) \<times> staging \<Rightarrow> (nat \<times> u64) \<times> staging \<Rightarrow> bool" where
  "gave_up_acc a b = (\<exists>n. snd (fst b) = snd (fst a) + n \<and> gave_up n (snd a) (snd b))"

lemma gave_up_acc_rel: "reflp gave_up_acc" "transp gave_up_acc"
proof -
  show "reflp gave_up_acc" by (auto simp: reflp_def gave_up_acc_def intro: exI [of _ 0])
  show "transp gave_up_acc"
  proof (rule transpI)
    fix a b c assume "gave_up_acc a b" and "gave_up_acc b c"
    then obtain m n where "snd (fst b) = snd (fst a) + m" "gave_up m (snd a) (snd b)"
      "snd (fst c) = snd (fst b) + n" "gave_up n (snd b) (snd c)" by (auto simp: gave_up_acc_def)
    then show "gave_up_acc a c"
      using gave_up_trans by (auto simp: gave_up_acc_def intro!: exI [of _ "m + n"])
  qed
qed

lemma trim_step_gave_up: "gave_up_acc acc (trim_step cfg key want pn inside_pins cap now acc)"
  using trim_row_gave_up by (auto simp: gave_up_acc_def trim_step_def Let_def)

lemma evict_staged_gave_up:
  "gave_up (snd (fst (evict_staged cfg p need now st))) st (snd (evict_staged cfg p need now st))"
proof -
  let ?order = "map snd (rows_by_age (max_size_bytes cfg) (st_ledger st))"
  let ?p1 = "budget_pass cfg p False need now ?order ((0, 0), st)"
  let ?p2 = "budget_pass cfg p True need now ?order ?p1"
  have "gave_up_acc ((0, 0), st) ?p1" "gave_up_acc ?p1 ?p2"
    by (rule budget_pass_rel [OF gave_up_acc_rel trim_step_gave_up])+
  moreover have "gave_up_acc ?p2 (cap_pass cfg p now ks ?p2)" for ks
    by (rule cap_pass_rel [OF gave_up_acc_rel trim_step_gave_up])
  ultimately have "gave_up_acc ((0, 0), st) (evict_staged cfg p need now st)"
    using transpD [OF gave_up_acc_rel(2)] unfolding evict_staged_def Let_def by blast
  then show ?thesis by (auto simp: gave_up_acc_def)
qed

lemma remove_files_account:
  assumes "wf_dir d" and "distinct ps" and "\<forall>p\<in>set ps. is_segment_name p"
  shows "staged_bytes d = (\<Sum>p\<leftarrow>ps. file_len d p) + staged_bytes (remove_files ps d)"
  using assms
proof (induction ps arbitrary: d)
  case (Cons p ps)
  let ?d = "remove_file p d"
  have "staged_bytes ?d = (\<Sum>q\<leftarrow>ps. file_len ?d q) + staged_bytes (remove_files ps ?d)"
    by (rule Cons.IH) (use Cons.prems wf_dir_remove_file in auto)
  moreover have "(\<Sum>q\<leftarrow>ps. file_len ?d q) = (\<Sum>q\<leftarrow>ps. file_len d q)"
    using Cons.prems(2) by (intro arg_cong [where f = sum_list] map_cong) auto
  ultimately show ?case using staged_remove [OF Cons.prems(1), of p] Cons.prems(3) by simp
qed simp

lemma key_segment_files_names:
  "wf_dir d \<Longrightarrow> distinct (key_segment_files d k) \<and> (\<forall>p\<in>set (key_segment_files d k). is_segment_name p)"
  using top_level_distinct [of d]
  by (auto simp: key_segment_files_def Let_def is_segment_name_def top_level_mem)

lemma remove_key_segments_account:
  assumes "wf_dir d" and "remove_key_segments k keep d = (freed, d')"
  shows "wf_dir d' \<and> staged_bytes d = freed + staged_bytes d'"
proof -
  let ?gone = "filter (\<lambda>p. keep \<noteq> Some p) (key_segment_files d k)"
  have "distinct ?gone" "\<forall>p\<in>set ?gone. is_segment_name p" using key_segment_files_names [OF assms(1)] by auto
  from remove_files_account [OF assms(1) this] assms show ?thesis
    by (auto simp: remove_key_segments_def Let_def staged_remove_other wf_dir_remove_files wf_dir_remove_file)
qed

lemma reset_gave_up: "wf_dir (st_dir st) \<Longrightarrow> \<exists>n. gave_up n st (reset k st)"
proof -
  assume wf: "wf_dir (st_dir st)"
  let ?n = "\<Sum>f\<leftarrow>key_segment_files (st_dir st) k. file_len (st_dir st) f"
  have "gave_up ?n st (reset k st)"
    using remove_files_account [OF wf, of "key_segment_files (st_dir st) k"] key_segment_files_names [OF wf, of k] wf
    by (simp add: gave_up_def reset_def Let_def forget_def staged_remove_other wf_dir_remove_files wf_dir_remove_file)
  then show ?thesis ..
qed

lemma ledger_seal_total:
  assumes "s < e" and "e \<le> U64_MAX" and "file_exists d (seg_path k s e)" and "lg_total_staged lg \<le> U64_MAX"
  shows "lg_total_staged (snd (ledger_seal d k (s, e) etag tot w at lg))
    = sat_add (lg_total_staged lg) (file_len d (seg_path k s e))"
  using assms by (auto simp: ledger_seal_def Let_def sat_add_def)

lemma staged_ge: "wf_dir d \<Longrightarrow> is_segment_name p \<Longrightarrow> file_len d p \<le> staged_bytes d"
  using staged_remove [of d p] by simp

text \<open>Sealing the file that has just been renamed into place.\<close>

lemma seal_span_account:
  assumes wf: "wf_dir (st_dir st)" and se: "fs_start sp < fs_end sp" "fs_end sp \<le> U64_MAX"
    and ex: "file_exists (st_dir st) (seg_path (fs_key sp) (fs_start sp) (fs_end sp))"
    and acc: "lg_total_staged (st_ledger st) + file_len (st_dir st) (seg_path (fs_key sp) (fs_start sp) (fs_end sp))
      = staged_bytes (st_dir st)"
    and max: "staged_bytes (st_dir st) \<le> U64_MAX"
  shows "wf_dir (st_dir (seal_span cfg encode sp st)) \<and> account_exact (seal_span cfg encode sp st)"
proof -
  let ?seg = "seg_path (fs_key sp) (fs_start sp) (fs_end sp)"
  have lt: "fs_start sp < 2 ^ 64" "fs_end sp < 2 ^ 64" using se by (simp_all add: U64_MAX_def)
  define changed where "changed = (case (known_etag st (fs_key sp), fs_etag sp) of (Some a, Some b) \<Rightarrow> a \<noteq> b | _ \<Rightarrow> False)"
  define st1 where "st1 = (if changed
      then let (freed, d) = remove_key_segments (fs_key sp) (Some ?seg) (st_dir st)
           in \<lparr>st_ledger = forget (fs_key sp) freed (st_ledger st), st_dir = d\<rparr> else st)"
  have st1: "wf_dir (st_dir st1) \<and> file_exists (st_dir st1) ?seg
      \<and> lg_total_staged (st_ledger st1) + file_len (st_dir st1) ?seg = staged_bytes (st_dir st1)
      \<and> staged_bytes (st_dir st1) \<le> U64_MAX"
  proof (cases changed)
    case True
    obtain freed d where r: "remove_key_segments (fs_key sp) (Some ?seg) (st_dir st) = (freed, d)" by fastforce
    note R = remove_key_segments_account [OF wf r]
    have keep: "map_of d ?seg = map_of (st_dir st) ?seg"
      using r by (auto simp: remove_key_segments_def Let_def)
    then have "file_exists d ?seg" "file_len d ?seg = file_len (st_dir st) ?seg"
      using ex by (simp_all add: file_exists_def file_len_def)
    moreover have "file_len d ?seg \<le> staged_bytes d" using staged_ge R lt by simp
    ultimately show ?thesis using True r R acc max by (simp add: st1_def forget_def)
  qed (use wf ex acc max in \<open>simp add: st1_def\<close>)
  define lg where "lg = snd (ledger_seal (st_dir st1) (fs_key sp) (fs_start sp, fs_end sp) (fs_etag sp) (fs_total sp)
      (ep_coverage_window_secs (cache_profile cfg (fs_upstream_id sp)) * 1000) (fs_now_millis sp) (st_ledger st1))"
  have "lg_total_staged lg = staged_bytes (st_dir st1)"
    unfolding lg_def using st1 se by (subst ledger_seal_total) (auto simp: sat_add_exact)
  moreover have "seal_span cfg encode sp st = \<lparr>st_ledger = lg,
      st_dir = (case encode \<lparr>sm_etag = fs_etag sp, sm_total = fs_total sp\<rparr> of
        Some f \<Rightarrow> write_file (segmeta_path (fs_key sp)) f (st_dir st1) | None \<Rightarrow> st_dir st1)\<rparr>"
    unfolding seal_span_def Let_def lg_def st1_def changed_def by (rule refl)
  ultimately show ?thesis
    using st1 staged_write [of "st_dir st1" "segmeta_path (fs_key sp)"]
    by (auto simp: account_exact_def wf_dir_write_file split: option.splits)
qed

lemma seal_renamed_account:
  assumes wf: "wf_dir (st_dir st)" and se: "fs_start sp < fs_end sp" "fs_end sp \<le> U64_MAX"
    and fresh: "\<not> file_exists (st_dir st) (seg_path (fs_key sp) (fs_start sp) (fs_end sp))"
    and part: "map_of (st_dir st) (segpart_path k s e) = Some f"
    and acc: "account_exact st" and max: "staged_bytes (st_dir st) + length (f_data f) \<le> U64_MAX"
  shows "fst (seal_renamed cfg encode (segpart_path k s e) (seg_path (fs_key sp) (fs_start sp) (fs_end sp)) sp st)
    \<and> wf_dir (st_dir (snd (seal_renamed cfg encode (segpart_path k s e) (seg_path (fs_key sp) (fs_start sp) (fs_end sp)) sp st)))
    \<and> account_exact (snd (seal_renamed cfg encode (segpart_path k s e) (seg_path (fs_key sp) (fs_start sp) (fs_end sp)) sp st))"
proof -
  let ?seg = "seg_path (fs_key sp) (fs_start sp) (fs_end sp)" and ?part = "segpart_path k s e"
  let ?rm = "remove_file ?part (st_dir st)"
  let ?d = "write_file ?seg f ?rm"
  have lt: "fs_start sp < 2 ^ 64" "fs_end sp < 2 ^ 64" using se by (simp_all add: U64_MAX_def)
  have wf0: "wf_dir ?rm" using wf by (rule wf_dir_remove_file)
  have "staged_bytes ?rm = staged_bytes (st_dir st)" by (simp add: staged_remove_other wf)
  moreover have "file_len ?rm ?seg = 0" using fresh by (simp add: file_len_def file_exists_def)
  ultimately have staged: "staged_bytes ?d = staged_bytes (st_dir st) + length (f_data f)"
    using staged_write [OF wf0, of ?seg f] lt by simp
  have "wf_dir (st_dir (seal_span cfg encode sp (st\<lparr>st_dir := ?d\<rparr>))) \<and> account_exact (seal_span cfg encode sp (st\<lparr>st_dir := ?d\<rparr>))"
    by (rule seal_span_account) (use wf0 se acc staged max in \<open>simp_all add: account_exact_def wf_dir_write_file\<close>)
  then show ?thesis using part by (simp add: seal_renamed_def rename_file_def)
qed

text \<open>One staging operation, and the steps that keep the account equal to the disk.\<close>

datatype staging_op =
    Do_seal finalized_span
  | Do_evict protection u64 millis
  | Do_reset string
  | Do_touch string millis
  | Do_read string u64 u64

fun staging_step :: "config \<Rightarrow> (seg_meta \<Rightarrow> stored_file option) \<Rightarrow> staging \<Rightarrow> staging_op \<Rightarrow> staging" where
  "staging_step cfg encode st (Do_seal sp) =
     snd (seal_renamed cfg encode (segpart_path (fs_key sp) (fs_start sp) (fs_end sp))
            (seg_path (fs_key sp) (fs_start sp) (fs_end sp)) sp st)"
| "staging_step cfg encode st (Do_evict p need now) = snd (evict_staged cfg p need now st)"
| "staging_step cfg encode st (Do_reset key) = reset key st"
| "staging_step cfg encode st (Do_touch key now) = staging_touch key now st"
| "staging_step cfg encode st (Do_read key s e) = add_read key s e st"

fun sound_step :: "staging \<Rightarrow> staging_op \<Rightarrow> bool" where
  "sound_step st (Do_seal sp) =
     (fs_start sp < fs_end sp \<and> fs_end sp \<le> U64_MAX
      \<and> \<not> file_exists (st_dir st) (seg_path (fs_key sp) (fs_start sp) (fs_end sp))
      \<and> staged_bytes (st_dir st) + file_len (st_dir st) (segpart_path (fs_key sp) (fs_start sp) (fs_end sp)) \<le> U64_MAX)"
| "sound_step st _ = True"

lemma touch_read_staged [simp]:
  "lg_total_staged (ledger_touch k t lg) = lg_total_staged lg"
  "lg_total_staged (served k s e lg) = lg_total_staged lg"
  by (simp_all add: ledger_touch_def served_def put_row_def split: option.splits)

lemma gave_up_account: "gave_up n st st' \<Longrightarrow> wf_dir (st_dir st) \<Longrightarrow> account_exact st \<Longrightarrow> wf_dir (st_dir st') \<and> account_exact st'"
  by (simp add: gave_up_def account_exact_def)

lemma staging_step_account:
  assumes "wf_dir (st_dir st)" and "account_exact st" and "sound_step st op"
  shows "wf_dir (st_dir (staging_step cfg encode st op)) \<and> account_exact (staging_step cfg encode st op)"
proof (cases op)
  case (Do_seal sp)
  let ?part = "segpart_path (fs_key sp) (fs_start sp) (fs_end sp)"
  show ?thesis
  proof (cases "map_of (st_dir st) ?part")
    case None
    then show ?thesis using assms Do_seal
      by (simp add: seal_renamed_def rename_file_def account_exact_def wf_dir_remove_file staged_remove_other)
  next
    case (Some f)
    from seal_renamed_account [OF assms(1) _ _ _ Some assms(2)] Some assms(3) show ?thesis
      by (simp add: Do_seal file_len_def)
  qed
next
  case (Do_evict p need now)
  then show ?thesis using gave_up_account [OF evict_staged_gave_up assms(1,2)] by simp
next
  case (Do_reset key)
  then show ?thesis using reset_gave_up [OF assms(1), of key] gave_up_account assms(1,2) by auto
qed (use assms in \<open>simp_all add: staging_touch_def add_read_def account_exact_def\<close>)

subsection \<open>Properties\<close>

text \<open>
  C13: a read planned over the segment files is served from them exactly. When every file the
  scan lists holds its range of the object, the body ends without an error and yields the
  object's bytes from the start of the range to the frontier, and the frontier is the end of
  the range or a byte that no listed file holds.
\<close>

theorem staged_read_exact:
  assumes "start \<le> en"
    and "\<forall>(s, e, p)\<in>set (segments_for_key d key). \<exists>f. map_of d p = Some f \<and> f_data f = map obj [s..<e]"
  shows "case plan_staged (segments_for_key d key) start en of plan \<Rightarrow>
      start \<le> sp_frontier plan \<and> sp_frontier plan \<le> en
    \<and> (sp_frontier plan < en \<longrightarrow> sp_frontier plan \<notin> (\<Union>(s, e, _)\<in>set (segments_for_key d key). {s..<e}))
    \<and> (\<exists>cs. staged_body d (sp_pieces plan) = (cs, False) \<and> concat cs = map obj [start..<sp_frontier plan])"
proof -
  obtain ps fr where plan: "plan_pieces (segments_for_key d key) start en = (ps, fr)" by fastforce
  note P = sl.plan_pieces_spec [OF sl.segs_sorted assms(1) plan]
    and B = sl.plan_pieces_bytes [OF plan assms]
  obtain cs err where body: "staged_body d ps = (cs, err)" by fastforce
  have "\<not> err"
    using pieces_then_error [of d ps "([], False)"] B body by (fastforce simp: staged_body_def)
  moreover from this have "concat cs = map obj [start..<fr]"
    using pieces_then_concat [of d ps "([], False)" cs] B body by (simp add: staged_body_def)
  ultimately show ?thesis using P body by (simp add: plan_staged_def plan)
qed

theorem staged_read_exact_witness:
  "sp_frontier (plan_staged (segments_for_key [(seg_path ''k'' 0 2, \<lparr>f_data = [1, 2], f_mtime = None\<rparr>)] ''k'') 0 5) \<le> 5
    \<and> (\<exists>cs. staged_body [(seg_path ''k'' 0 2, \<lparr>f_data = [1, 2], f_mtime = None\<rparr>)] (sp_pieces (plan_staged (segments_for_key [(seg_path ''k'' 0 2, \<lparr>f_data = [1, 2], f_mtime = None\<rparr>)] ''k'') 0 5)) = (cs, False)
        \<and> concat cs = map (\<lambda>n. of_nat (n + 1)) [0..<sp_frontier (plan_staged (segments_for_key [(seg_path ''k'' 0 2, \<lparr>f_data = [1, 2], f_mtime = None\<rparr>)] ''k'') 0 5)])"
proof -
  have "\<forall>(s, e, p)\<in>set (segments_for_key [(seg_path ''k'' 0 2, \<lparr>f_data = [1, 2], f_mtime = None\<rparr>)] ''k'').
      \<exists>f. map_of [(seg_path ''k'' 0 2, \<lparr>f_data = [1, 2], f_mtime = None\<rparr>)] p = Some f \<and> f_data f = map (\<lambda>n. of_nat (n + 1)) [s..<e]"
    using parse_seg_path [of 0 2 "''k''"]
    by (auto simp: segments_for_key_mem key_segment_files_def top_level_mem file_exists_def mangle_def
        push_byte_as_char_def upt_rec split: if_splits)
  from staged_read_exact [OF _ this, of 0 5] show ?thesis by simp
qed

text \<open>
  a staged body never ends short in silence: it ends in an error exactly when one of its
  files is missing or shorter than its piece.
\<close>

lemma staged_body_honest:
  "snd (staged_body d pieces) \<longleftrightarrow>
     (\<exists>(p, off, len)\<in>set pieces. case map_of d p of None \<Rightarrow> True | Some f \<Rightarrow> length (f_data f) - off < len)"
  using pieces_then_error [of d pieces "([], False)"] by (simp add: staged_body_def)

text \<open>
  the spans chosen for deletion are segment files of the scan, none sealed within the last
  minute, and in the first pass none touching the viewer's pin; the choice covers the need or
  takes every span the pass allows, and it never takes one span more than the need asks for.
\<close>

lemma pick_spans_sound:
  "case pick_spans cfg d key prior need pn inside_pins None now of picks \<Rightarrow>
     (\<forall>f\<in>set picks. (\<exists>p. (fst f, snd f, p) \<in> set (segments_for_key d key))
        \<and> \<not> young now (span_policy prior f) \<and> (\<not> inside_pins \<longrightarrow> outside_pin pn f))
   \<and> (need \<le> (\<Sum>(s, e)\<leftarrow>picks. e - s)
      \<or> (\<forall>(s, e, p)\<in>set (segments_for_key d key).
           \<not> young now (span_policy prior (s, e)) \<and> (inside_pins \<or> outside_pin pn (s, e)) \<longrightarrow> (s, e) \<in> set picks))
   \<and> (picks \<noteq> [] \<longrightarrow> (\<Sum>(s, e)\<leftarrow>butlast picks. e - s) < need)"
proof -
  let ?files = "map (\<lambda>(s, e, _). (s, e)) (segments_for_key d key)"
  let ?cs = "candidates cfg ?files prior pn inside_pins now"
  define picks where "picks = pick_spans cfg d key prior need pn inside_pins None now"
  have picks: "picks = (if ?files = [] then [] else take_need need 0 ?cs)"
    by (simp add: picks_def pick_spans_def Let_def)
  have "need \<le> (\<Sum>(s, e)\<leftarrow>picks. e - s)
      \<or> (\<forall>(s, e, p)\<in>set (segments_for_key d key).
           \<not> young now (span_policy prior (s, e)) \<and> (inside_pins \<or> outside_pin pn (s, e)) \<longrightarrow> (s, e) \<in> set picks)"
  proof (cases "picks = ?cs")
    case True
    have "(s, e) \<in> set picks" if "(s, e, p) \<in> set (segments_for_key d key)"
      "\<not> young now (span_policy prior (s, e))" "inside_pins \<or> outside_pin pn (s, e)" for s e p
      unfolding True by (rule candidates_complete) (use that in force)+
    then show ?thesis by blast
  next
    case False
    then show ?thesis using picks take_need_enough [of need 0 ?cs]
      by (auto split: if_splits)
  qed
  moreover have "(\<Sum>(s, e)\<leftarrow>butlast picks. e - s) < need" if "picks \<noteq> []"
    using take_need_minimal [of need 0 ?cs "butlast picks" "List.last picks"] picks that
    by (auto split: if_splits)
  moreover have "\<forall>f\<in>set picks. (\<exists>p. (fst f, snd f, p) \<in> set (segments_for_key d key))
        \<and> \<not> young now (span_policy prior f) \<and> (\<not> inside_pins \<longrightarrow> outside_pin pn f)"
    using pick_spans_mem unfolding picks_def by blast
  ultimately show ?thesis unfolding picks_def [symmetric] by simp
qed

lemma pick_spans_sound_witness:
  "case pick_spans config_default [(seg_path ''k'' 0 2, \<lparr>f_data = [1, 2], f_mtime = None\<rparr>)] ''k'' [] 1 None False None 5 of
    picks \<Rightarrow> (picks = [] \<or> (\<Sum>(s, e)\<leftarrow>butlast picks. e - s) < 1)"
  using pick_spans_sound [of config_default "[(seg_path ''k'' 0 2, \<lparr>f_data = [1, 2], f_mtime = None\<rparr>)]" "''k''" "[]" 1 None False 5]
  by (simp del: One_nat_def) blast

text \<open>
  an eviction leaves every staged file of a key that is being read without a look at its
  position, whatever the need.
\<close>

lemma evict_spares_leased:
  assumes "v_leased (verdict_of p k now)" and "v_pin (verdict_of p k now) = None"
    and "s < 2 ^ 64" and "e < 2 ^ 64"
  shows "map_of (st_dir (snd (evict_staged cfg p need now st))) (seg_path k s e) = map_of (st_dir st) (seg_path k s e)"
proof -
  let ?order = "map snd (rows_by_age (max_size_bytes cfg) (st_ledger st))"
  let ?p1 = "budget_pass cfg p False need now ?order ((0, 0), st)"
  let ?p2 = "budget_pass cfg p True need now ?order ?p1"
  have no: "\<not> evictable p now inside (seg_path k s e)" for inside
    using assms(1,2) evictable_seg [OF assms(3,4), of p now inside k] by (auto simp: leased_unpinned_def)
  note steps = budget_pass_shrinks [of p now False "((0, 0), st)" cfg need ?order]
    budget_pass_shrinks [of p now True ?p1 cfg need ?order]
    cap_pass_shrinks [of p now ?p2 cfg]
  from steps no show ?thesis
    unfolding evict_staged_def Let_def shrinks_def by (metis snd_conv)
qed

lemma evict_spares_leased_witness:
  "map_of (st_dir (snd (evict_staged config_default
       \<lparr>p_leases = lease_acquire ''k'' (leases_new 10), p_watches = watches_new 10 64\<rparr> 100 5
       \<lparr>st_ledger = ledger_new, st_dir = [(seg_path ''k'' 0 2, \<lparr>f_data = [1, 2], f_mtime = None\<rparr>)]\<rparr>))) (seg_path ''k'' 0 2)
   = map_of (st_dir \<lparr>st_ledger = ledger_new, st_dir = [(seg_path ''k'' 0 2, \<lparr>f_data = [1, 2], f_mtime = None\<rparr>)]\<rparr>) (seg_path ''k'' 0 2)"
  by (rule evict_spares_leased)
     (simp_all add: verdict_of_def is_protected_def lease_acquire_def leases_new_def lease_default_def
        protected_entry_def watch_pin_def watches_new_def Let_def)

text \<open>
  A viewer's pin is spent last. When the first pass over the cache frees the need, every
  staged file that reaches into the pin of a watched key is still there after the eviction.
\<close>

lemma evict_pins_last:
  assumes "v_pin (verdict_of p k now) = Some pn" and "pin_start pn < e" and "s < pin_end pn"
    and "s < 2 ^ 64" and "e < 2 ^ 64"
    and "need \<le> snd (fst (budget_pass cfg p False need now
           (map snd (rows_by_age (max_size_bytes cfg) (st_ledger st))) ((0, 0), st)))"
  shows "map_of (st_dir (snd (evict_staged cfg p need now st))) (seg_path k s e) = map_of (st_dir st) (seg_path k s e)"
proof -
  let ?order = "map snd (rows_by_age (max_size_bytes cfg) (st_ledger st))"
  let ?p1 = "budget_pass cfg p False need now ?order ((0, 0), st)"
  have "budget_pass cfg p True need now ks ?p1 = ?p1" for ks
    using assms(6) by (cases ks; cases ?p1; cases "fst ?p1") auto
  then have ev: "evict_staged cfg p need now st
      = cap_pass cfg p now (unkeepable_rows (max_size_bytes cfg) (st_ledger (snd ?p1))) ?p1"
    by (simp add: evict_staged_def Let_def)
  have no: "\<not> evictable p now False (seg_path k s e)"
    using assms(1,2,3) evictable_seg [OF assms(4,5), of p now False k] by (auto simp: outside_pin_def)
  from budget_pass_shrinks [of p now False "((0, 0), st)" cfg need ?order]
    cap_pass_shrinks [of p now ?p1 cfg] no show ?thesis
    unfolding ev shrinks_def by (metis snd_conv)
qed

lemma evict_pins_last_witness:
  "map_of (st_dir (snd (evict_staged config_default
       \<lparr>p_leases = leases_new 10, p_watches = snd (watch_acquire ''k'' (0, 2) 5 (watches_new 10 64))\<rparr> 0 5
       \<lparr>st_ledger = ledger_new, st_dir = [(seg_path ''k'' 0 2, \<lparr>f_data = [1, 2], f_mtime = None\<rparr>)]\<rparr>))) (seg_path ''k'' 0 2)
   = map_of (st_dir \<lparr>st_ledger = ledger_new, st_dir = [(seg_path ''k'' 0 2, \<lparr>f_data = [1, 2], f_mtime = None\<rparr>)]\<rparr>) (seg_path ''k'' 0 2)"
  by (rule evict_pins_last [where pn = "\<lparr>pin_start = 0, pin_end = 34, pin_anchor = 2\<rparr>"])
     (simp_all add: verdict_of_def watch_pin_def watch_acquire_def watches_new_def watch_default_def
        live_entry_def pin_of_def sat_add_def U64_MAX_def Let_def)



end
