(* ===== verification/Magazine.thy ===== *)
theory Magazine
  imports Store Protection Config
begin

text \<open>
  The magazine, \<^verbatim>\<open>src/cache/magazine.rs\<close>, with the entry rows of \<^verbatim>\<open>src/cache/meta.rs\<close> and
  their persistence in \<^verbatim>\<open>src/cache/persist.rs\<close>: installing and deleting durable entries under a
  byte budget and an entry budget.

  The metadata database is the list of its rows; whether a transaction commits is an argument
  of each write, and a failed one changes nothing. The free-space probe is a function of the
  directory. The locale \<open>victim_pass\<close> is what the three selection passes have in common;
  it is interpreted on each of them.
\<close>

subsection \<open>Entries\<close>

record entry_meta =
  em_version :: nat
  em_upstream_id :: string
  em_key :: string
  em_size_bytes :: u64
  em_etag :: "string option"
  em_last_modified :: "string option"
  em_content_type :: "string option"
  em_created_at_millis :: millis
  em_last_access_millis :: millis
  em_last_revalidated_millis :: "millis option"
  em_negative_until_millis :: "millis option"
  em_oversize :: bool

definition is_negative :: "entry_meta \<Rightarrow> millis \<Rightarrow> bool" where
  "is_negative m now = (case em_negative_until_millis m of Some until \<Rightarrow> now < until | None \<Rightarrow> False)"

definition eligible_at :: "entry_meta \<Rightarrow> u64 \<Rightarrow> millis" where
  "eligible_at m inactive_ttl = em_last_access_millis m + inactive_ttl * 1000"

definition revalidate_due :: "entry_meta \<Rightarrow> millis \<Rightarrow> u64 \<Rightarrow> bool" where
  "revalidate_due m now ttl =
     (now - (case em_last_revalidated_millis m of Some t \<Rightarrow> t | None \<Rightarrow> em_created_at_millis m) > ttl * 1000)"

text \<open>What the provider says about an object, \<^verbatim>\<open>ObjectMeta\<close> of \<^verbatim>\<open>src/backend/mod.rs\<close>.\<close>

record object_meta =
  om_size_bytes :: u64
  om_etag :: "string option"
  om_last_modified :: "string option"
  om_mime_hint :: "string option"

subsection \<open>The metadata store\<close>

type_synonym meta_store = "(string \<times> entry_meta) list"

definition load_all :: "meta_store \<Rightarrow> entry_meta list" where
  "load_all db = map snd db"

definition meta_insert :: "bool \<Rightarrow> entry_meta \<Rightarrow> meta_store \<Rightarrow> meta_store" where
  "meta_insert commits m db = (if commits then hm_put (em_key m) m db else db)"

fun bump_last_access_batch :: "(string \<times> millis) list \<Rightarrow> meta_store \<Rightarrow> meta_store" where
  "bump_last_access_batch [] db = db"
| "bump_last_access_batch ((key, ms) # batch) db =
     bump_last_access_batch batch
       (case map_of db key of
          Some m \<Rightarrow> if em_last_access_millis m \<noteq> ms then hm_put key (m\<lparr>em_last_access_millis := ms\<rparr>) db else db
        | None \<Rightarrow> db)"

definition remove_batch :: "bool \<Rightarrow> string list \<Rightarrow> meta_store \<Rightarrow> meta_store" where
  "remove_batch commits keys db = (if commits then fold hm_del keys db else db)"

subsection \<open>Budgets\<close>

record cache_state =
  cs_entries :: "(string \<times> entry_meta) list"
  cs_total_bytes :: u64
  cs_segment_sweep_at_millis :: millis

definition DISK_RESERVE_BYTES :: u64 where
  "DISK_RESERVE_BYTES = 512 * 1024 * 1024"

definition DISK_PRESSURE_BYTES :: u64 where
  "DISK_PRESSURE_BYTES = 2 * 1024 * 1024 * 1024"

definition run_admits :: "u64 \<Rightarrow> u64 \<Rightarrow> u64 option \<Rightarrow> u64 \<Rightarrow> bool" where
  "run_admits run_len max_size free reserve =
     (run_len > 0 \<and> run_len \<le> max_size
      \<and> (case free of None \<Rightarrow> True | Some f \<Rightarrow> f - reserve \<ge> run_len))"

definition fits_magazine :: "u64 \<Rightarrow> config \<Rightarrow> bool" where
  "fits_magazine sz cfg = (sz > 0 \<and> sz \<le> max_size_bytes cfg)"

definition strays_bytes :: "cache_state \<Rightarrow> u64" where
  "strays_bytes st = (\<Sum>(_, m)\<leftarrow>cs_entries st. if em_oversize m then em_size_bytes m else 0)"

definition resident_bytes_of :: "cache_state \<Rightarrow> u64" where
  "resident_bytes_of st = cs_total_bytes st - strays_bytes st"

text \<open>
  The loop the selection passes share: remove each candidate that still has a row, until
  \<open>stop\<close> holds of the bytes freed and the number of victims.
\<close>

fun take_victims ::
  "(u64 \<Rightarrow> nat \<Rightarrow> bool) \<Rightarrow> u64 \<Rightarrow> nat \<Rightarrow> string list \<Rightarrow> cache_state \<Rightarrow> (string \<times> u64) list \<times> cache_state" where
  "take_victims stop freed n [] st = ([], st)"
| "take_victims stop freed n (key # ks) st =
     (if stop freed n then ([], st)
      else case map_of (cs_entries st) key of
             None \<Rightarrow> take_victims stop freed n ks st
           | Some m \<Rightarrow>
               (let sz = em_size_bytes m;
                    (out, st') = take_victims stop (sat_add freed sz) (n + 1) ks
                       (st\<lparr>cs_entries := hm_del key (cs_entries st), cs_total_bytes := cs_total_bytes st - sz\<rparr>)
                in ((key, sz) # out, st')))"

definition lru_candidates :: "config \<Rightarrow> (string \<Rightarrow> entry_meta \<Rightarrow> bool) \<Rightarrow> cache_state \<Rightarrow> string list" where
  "lru_candidates cfg P st =
     map snd (sort_key fst (map (\<lambda>(k, m). (eligible_at m (inactive_ttl_secs cfg), k))
       (filter (\<lambda>(k, m). P k m) (cs_entries st))))"

definition evict_ok :: "string list \<Rightarrow> string \<Rightarrow> entry_meta \<Rightarrow> bool" where
  "evict_ok protd k m = (em_negative_until_millis m = None \<and> \<not> em_oversize m \<and> k \<notin> set protd)"

definition evict_pick :: "config \<Rightarrow> string list \<Rightarrow> cache_state \<Rightarrow> (string \<times> u64) list \<times> cache_state" where
  "evict_pick cfg protd st =
     (let resident = resident_bytes_of st;
          over_bytes = resident > max_size_bytes cfg;
          over_entries = (max_entries cfg > 0 \<and> length (cs_entries st) > max_entries cfg)
      in if \<not> over_bytes \<and> \<not> over_entries then ([], st)
         else let bytes_over = resident - max_size_bytes cfg;
                  entries_over = (if over_entries then length (cs_entries st) - max_entries cfg else 0)
              in take_victims (\<lambda>freed n. freed \<ge> bytes_over \<and> n \<ge> entries_over) 0 0
                   (lru_candidates cfg (evict_ok protd) st) st)"

definition pick_strays_for_pressure :: "config \<Rightarrow> u64 \<Rightarrow> cache_state \<Rightarrow> (string \<times> u64) list \<times> cache_state" where
  "pick_strays_for_pressure cfg need st =
     (if need = 0 then ([], st)
      else take_victims (\<lambda>freed _. freed \<ge> need) 0 0 (lru_candidates cfg (\<lambda>_ m. em_oversize m) st) st)"

definition reap_ok :: "u64 \<Rightarrow> millis \<Rightarrow> string list \<Rightarrow> string \<Rightarrow> entry_meta \<Rightarrow> bool" where
  "reap_ok ttl now protd k m =
     ((case em_negative_until_millis m of
         None \<Rightarrow> now - em_last_access_millis m \<ge> ttl
       | Some until \<Rightarrow> now \<ge> until)
      \<and> (em_negative_until_millis m \<noteq> None \<or> k \<notin> set protd))"

definition reap_collect :: "u64 \<Rightarrow> millis \<Rightarrow> string list \<Rightarrow> cache_state \<Rightarrow> (string \<times> u64) list \<times> cache_state" where
  "reap_collect ttl now protd st =
     take_victims (\<lambda>_ _. False) 0 0
       (map fst (filter (\<lambda>(k, m). reap_ok ttl now protd k m) (cs_entries st))) st"

subsection \<open>The receiver\<close>

record magazine =
  mg_state :: cache_state
  mg_meta :: meta_store
  mg_dir :: dir

definition delete_victims :: "bool \<Rightarrow> (string \<times> u64) list \<Rightarrow> magazine \<Rightarrow> magazine" where
  "delete_victims commits victims mg =
     (if victims = [] then mg
      else mg\<lparr>mg_meta := remove_batch commits (map fst victims) (mg_meta mg),
              mg_dir := remove_files (filter (\<lambda>p. \<not> is_meta_store_path p) (map (\<lambda>(k, _). file_path k) victims))
                          (mg_dir mg)\<rparr>)"

definition new_entry :: "string \<Rightarrow> string \<Rightarrow> object_meta \<Rightarrow> millis \<Rightarrow> bool \<Rightarrow> cache_state \<Rightarrow> entry_meta" where
  "new_entry key uid om now oversize st =
     \<lparr>em_version = 1, em_upstream_id = uid, em_key = key, em_size_bytes = om_size_bytes om,
      em_etag = om_etag om, em_last_modified = om_last_modified om, em_content_type = om_mime_hint om,
      em_created_at_millis =
        (case map_of (cs_entries st) key of Some m \<Rightarrow> em_created_at_millis m | None \<Rightarrow> now),
      em_last_access_millis = now, em_last_revalidated_millis = Some now,
      em_negative_until_millis = None, em_oversize = oversize\<rparr>"

definition install ::
  "config \<Rightarrow> bool \<Rightarrow> bool \<Rightarrow> protection \<Rightarrow> string \<Rightarrow> string \<Rightarrow> object_meta \<Rightarrow> millis \<Rightarrow> bool
     \<Rightarrow> magazine \<Rightarrow> magazine \<times> protection" where
  "install cfg ins_commits del_commits p key uid om now oversize mg =
     (let st = mg_state mg;
          old_size = (case map_of (cs_entries st) key of Some m \<Rightarrow> em_size_bytes m | None \<Rightarrow> 0);
          entry = new_entry key uid om now oversize st;
          db = meta_insert ins_commits entry (mg_meta mg);
          st1 = st\<lparr>cs_total_bytes := cs_total_bytes st - old_size + em_size_bytes entry,
                   cs_entries := hm_put key entry (cs_entries st)\<rparr>;
          (protd, p') = spared now p;
          (victims, st2) = evict_pick cfg protd st1
      in (delete_victims del_commits victims (mg\<lparr>mg_state := st2, mg_meta := db\<rparr>), p'))"

definition install_negative :: "config \<Rightarrow> bool \<Rightarrow> string \<Rightarrow> string \<Rightarrow> millis \<Rightarrow> magazine \<Rightarrow> magazine" where
  "install_negative cfg commits key uid now mg =
     (let entry = \<lparr>em_version = 1, em_upstream_id = uid, em_key = key, em_size_bytes = 0, em_etag = None,
                   em_last_modified = None, em_content_type = None, em_created_at_millis = now,
                   em_last_access_millis = now, em_last_revalidated_millis = None,
                   em_negative_until_millis = Some (now + negative_ttl_secs cfg * 1000), em_oversize = False\<rparr>
      in mg\<lparr>mg_meta := meta_insert commits entry (mg_meta mg),
            mg_state := (mg_state mg)\<lparr>cs_entries := hm_put key entry (cs_entries (mg_state mg))\<rparr>\<rparr>)"

definition reclaim_strays :: "config \<Rightarrow> u64 \<Rightarrow> magazine \<Rightarrow> (string \<times> u64) list \<times> magazine" where
  "reclaim_strays cfg need mg =
     (let (vs, st) = pick_strays_for_pressure cfg need (mg_state mg) in (vs, mg\<lparr>mg_state := st\<rparr>))"

definition make_room :: "config \<Rightarrow> (dir \<Rightarrow> u64 option) \<Rightarrow> bool \<Rightarrow> u64 \<Rightarrow> magazine \<Rightarrow> bool \<times> magazine" where
  "make_room cfg free_bytes commits want mg =
     (if has_room_for (free_bytes (mg_dir mg)) want DISK_RESERVE_BYTES then (True, mg)
      else let free = (case free_bytes (mg_dir mg) of Some f \<Rightarrow> f | None \<Rightarrow> 0);
               need = sat_add DISK_RESERVE_BYTES want - free;
               (victims, mg1) = reclaim_strays cfg need mg;
               mg2 = (if victims \<noteq> [] then delete_victims commits victims mg1 else mg1)
           in (has_room_for (free_bytes (mg_dir mg2)) want DISK_RESERVE_BYTES, mg2))"

definition rebuild :: "bool \<Rightarrow> entry_meta list \<Rightarrow> magazine \<Rightarrow> magazine" where
  "rebuild commits rebuilt mg =
     mg\<lparr>mg_meta := fold (meta_insert commits) rebuilt (mg_meta mg),
        mg_state := fold (\<lambda>e st. st\<lparr>cs_total_bytes := cs_total_bytes st + em_size_bytes e,
                                    cs_entries := hm_put (em_key e) e (cs_entries st)\<rparr>)
                      rebuilt (mg_state mg)\<rparr>"

definition reap :: "bool \<Rightarrow> u64 \<Rightarrow> millis \<Rightarrow> protection \<Rightarrow> magazine \<Rightarrow> magazine \<times> protection" where
  "reap commits ttl now p mg =
     (let (protd, p') = spared now p;
          (victims, st) = reap_collect ttl now protd (mg_state mg)
      in (delete_victims commits victims (mg\<lparr>mg_state := st\<rparr>), p'))"

definition evict_budget :: "config \<Rightarrow> bool \<Rightarrow> millis \<Rightarrow> protection \<Rightarrow> magazine \<Rightarrow> magazine \<times> protection" where
  "evict_budget cfg commits now p mg =
     (let (protd, p') = spared now p;
          (victims, st) = evict_pick cfg protd (mg_state mg)
      in (delete_victims commits victims (mg\<lparr>mg_state := st\<rparr>), p'))"

definition reclaim_under_pressure :: "config \<Rightarrow> (dir \<Rightarrow> u64 option) \<Rightarrow> bool \<Rightarrow> magazine \<Rightarrow> magazine" where
  "reclaim_under_pressure cfg free_bytes commits mg =
     (let free = (case free_bytes (mg_dir mg) of Some f \<Rightarrow> f | None \<Rightarrow> U64_MAX);
          flr = sat_add DISK_RESERVE_BYTES DISK_PRESSURE_BYTES
      in if free \<ge> flr then mg
         else let (victims, mg1) = reclaim_strays cfg (flr - free) mg
              in delete_victims commits victims mg1)"

definition staged_overrun :: "config \<Rightarrow> u64 \<Rightarrow> magazine \<Rightarrow> u64" where
  "staged_overrun cfg segment_bytes mg =
     sat_add (resident_bytes_of (mg_state mg)) segment_bytes - max_size_bytes cfg"

subsection \<open>Lemmas: the victim loop\<close>

definition entry_bytes :: "cache_state \<Rightarrow> nat" where
  "entry_bytes st = (\<Sum>(_, m)\<leftarrow>cs_entries st. em_size_bytes m)"

definition victim_bytes :: "(string \<times> u64) list \<Rightarrow> nat" where
  "victim_bytes vs = (\<Sum>(_, sz)\<leftarrow>vs. sz)"

definition account_ok :: "cache_state \<Rightarrow> bool" where
  "account_ok st = (hm_wf (cs_entries st) \<and> cs_total_bytes st = entry_bytes st)"

lemma hm_del_filter: "hm_del k m = filter (\<lambda>(q, _). q \<noteq> k) m"
  by (simp add: hm_del_def)

lemma take_victims_spec:
  assumes "hm_wf (cs_entries st)" and "take_victims stop freed n ks st = (vs, st')"
  shows "cs_entries st' = filter (\<lambda>(k, _). k \<notin> fst ` set vs) (cs_entries st)"
    and "distinct (map fst vs)"
    and "(k, sz) \<in> set vs \<Longrightarrow> k \<in> set ks \<and> (\<exists>m. map_of (cs_entries st) k = Some m \<and> em_size_bytes m = sz)"
    and "cs_total_bytes st' = cs_total_bytes st - victim_bytes vs"
    and "entry_bytes st = victim_bytes vs + entry_bytes st'"
proof -
  have "cs_entries st' = filter (\<lambda>(k, _). k \<notin> fst ` set vs) (cs_entries st)
    \<and> distinct (map fst vs)
    \<and> (\<forall>(k, sz)\<in>set vs. k \<in> set ks \<and> (\<exists>m. map_of (cs_entries st) k = Some m \<and> em_size_bytes m = sz))
    \<and> cs_total_bytes st' = cs_total_bytes st - victim_bytes vs
    \<and> entry_bytes st = victim_bytes vs + entry_bytes st'"
    using assms
  proof (induction stop freed n ks st arbitrary: vs st' rule: take_victims.induct)
    case (1 stop freed n st)
    then show ?case by (simp add: victim_bytes_def)
  next
    case (2 stop freed n key ks st)
    show ?case
    proof (cases "stop freed n")
      case True
      then show ?thesis using "2.prems" by (simp add: victim_bytes_def)
    next
      case go: False
      show ?thesis
      proof (cases "map_of (cs_entries st) key")
        case None
        then have "take_victims stop freed n ks st = (vs, st')" using "2.prems"(2) go by simp
        from "2.IH"(1) [OF go None "2.prems"(1) this] show ?thesis by (simp add: case_prod_unfold)
      next
        case (Some m)
        let ?st = "st\<lparr>cs_entries := hm_del key (cs_entries st), cs_total_bytes := cs_total_bytes st - em_size_bytes m\<rparr>"
        obtain out where rec: "take_victims stop (sat_add freed (em_size_bytes m)) (n + 1) ks ?st = (out, st')"
          and vs: "vs = (key, em_size_bytes m) # out"
          using "2.prems"(2) go Some by (auto simp: Let_def split: prod.splits)
        have wf: "hm_wf (cs_entries ?st)" using "2.prems"(1) by (simp add: hm_wf_del)
        note IH = "2.IH"(2) [OF go Some refl wf rec]
        have fresh: "key \<notin> fst ` set out" using IH by (force simp: image_iff)
        have ents: "cs_entries st' = filter (\<lambda>(k, _). k \<notin> fst ` set vs) (cs_entries st)"
          using IH vs by (simp add: hm_del_filter case_prod_unfold)
        have sum: "entry_bytes st = em_size_bytes m + entry_bytes ?st"
          using sum_hm_del [OF "2.prems"(1) Some, of em_size_bytes] by (simp add: entry_bytes_def)
        have rows: "\<forall>(k, sz)\<in>set vs. k \<in> set (key # ks) \<and> (\<exists>m. map_of (cs_entries st) k = Some m \<and> em_size_bytes m = sz)"
        proof (clarify)
          fix k sz assume "(k, sz) \<in> set vs"
          then consider "k = key" "sz = em_size_bytes m" | "(k, sz) \<in> set out" using vs by auto
          then show "k \<in> set (key # ks) \<and> (\<exists>m. map_of (cs_entries st) k = Some m \<and> em_size_bytes m = sz)"
          proof cases
            case 2
            then have "k \<in> set ks \<and> (\<exists>m. map_of (cs_entries ?st) k = Some m \<and> em_size_bytes m = sz)"
              using IH by (simp only: split_paired_Ball_Sigma case_prod_unfold) force
            then show ?thesis by (auto split: if_splits)
          qed (use Some in simp)
        qed
        have "distinct (map fst vs)" using IH fresh vs by simp
        moreover have "cs_total_bytes st' = cs_total_bytes st - victim_bytes vs"
          using IH vs by (simp add: victim_bytes_def)
        moreover have "entry_bytes st = victim_bytes vs + entry_bytes st'"
          using IH vs sum by (simp add: victim_bytes_def)
        ultimately show ?thesis using ents rows by blast
      qed
    qed
  qed
  then show "cs_entries st' = filter (\<lambda>(k, _). k \<notin> fst ` set vs) (cs_entries st)"
    and "distinct (map fst vs)"
    and "(k, sz) \<in> set vs \<Longrightarrow> k \<in> set ks \<and> (\<exists>m. map_of (cs_entries st) k = Some m \<and> em_size_bytes m = sz)"
    and "cs_total_bytes st' = cs_total_bytes st - victim_bytes vs"
    and "entry_bytes st = victim_bytes vs + entry_bytes st'"
    by auto
qed

text \<open>Candidates with rows are taken in order, until the loop stops or runs out.\<close>

lemma take_victims_prefix:
  assumes "take_victims stop freed n ks st = (vs, st')" and "distinct ks"
    and "\<forall>k\<in>set ks. map_of (cs_entries st) k \<noteq> None"
  shows "map fst vs = take (length vs) ks
    \<and> (length vs = length ks \<or> (\<exists>f. f \<le> freed + victim_bytes vs \<and> stop f (n + length vs)))"
  using assms
proof (induction stop freed n ks st arbitrary: vs rule: take_victims.induct)
  case (2 stop freed n key ks st)
  show ?case
  proof (cases "stop freed n")
    case True
    then show ?thesis using "2.prems" by (auto simp: victim_bytes_def)
  next
    case go: False
    obtain m where Some: "map_of (cs_entries st) key = Some m" using "2.prems"(3) by auto
    let ?st = "st\<lparr>cs_entries := hm_del key (cs_entries st), cs_total_bytes := cs_total_bytes st - em_size_bytes m\<rparr>"
    obtain out where rec: "take_victims stop (sat_add freed (em_size_bytes m)) (n + 1) ks ?st = (out, st')"
      and vs: "vs = (key, em_size_bytes m) # out"
      using "2.prems"(1) go Some by (auto simp: Let_def split: prod.splits)
    have "map fst out = take (length out) ks
        \<and> (length out = length ks \<or> (\<exists>f. f \<le> sat_add freed (em_size_bytes m) + victim_bytes out \<and> stop f (n + 1 + length out)))"
    proof (rule "2.IH"(2) [OF go Some refl rec])
      show "distinct ks" using "2.prems"(2) by simp
      show "\<forall>k\<in>set ks. map_of (cs_entries ?st) k \<noteq> None" using "2.prems"(2,3) by auto
    qed
    then show ?thesis using vs sat_add_le_sum [of freed "em_size_bytes m"]
      by (force simp: victim_bytes_def)
  qed
qed simp

lemma lru_candidates_set: "set (lru_candidates cfg P st) = {k. \<exists>m. (k, m) \<in> set (cs_entries st) \<and> P k m}"
  by (force simp: lru_candidates_def)

lemma lru_candidates_distinct:
  assumes "hm_wf (cs_entries st)"
  shows "distinct (lru_candidates cfg P st)"
proof -
  let ?xs = "map (\<lambda>(k, m). (eligible_at m (inactive_ttl_secs cfg), k)) (filter (\<lambda>(k, m). P k m) (cs_entries st))"
  have "mset (lru_candidates cfg P st) = mset (map snd ?xs)"
    unfolding lru_candidates_def by (simp only: mset_map mset_sort)
  moreover have "map snd ?xs = map fst (filter (\<lambda>(k, m). P k m) (cs_entries st))" by auto
  moreover have "distinct (map fst (filter (\<lambda>(k, m). P k m) (cs_entries st)))"
    using hm_wf_filter [OF assms] unfolding hm_wf_def .
  ultimately show ?thesis using mset_eq_imp_distinct_iff by metis
qed

lemma lru_candidates_rows: "k \<in> set (lru_candidates cfg P st) \<Longrightarrow> map_of (cs_entries st) k \<noteq> None"
  by (auto simp: lru_candidates_set map_of_eq_None_iff intro: rev_image_eqI)

text \<open>Oldest first: the candidates' eligibility times are in order.\<close>

lemma lru_candidates_sorted:
  assumes "hm_wf (cs_entries st)"
  shows "sorted (map (\<lambda>k. eligible_at (the (map_of (cs_entries st) k)) (inactive_ttl_secs cfg)) (lru_candidates cfg P st))"
proof -
  let ?xs = "sort_key fst (map (\<lambda>(k, m). (eligible_at m (inactive_ttl_secs cfg), k)) (filter (\<lambda>(k, m). P k m) (cs_entries st)))"
  have "eligible_at (the (map_of (cs_entries st) (snd x))) (inactive_ttl_secs cfg) = fst x" if "x \<in> set ?xs" for x
    using that hm_mem_iff [OF assms] by (auto simp del: map_of_eq_Some_iff)
  then have "map (\<lambda>k. eligible_at (the (map_of (cs_entries st) k)) (inactive_ttl_secs cfg)) (lru_candidates cfg P st) = map fst ?xs"
    by (simp add: lru_candidates_def del: set_sort_key)
  then show ?thesis by simp
qed

subsection \<open>The interface of the selection passes\<close>

text \<open>
  A pass takes rows out of the state: what it reports is what it removed, nothing it may not
  take, and the account follows.
\<close>

locale victim_pass =
  fixes pick :: "cache_state \<Rightarrow> (string \<times> u64) list \<times> cache_state"
    and may_take :: "string \<Rightarrow> entry_meta \<Rightarrow> bool"
  assumes pick_entries: "hm_wf (cs_entries st) \<Longrightarrow> pick st = (vs, st') \<Longrightarrow>
      cs_entries st' = filter (\<lambda>(k, _). k \<notin> fst ` set vs) (cs_entries st)"
    and pick_rows: "hm_wf (cs_entries st) \<Longrightarrow> pick st = (vs, st') \<Longrightarrow> (k, sz) \<in> set vs \<Longrightarrow>
      \<exists>m. map_of (cs_entries st) k = Some m \<and> em_size_bytes m = sz \<and> may_take k m"
    and pick_total: "hm_wf (cs_entries st) \<Longrightarrow> pick st = (vs, st') \<Longrightarrow>
      cs_total_bytes st' = cs_total_bytes st - victim_bytes vs"
    and pick_bytes: "hm_wf (cs_entries st) \<Longrightarrow> pick st = (vs, st') \<Longrightarrow>
      entry_bytes st = victim_bytes vs + entry_bytes st'"
begin

lemma account_kept: "account_ok st \<Longrightarrow> pick st = (vs, st') \<Longrightarrow> account_ok st'"
  using pick_entries [of st vs st'] pick_total [of st vs st'] pick_bytes [of st vs st']
  by (auto simp: account_ok_def hm_wf_filter)

lemma reported_freed:
  "account_ok st \<Longrightarrow> pick st = (vs, st') \<Longrightarrow> cs_total_bytes st = victim_bytes vs + cs_total_bytes st'"
  using pick_total [of st vs st'] pick_bytes [of st vs st'] by (auto simp: account_ok_def)

lemma get_after:
  assumes "hm_wf (cs_entries st)" and "pick st = (vs, st')"
  shows "map_of (cs_entries st') k = (if k \<in> fst ` set vs then None else map_of (cs_entries st) k)"
proof -
  have "map_of (filter (\<lambda>(k, v). (\<lambda>k _. k \<notin> fst ` set vs) k v) (cs_entries st)) k =
      (case map_of (cs_entries st) k of Some v \<Rightarrow> if k \<notin> fst ` set vs then Some v else None | None \<Rightarrow> None)"
    by (rule map_of_hm_filter [OF assms(1)])
  then show ?thesis using pick_entries [OF assms] by (auto split: option.splits)
qed

lemma spared_stays:
  assumes "hm_wf (cs_entries st)" and "pick st = (vs, st')"
    and "map_of (cs_entries st) k = Some m" and "\<not> may_take k m"
  shows "map_of (cs_entries st') k = Some m"
proof -
  have "k \<notin> fst ` set vs" using pick_rows [OF assms(1,2)] assms(3,4) by fastforce
  then show ?thesis using get_after [OF assms(1,2)] assms(3) by simp
qed

end

lemma candidates_may_take:
  "hm_wf (cs_entries st) \<Longrightarrow> k \<in> set (lru_candidates cfg P st) \<Longrightarrow> map_of (cs_entries st) k = Some m \<Longrightarrow> P k m"
  by (auto simp: lru_candidates_set hm_mem_iff)

interpretation ev: victim_pass "evict_pick cfg protd" "evict_ok protd" for cfg protd
proof (unfold_locales, goal_cases)
  case (1 st vs st')
  then show ?case using take_victims_spec(1) [OF 1(1)]
    by (auto simp: evict_pick_def Let_def split: if_splits)
next
  case (2 st vs st' k sz)
  then obtain stop where t: "take_victims stop 0 0 (lru_candidates cfg (evict_ok protd) st) st = (vs, st')"
    by (auto simp: evict_pick_def Let_def split: if_splits)
  show ?case using take_victims_spec(3) [OF 2(1) t 2(3)] candidates_may_take [OF 2(1)] by blast
next
  case (3 st vs st')
  then show ?case using take_victims_spec(4) [OF 3(1)]
    by (auto simp: evict_pick_def Let_def victim_bytes_def split: if_splits)
next
  case (4 st vs st')
  then show ?case using take_victims_spec(5) [OF 4(1)]
    by (auto simp: evict_pick_def Let_def victim_bytes_def split: if_splits)
qed

interpretation stray: victim_pass "pick_strays_for_pressure cfg need" "\<lambda>_ m. em_oversize m" for cfg need
proof (unfold_locales, goal_cases)
  case (1 st vs st')
  then show ?case using take_victims_spec(1) [OF 1(1)]
    by (auto simp: pick_strays_for_pressure_def split: if_splits)
next
  case (2 st vs st' k sz)
  then have t: "take_victims (\<lambda>freed _. freed \<ge> need) 0 0 (lru_candidates cfg (\<lambda>_ m. em_oversize m) st) st = (vs, st')"
    by (auto simp: pick_strays_for_pressure_def split: if_splits)
  show ?case using take_victims_spec(3) [OF 2(1) t 2(3)] candidates_may_take [OF 2(1)] by blast
next
  case (3 st vs st')
  then show ?case using take_victims_spec(4) [OF 3(1)]
    by (auto simp: pick_strays_for_pressure_def victim_bytes_def split: if_splits)
next
  case (4 st vs st')
  then show ?case using take_victims_spec(5) [OF 4(1)]
    by (auto simp: pick_strays_for_pressure_def victim_bytes_def split: if_splits)
qed

interpretation rp: victim_pass "reap_collect ttl now protd" "reap_ok ttl now protd" for ttl now protd
proof (unfold_locales, goal_cases)
  case (1 st vs st')
  then show ?case using take_victims_spec(1) [OF 1(1)] by (simp add: reap_collect_def)
next
  case (2 st vs st' k sz)
  note t = 2(2) [unfolded reap_collect_def]
  have "\<exists>m. (k, m) \<in> set (cs_entries st) \<and> reap_ok ttl now protd k m"
    using take_victims_spec(3) [OF 2(1) t 2(3)] by auto
  then show ?case using take_victims_spec(3) [OF 2(1) t 2(3)] hm_mem_iff [OF 2(1)] by fastforce
next
  case (3 st vs st')
  then show ?case using take_victims_spec(4) [OF 3(1)] by (simp add: reap_collect_def)
next
  case (4 st vs st')
  then show ?case using take_victims_spec(5) [OF 4(1)] by (simp add: reap_collect_def)
qed

subsection \<open>Lemmas: the budgets\<close>

lemma pass_length:
  assumes "hm_wf es" and "distinct (map fst vs)" and "fst ` set vs \<subseteq> fst ` set es"
  shows "length (filter (\<lambda>(k, _). k \<notin> fst ` set vs) es) + length vs = length es"
proof -
  let ?es = "filter (\<lambda>(k, _). k \<notin> fst ` set vs) es"
  have "length ?es = card (fst ` set ?es)"
    using hm_wf_filter [OF assms(1)] distinct_card [of "map fst ?es"] by (simp add: hm_wf_def)
  moreover have "fst ` set ?es = fst ` set es - fst ` set vs" by force
  moreover have "length vs = card (fst ` set vs)"
    using assms(2) distinct_card [of "map fst vs"] by simp
  moreover have "length es = card (fst ` set es)"
    using assms(1) distinct_card [of "map fst es"] by (simp add: hm_wf_def)
  ultimately show ?thesis using assms(3) by (simp add: card_Diff_subset card_mono)
qed

lemma strays_unchanged:
  assumes "\<And>k m. (k, m) \<in> set es \<Longrightarrow> Q k \<Longrightarrow> \<not> em_oversize m"
  shows "(\<Sum>(_, m)\<leftarrow>filter (\<lambda>(k, _). \<not> Q k) es. if em_oversize m then em_size_bytes m else 0)
    = (\<Sum>(_, m)\<leftarrow>es. if em_oversize m then em_size_bytes m else 0)"
  using assms
proof (induction es)
  case (Cons a es)
  obtain k m where a: "a = (k, m)" by (cases a)
  have "(\<Sum>(_, m)\<leftarrow>filter (\<lambda>(k, _). \<not> Q k) es. if em_oversize m then em_size_bytes m else 0)
    = (\<Sum>(_, m)\<leftarrow>es. if em_oversize m then em_size_bytes m else 0)"
    by (rule Cons.IH) (use Cons.prems in auto)
  then show ?case using Cons.prems [of k m] a by simp
qed simp

lemma evict_pick_budget:
  assumes "account_ok st" and "evict_pick cfg protd st = (vs, st')"
  shows "(resident_bytes_of st' \<le> max_size_bytes cfg \<and> (max_entries cfg > 0 \<longrightarrow> length (cs_entries st') \<le> max_entries cfg))
      \<or> (\<forall>k m. map_of (cs_entries st') k = Some m \<longrightarrow> \<not> evict_ok protd k m)"
proof (cases "vs = [] \<and> st' = st")
  case True
  then show ?thesis
  proof (cases "resident_bytes_of st > max_size_bytes cfg \<or> (max_entries cfg > 0 \<and> length (cs_entries st) > max_entries cfg)")
    case False
    then show ?thesis using True by auto
  next
    case over: True
    have wf: "hm_wf (cs_entries st)" using assms(1) by (simp add: account_ok_def)
    obtain stop where t: "take_victims stop 0 0 (lru_candidates cfg (evict_ok protd) st) st = ([], st)"
      and stop: "stop = (\<lambda>freed n. freed \<ge> resident_bytes_of st - max_size_bytes cfg
        \<and> n \<ge> (if max_entries cfg > 0 \<and> length (cs_entries st) > max_entries cfg then length (cs_entries st) - max_entries cfg else 0))"
      using assms(2) True over by (auto simp: evict_pick_def Let_def)
    note pre = take_victims_prefix [OF t lru_candidates_distinct [OF wf]] lru_candidates_rows
    then have "lru_candidates cfg (evict_ok protd) st = []"
      using over stop by (auto simp: victim_bytes_def split: if_splits)
    then have "set (lru_candidates cfg (evict_ok protd) st) = {}" by simp
    then show ?thesis using True wf by (auto simp: lru_candidates_set hm_mem_iff)
  qed
next
  case False
  have wf: "hm_wf (cs_entries st)" using assms(1) by (simp add: account_ok_def)
  define entries_over where "entries_over =
    (if max_entries cfg > 0 \<and> length (cs_entries st) > max_entries cfg then length (cs_entries st) - max_entries cfg else 0)"
  define cands where "cands = lru_candidates cfg (evict_ok protd) st"
  have t: "take_victims (\<lambda>freed n. freed \<ge> resident_bytes_of st - max_size_bytes cfg \<and> n \<ge> entries_over) 0 0 cands st = (vs, st')"
    using assms(2) False by (auto simp: evict_pick_def Let_def entries_over_def cands_def split: if_splits)
  have pre: "map fst vs = take (length vs) cands"
    "length vs = length cands \<or> (\<exists>f \<le> victim_bytes vs. f \<ge> resident_bytes_of st - max_size_bytes cfg \<and> length vs \<ge> entries_over)"
    using take_victims_prefix [OF t] lru_candidates_distinct [OF wf] lru_candidates_rows by (auto simp: cands_def)
  note get = ev.get_after [OF wf assms(2)] and rows = ev.pick_rows [OF wf assms(2)]
  show ?thesis
  proof (cases "length vs = length cands")
    case True
    then have "fst ` set vs = set cands" using pre(1) by (metis list.set_map take_all_iff order_refl)
    then have "\<forall>k m. map_of (cs_entries st') k = Some m \<longrightarrow> \<not> evict_ok protd k m"
      using get wf by (auto simp: cands_def lru_candidates_set hm_mem_iff split: if_splits)
    then show ?thesis by blast
  next
    case False
    then have over: "resident_bytes_of st - max_size_bytes cfg \<le> victim_bytes vs" "entries_over \<le> length vs" using pre(2) by auto
    have ents: "cs_entries st' = filter (\<lambda>(k, _). k \<notin> fst ` set vs) (cs_entries st)"
      by (rule ev.pick_entries [OF wf assms(2)])
    have sub: "fst ` set vs \<subseteq> fst ` set (cs_entries st)" using rows by (fastforce dest: map_of_SomeD intro: rev_image_eqI)
    have "\<not> em_oversize m" if "(k, m) \<in> set (cs_entries st)" "k \<in> fst ` set vs" for k m
      using rows that hm_mem_iff [OF wf] by (fastforce simp: evict_ok_def)
    then have "strays_bytes st' = strays_bytes st"
      unfolding strays_bytes_def ents by (intro strays_unchanged [where Q = "\<lambda>k. k \<in> fst ` set vs"]) auto
    then have "resident_bytes_of st' = resident_bytes_of st - victim_bytes vs"
      using ev.pick_total [OF wf assms(2)] by (simp add: resident_bytes_of_def)
    moreover have "length (cs_entries st') + length vs = length (cs_entries st)"
      unfolding ents by (rule pass_length [OF wf take_victims_spec(2) [OF wf t] sub])
    ultimately show ?thesis using over by (auto simp: entries_over_def split: if_splits)
  qed
qed

lemma evict_pick_oldest:
  assumes "hm_wf (cs_entries st)" and "evict_pick cfg protd st = (vs, st')"
    and "(k, sz) \<in> set vs" and "map_of (cs_entries st) k = Some m"
    and "map_of (cs_entries st') k' = Some m'" and "evict_ok protd k' m'"
  shows "eligible_at m (inactive_ttl_secs cfg) \<le> eligible_at m' (inactive_ttl_secs cfg)"
proof -
  let ?c = "lru_candidates cfg (evict_ok protd) st" and ?f = "\<lambda>k. eligible_at (the (map_of (cs_entries st) k)) (inactive_ttl_secs cfg)"
  obtain stop where t: "take_victims stop 0 0 ?c st = (vs, st')"
    using assms(2,3) by (auto simp: evict_pick_def Let_def split: if_splits)
  have keys: "map fst vs = take (length vs) ?c"
    using take_victims_prefix [OF t lru_candidates_distinct [OF assms(1)]] lru_candidates_rows by blast
  have k: "k \<in> set (take (length vs) ?c)" using assms(3) keys by (metis fst_conv list.set_map rev_image_eqI)
  have left: "map_of (cs_entries st) k' = Some m'" "k' \<notin> fst ` set vs"
    using ev.get_after [OF assms(1,2), of k'] assms(5) by (auto split: if_splits)
  then have "k' \<in> set ?c" using assms(1,6) by (auto simp: lru_candidates_set hm_mem_iff)
  moreover have "k' \<notin> set (take (length vs) ?c)" using left(2) keys by (metis list.set_map)
  ultimately have "k' \<in> set (drop (length vs) ?c)" by (metis UnE append_take_drop_id set_append)
  moreover have "sorted (map ?f (take (length vs) ?c) @ map ?f (drop (length vs) ?c))"
    using lru_candidates_sorted [OF assms(1)] by (metis append_take_drop_id map_append)
  ultimately have "?f k \<le> ?f k'" using k by (auto simp: sorted_append)
  then show ?thesis using assms(4) left(1) by simp
qed

subsection \<open>Lemmas: the account\<close>

lemma delete_victims_state [simp]: "mg_state (delete_victims c vs mg) = mg_state mg"
  by (simp add: delete_victims_def)

lemma entry_bytes_put:
  assumes "hm_wf (cs_entries st)"
  shows "entry_bytes (st\<lparr>cs_entries := hm_put k e (cs_entries st)\<rparr>)
    + (case map_of (cs_entries st) k of Some m \<Rightarrow> em_size_bytes m | None \<Rightarrow> 0) = entry_bytes st + em_size_bytes e"
proof (cases "map_of (cs_entries st) k")
  case (Some m)
  then show ?thesis using sum_hm_del [OF assms Some, of em_size_bytes] by (simp add: entry_bytes_def hm_put_def)
qed (simp add: entry_bytes_def hm_put_def hm_del_absent)

lemma account_put:
  assumes "account_ok st"
  shows "account_ok (st\<lparr>cs_total_bytes := cs_total_bytes st
      - (case map_of (cs_entries st) k of Some m \<Rightarrow> em_size_bytes m | None \<Rightarrow> 0) + em_size_bytes e,
    cs_entries := hm_put k e (cs_entries st)\<rparr>)"
proof -
  have wf: "hm_wf (cs_entries st)" and tot: "cs_total_bytes st = entry_bytes st"
    using assms by (simp_all add: account_ok_def)
  have "(case map_of (cs_entries st) k of Some m \<Rightarrow> em_size_bytes m | None \<Rightarrow> 0) \<le> entry_bytes st"
    using sum_hm_del [OF wf, of k _ em_size_bytes] by (auto simp: entry_bytes_def split: option.splits)
  then show ?thesis
    using entry_bytes_put [OF wf, of k e] tot wf by (simp add: account_ok_def hm_wf_put entry_bytes_def)
qed

lemma install_account:
  assumes "account_ok (mg_state mg)"
  shows "account_ok (mg_state (fst (install cfg ic dc p key uid om now ovs mg)))"
proof -
  let ?st = "(mg_state mg)\<lparr>cs_total_bytes := cs_total_bytes (mg_state mg)
      - (case map_of (cs_entries (mg_state mg)) key of Some m \<Rightarrow> em_size_bytes m | None \<Rightarrow> 0)
      + em_size_bytes (new_entry key uid om now ovs (mg_state mg)),
    cs_entries := hm_put key (new_entry key uid om now ovs (mg_state mg)) (cs_entries (mg_state mg))\<rparr>"
  have "account_ok ?st" by (rule account_put [OF assms])
  then have "account_ok (snd (evict_pick cfg (fst (spared now p)) ?st))"
    by (rule ev.account_kept [OF _ prod.collapse [symmetric]])
  then show ?thesis by (simp add: install_def Let_def case_prod_unfold)
qed

lemma reclaim_strays_account:
  "account_ok (mg_state mg) \<Longrightarrow> account_ok (mg_state (snd (reclaim_strays cfg need mg)))"
  using stray.account_kept [of "mg_state mg" cfg need] by (auto simp: reclaim_strays_def Let_def split: prod.splits)

datatype magazine_op =
    Mg_install bool bool protection string string object_meta millis bool
  | Mg_install_negative bool string string millis
  | Mg_make_room "dir \<Rightarrow> u64 option" bool u64
  | Mg_reap bool u64 millis protection
  | Mg_evict_budget bool millis protection
  | Mg_reclaim_under_pressure "dir \<Rightarrow> u64 option" bool

fun magazine_step :: "config \<Rightarrow> magazine \<Rightarrow> magazine_op \<Rightarrow> magazine" where
  "magazine_step cfg mg (Mg_install ic dc p key uid om now ovs) = fst (install cfg ic dc p key uid om now ovs mg)"
| "magazine_step cfg mg (Mg_install_negative c key uid now) = install_negative cfg c key uid now mg"
| "magazine_step cfg mg (Mg_make_room free c want) = snd (make_room cfg free c want mg)"
| "magazine_step cfg mg (Mg_reap c ttl now p) = fst (reap c ttl now p mg)"
| "magazine_step cfg mg (Mg_evict_budget c now p) = fst (evict_budget cfg c now p mg)"
| "magazine_step cfg mg (Mg_reclaim_under_pressure free c) = reclaim_under_pressure cfg free c mg"

text \<open>A tombstone is sound when it does not replace a row that has bytes.\<close>

fun sound_magazine_op :: "magazine \<Rightarrow> magazine_op \<Rightarrow> bool" where
  "sound_magazine_op mg (Mg_install_negative c key uid now) =
     (case map_of (cs_entries (mg_state mg)) key of Some m \<Rightarrow> em_size_bytes m = 0 | None \<Rightarrow> True)"
| "sound_magazine_op mg _ = True"

lemma install_negative_state:
  "account_ok (mg_state mg) \<Longrightarrow>
     cs_total_bytes (mg_state (install_negative cfg c key uid now mg)) =
       entry_bytes (mg_state (install_negative cfg c key uid now mg))
       + (case map_of (cs_entries (mg_state mg)) key of Some m \<Rightarrow> em_size_bytes m | None \<Rightarrow> 0)"
  using entry_bytes_put [of "mg_state mg" key]
  by (simp add: install_negative_def Let_def account_ok_def)

lemma magazine_step_account:
  assumes "account_ok (mg_state mg)" and "sound_magazine_op mg op"
  shows "account_ok (mg_state (magazine_step cfg mg op))"
proof (cases op)
  case (Mg_install ic dc p key uid om now ovs)
  then show ?thesis using install_account [OF assms(1)] by simp
next
  case (Mg_install_negative c key uid now)
  have "hm_wf (cs_entries (mg_state (install_negative cfg c key uid now mg)))"
    using assms(1) by (simp add: account_ok_def install_negative_def Let_def hm_wf_put)
  then show ?thesis
    using install_negative_state [OF assms(1), of cfg c key uid now] Mg_install_negative assms(2)
    by (auto simp: account_ok_def split: option.splits)
next
  case (Mg_make_room free c want)
  then show ?thesis using reclaim_strays_account [OF assms(1)] assms(1)
    by (simp add: make_room_def Let_def case_prod_unfold)
next
  case (Mg_reap c ttl now p)
  have "account_ok (snd (reap_collect ttl now protd (mg_state mg)))" for protd
    using rp.account_kept [OF assms(1)] by (metis prod.collapse)
  then show ?thesis using Mg_reap by (simp add: reap_def Let_def case_prod_unfold)
next
  case (Mg_evict_budget c now p)
  have "account_ok (snd (evict_pick cfg protd (mg_state mg)))" for protd
    using ev.account_kept [OF assms(1)] by (metis prod.collapse)
  then show ?thesis using Mg_evict_budget by (simp add: evict_budget_def Let_def case_prod_unfold)
next
  case (Mg_reclaim_under_pressure free c)
  then show ?thesis using reclaim_strays_account [OF assms(1)] assms(1)
    by (simp add: reclaim_under_pressure_def Let_def case_prod_unfold)
qed

lemma delete_victims_file:
  "map_of (mg_dir (delete_victims c vs mg)) f
     = (if f \<in> fst ` set vs \<and> \<not> is_meta_store_path f then None else map_of (mg_dir mg) f)"
  by (force simp: delete_victims_def file_path_def)

subsection \<open>Properties\<close>



text \<open>
  A tombstone installed over a row that has bytes leaves them in the byte total: the total
  then exceeds the rows by the replaced row's size, for as long as the process runs.
\<close>

lemma tombstone_leaks_bytes:
  assumes "account_ok (mg_state mg)" and "map_of (cs_entries (mg_state mg)) key = Some m"
  shows "cs_total_bytes (mg_state (install_negative cfg commits key uid now mg))
    = entry_bytes (mg_state (install_negative cfg commits key uid now mg)) + em_size_bytes m"
  using install_negative_state [OF assms(1), of cfg commits key uid now] assms(2) by simp

text \<open>
  the budget sweep brings the magazine inside both budgets or leaves no row it may take;
  it takes only live rows that are neither protected nor larger than the whole budget, and
  every row it takes is at least as old as every row it leaves.
\<close>

lemma evict_pick_correct:
  assumes "account_ok st" and "evict_pick cfg protd st = (vs, st')"
  shows "((resident_bytes_of st' \<le> max_size_bytes cfg \<and> (max_entries cfg > 0 \<longrightarrow> length (cs_entries st') \<le> max_entries cfg))
        \<or> (\<forall>k m. map_of (cs_entries st') k = Some m \<longrightarrow> \<not> evict_ok protd k m))
    \<and> (\<forall>(k, sz)\<in>set vs. \<exists>m. map_of (cs_entries st) k = Some m \<and> em_size_bytes m = sz \<and> evict_ok protd k m
        \<and> (\<forall>k' m'. map_of (cs_entries st') k' = Some m' \<and> evict_ok protd k' m'
             \<longrightarrow> eligible_at m (inactive_ttl_secs cfg) \<le> eligible_at m' (inactive_ttl_secs cfg)))"
proof -
  have wf: "hm_wf (cs_entries st)" using assms(1) by (simp add: account_ok_def)
  have "\<exists>m. map_of (cs_entries st) k = Some m \<and> em_size_bytes m = sz \<and> evict_ok protd k m
        \<and> (\<forall>k' m'. map_of (cs_entries st') k' = Some m' \<and> evict_ok protd k' m'
             \<longrightarrow> eligible_at m (inactive_ttl_secs cfg) \<le> eligible_at m' (inactive_ttl_secs cfg))"
    if v: "(k, sz) \<in> set vs" for k sz
    using ev.pick_rows [OF wf assms(2) v] evict_pick_oldest [OF wf assms(2) v] by blast
  then show ?thesis using evict_pick_budget [OF assms] by blast
qed

lemma evict_pick_correct_witness:
  "resident_bytes_of (snd (evict_pick config_default [] \<lparr>cs_entries = [], cs_total_bytes = 0, cs_segment_sweep_at_millis = 0\<rparr>))
     \<le> max_size_bytes config_default"
proof -
  let ?st = "\<lparr>cs_entries = [], cs_total_bytes = 0, cs_segment_sweep_at_millis = 0\<rparr>"
  have "account_ok ?st" by (simp add: account_ok_def entry_bytes_def)
  moreover have "evict_pick config_default [] ?st = ([], ?st)"
    by (simp add: evict_pick_def resident_bytes_of_def)
  ultimately have "(resident_bytes_of ?st \<le> max_size_bytes config_default \<and> (max_entries config_default > 0 \<longrightarrow> length (cs_entries ?st) \<le> max_entries config_default))
        \<or> (\<forall>k m. map_of (cs_entries ?st) k = Some m \<longrightarrow> \<not> evict_ok [] k m)"
    using evict_pick_correct by blast
  then show ?thesis by (simp add: evict_pick_def resident_bytes_of_def)
qed

text \<open>
  A budget pass and an expiry pass leave a key in use alone: its row stays in memory and
  its file stays on disk; and no pass ever deletes a file of the metadata store.
\<close>

lemma passes_spare_in_use:
  assumes "account_ok (mg_state mg)" and "wf_protection p" and "in_use p k now"
    and "map_of (cs_entries (mg_state mg)) k = Some m" and "em_negative_until_millis m = None"
    and "mg' = fst (evict_budget cfg c now p mg) \<or> mg' = fst (reap c ttl now p mg)"
  shows "map_of (cs_entries (mg_state mg')) k = Some m
    \<and> map_of (mg_dir mg') (file_path k) = map_of (mg_dir mg) (file_path k)
    \<and> (is_meta_store_path f \<longrightarrow> map_of (mg_dir mg') f = map_of (mg_dir mg) f)"
proof -
  have wf: "hm_wf (cs_entries (mg_state mg))" using assms(1) by (simp add: account_ok_def)
  have prot: "k \<in> set (fst (spared now p))" using prot.sp_iff [OF assms(2)] assms(3) by blast
  show ?thesis using assms(6)
  proof
    assume mg': "mg' = fst (evict_budget cfg c now p mg)"
    obtain vs st' where pick: "evict_pick cfg (fst (spared now p)) (mg_state mg) = (vs, st')" by fastforce
    have no: "\<not> evict_ok (fst (spared now p)) k m" using prot by (simp add: evict_ok_def)
    have "k \<notin> fst ` set vs" using ev.pick_rows [OF wf pick] no assms(4) by fastforce
    then show ?thesis using ev.spared_stays [OF wf pick assms(4) no] pick
      by (simp add: mg' evict_budget_def Let_def case_prod_unfold delete_victims_file file_path_def)
  next
    assume mg': "mg' = fst (reap c ttl now p mg)"
    obtain vs st' where pick: "reap_collect ttl now (fst (spared now p)) (mg_state mg) = (vs, st')" by fastforce
    have no: "\<not> reap_ok ttl now (fst (spared now p)) k m" using prot assms(5) by (simp add: reap_ok_def)
    have "k \<notin> fst ` set vs" using rp.pick_rows [OF wf pick] no assms(4) by fastforce
    then show ?thesis using rp.spared_stays [OF wf pick assms(4) no] pick
      by (simp add: mg' reap_def Let_def case_prod_unfold delete_victims_file file_path_def)
  qed
qed

lemma passes_spare_in_use_witness:
  "map_of (cs_entries (mg_state (fst (reap True 1 1000000
       \<lparr>p_leases = lease_acquire ''k'' (leases_new 10), p_watches = watches_new 10 64\<rparr>
       \<lparr>mg_state = \<lparr>cs_entries = [(''k'', new_entry ''k'' ''u''
          \<lparr>om_size_bytes = 7, om_etag = None, om_last_modified = None, om_mime_hint = None\<rparr> 5 False
          \<lparr>cs_entries = [], cs_total_bytes = 0, cs_segment_sweep_at_millis = 0\<rparr>)], cs_total_bytes = 7,
        cs_segment_sweep_at_millis = 0\<rparr>, mg_meta = [], mg_dir = []\<rparr>)))) ''k''
   = Some (new_entry ''k'' ''u'' \<lparr>om_size_bytes = 7, om_etag = None, om_last_modified = None, om_mime_hint = None\<rparr> 5 False
          \<lparr>cs_entries = [], cs_total_bytes = 0, cs_segment_sweep_at_millis = 0\<rparr>)"
  by (rule passes_spare_in_use [THEN conjunct1, OF _ _ _ _ _ disjI2 [OF refl]])
     (simp_all add: account_ok_def entry_bytes_def new_entry_def hm_wf_def wf_protection_def in_use_def
        is_protected_def lease_acquire_def leases_new_def lease_default_def protected_entry_def watches_new_def
        hm_put_def hm_del_def Let_def)

end
