(* ===== verification/Net.thy ===== *)
theory Net
  imports Prelude
begin

text \<open>
  Host classification, \<^verbatim>\<open>src/net.rs\<close>, with the parts of the standard library it uses: trimming,
  ASCII lower case and the textual IPv4 and IPv6 addresses of \<^verbatim>\<open>IpAddr::from_str\<close>.
\<close>

subsection \<open>Trimming and case\<close>

text \<open>The UTF-8 encodings of the white space characters.\<close>

definition ws_chars :: "string list" where
  "ws_chars =
     map (\<lambda>n. [char_of n]) [9, 10, 11, 12, 13, 32 :: nat]
     @ map (map char_of) ([[194, 133], [194, 160], [225, 154, 128], [226, 128, 168], [226, 128, 169],
          [226, 128, 175], [226, 129, 159], [227, 128, 128]] :: nat list list)
     @ map (\<lambda>n. map char_of [226, 128, n]) [128..<139 :: nat]"

function strip_starts :: "string list \<Rightarrow> string \<Rightarrow> string" where
  "strip_starts ws s =
     (case find (\<lambda>w. w \<noteq> [] \<and> starts_with s w) ws of
        None \<Rightarrow> s
      | Some w \<Rightarrow> strip_starts ws (drop (length w) s))"
  by pat_completeness auto
termination
  by (relation "measure (length \<circ> snd)") (auto simp: find_Some_iff starts_with_iff)

declare strip_starts.simps [simp del]

definition trim :: "string \<Rightarrow> string" where
  "trim s = rev (strip_starts (map rev ws_chars) (rev (strip_starts ws_chars s)))"

definition trim_brackets :: "string \<Rightarrow> string" where
  "trim_brackets s =
     (let b = (\<lambda>c. c = CHR ''['' \<or> c = CHR '']'')
      in rev (dropWhile b (rev (dropWhile b s))))"

definition to_ascii_lowercase :: "string \<Rightarrow> string" where
  "to_ascii_lowercase s =
     map (\<lambda>c. let n = of_char c :: nat in if 65 \<le> n \<and> n \<le> 90 then char_of (n + 32) else c) s"

definition ends_with :: "string \<Rightarrow> string \<Rightarrow> bool" where
  "ends_with s p = starts_with (rev s) (rev p)"

subsection \<open>Addresses\<close>

definition hex_digit :: "char \<Rightarrow> nat option" where
  "hex_digit c =
     (let n = of_char c in
      if 48 \<le> n \<and> n \<le> 57 then Some (n - 48)
      else if 97 \<le> n \<and> n \<le> 102 then Some (n - 97 + 10)
      else if 65 \<le> n \<and> n \<le> 70 then Some (n - 65 + 10)
      else None)"

text \<open>One decimal octet: one to three digits, no leading zero, below 256; and what follows it.\<close>

definition octet :: "string \<Rightarrow> (nat \<times> string) option" where
  "octet s =
     (let ds = takeWhile (\<lambda>c. digit_of c \<noteq> None) s;
          rest = drop (length ds) s
      in if ds = [] \<or> length ds > 3 \<or> (length ds > 1 \<and> hd ds = CHR ''0'') then None
         else case parse_digits 0 ds of
                Some n \<Rightarrow> if n < 256 then Some (n, rest) else None
              | None \<Rightarrow> None)"

definition expect :: "char \<Rightarrow> string \<Rightarrow> string option" where
  "expect c s = (case s of x # xs \<Rightarrow> if x = c then Some xs else None | [] \<Rightarrow> None)"

definition read_v4 :: "string \<Rightarrow> (nat list \<times> string) option" where
  "read_v4 s =
     Option.bind (octet s) (\<lambda>(a, s1). Option.bind (expect CHR ''.'' s1) (\<lambda>s2.
     Option.bind (octet s2) (\<lambda>(b, s3). Option.bind (expect CHR ''.'' s3) (\<lambda>s4.
     Option.bind (octet s4) (\<lambda>(c, s5). Option.bind (expect CHR ''.'' s5) (\<lambda>s6.
     Option.bind (octet s6) (\<lambda>(d, s7). Some ([a, b, c, d], s7))))))))"

text \<open>One group: one to four hexadecimal digits.\<close>

definition read_group :: "string \<Rightarrow> (nat \<times> string) option" where
  "read_group s =
     (let ds = takeWhile (\<lambda>c. hex_digit c \<noteq> None) s
      in if ds = [] \<or> length ds > 4 then None
         else Some (foldl (\<lambda>n c. n * 16 + the (hex_digit c)) 0 ds, drop (length ds) s))"

text \<open>
  Up to \<open>limit\<close> groups, separated by colons; the last two may be an IPv4 address. Returns the
  groups, whether they ended in one, and the rest.
\<close>

function read_groups :: "nat \<Rightarrow> nat \<Rightarrow> string \<Rightarrow> nat list \<times> bool \<times> string" where
  "read_groups i limit s =
     (if i \<ge> limit then ([], False, s)
      else let sep = (if i = 0 then Some s else expect CHR '':'' s);
               v4 = (if i < limit - 1 then Option.bind sep read_v4 else None)
           in case v4 of
                Some (bs, rest) \<Rightarrow> ([bs ! 0 * 256 + bs ! 1, bs ! 2 * 256 + bs ! 3], True, rest)
              | None \<Rightarrow>
                  (case Option.bind sep read_group of
                     None \<Rightarrow> ([], False, s)
                   | Some (g, rest) \<Rightarrow>
                       (let (gs, v, rest') = read_groups (i + 1) limit rest in (g # gs, v, rest'))))"
  by pat_completeness auto
termination
  by (relation "measure (\<lambda>(i, limit, _). limit - i)") auto

declare read_groups.simps [simp del]

definition read_v6 :: "string \<Rightarrow> (nat list \<times> string) option" where
  "read_v6 s =
     (let (hd_gs, v4, rest) = read_groups 0 8 s
      in if length hd_gs = 8 then Some (hd_gs, rest)
         else if v4 then None
         else Option.bind (expect CHR '':'' rest) (\<lambda>r1. Option.bind (expect CHR '':'' r1) (\<lambda>r2.
                let (tl_gs, _, rest') = read_groups 0 (8 - (length hd_gs + 1)) r2
                in Some (hd_gs @ replicate (8 - length hd_gs - length tl_gs) 0 @ tl_gs, rest'))))"

definition v4_is_loopback :: "nat list \<Rightarrow> bool" where
  "v4_is_loopback bs = (bs ! 0 = 127)"

definition v6_is_loopback :: "nat list \<Rightarrow> bool" where
  "v6_is_loopback gs = (gs = [0, 0, 0, 0, 0, 0, 0, 1])"

definition to_ipv4_mapped :: "nat list \<Rightarrow> nat list option" where
  "to_ipv4_mapped gs =
     (if take 6 gs = [0, 0, 0, 0, 0, 65535]
      then Some [gs ! 6 div 256, gs ! 6 mod 256, gs ! 7 div 256, gs ! 7 mod 256] else None)"

datatype ip_addr = V4 "nat list" | V6 "nat list"

definition parse_ip :: "string \<Rightarrow> ip_addr option" where
  "parse_ip s =
     (case read_v4 s of
        Some (bs, rest) \<Rightarrow> if rest = [] then Some (V4 bs) else None
      | None \<Rightarrow>
          (case read_v6 s of
             Some (gs, rest) \<Rightarrow> if rest = [] then Some (V6 gs) else None
           | None \<Rightarrow> None))"

subsection \<open>The predicate\<close>

definition is_loopback_v4 :: "nat list \<Rightarrow> bool" where
  "is_loopback_v4 bs = v4_is_loopback bs"

definition is_loopback_v6 :: "nat list \<Rightarrow> bool" where
  "is_loopback_v6 gs =
     (v6_is_loopback gs \<or> (case to_ipv4_mapped gs of Some bs \<Rightarrow> v4_is_loopback bs | None \<Rightarrow> False))"

definition is_loopback_host :: "string \<Rightarrow> bool" where
  "is_loopback_host host =
     (let h = trim_brackets (trim host)
      in if h = [] then False
         else let lower = to_ascii_lowercase h
              in if lower = ''localhost'' \<or> ends_with lower ''.localhost'' then True
                 else case parse_ip h of
                        Some (V4 bs) \<Rightarrow> v4_is_loopback bs
                      | Some (V6 gs) \<Rightarrow> v6_is_loopback gs
                          \<or> (case to_ipv4_mapped gs of Some bs \<Rightarrow> v4_is_loopback bs | None \<Rightarrow> False)
                      | None \<Rightarrow> False)"

subsection \<open>Lemmas\<close>

lemma ends_with_iff: "ends_with s p \<longleftrightarrow> (\<exists>t. s = t @ p)"
  by (auto simp: ends_with_def starts_with_iff) (metis rev_append rev_rev_ident)

lemma is_loopback_host_iff:
  "is_loopback_host host \<longleftrightarrow>
     (\<exists>p. to_ascii_lowercase (trim_brackets (trim host)) = p @ ''localhost'' \<and> (p = [] \<or> List.last p = CHR ''.''))
     \<or> (\<exists>bs. parse_ip (trim_brackets (trim host)) = Some (V4 bs) \<and> v4_is_loopback bs)
     \<or> (\<exists>gs. parse_ip (trim_brackets (trim host)) = Some (V6 gs) \<and> is_loopback_v6 gs)" (is "_ \<longleftrightarrow> ?R")
proof -
  define h where "h = trim_brackets (trim host)"
  have dot: "(lower = ''localhost'' \<or> ends_with lower ''.localhost'') \<longleftrightarrow>
      (\<exists>p. lower = p @ ''localhost'' \<and> (p = [] \<or> List.last p = CHR ''.''))" for lower
  proof
    assume "lower = ''localhost'' \<or> ends_with lower ''.localhost''"
    then show "\<exists>p. lower = p @ ''localhost'' \<and> (p = [] \<or> List.last p = CHR ''.'')"
    proof
      assume "ends_with lower ''.localhost''"
      then obtain t where "lower = t @ ''.localhost''" by (auto simp: ends_with_iff)
      then show ?thesis by (intro exI [of _ "t @ ''.''"]) simp
    qed simp
  next
    assume "\<exists>p. lower = p @ ''localhost'' \<and> (p = [] \<or> List.last p = CHR ''.'')"
    then obtain p where p: "lower = p @ ''localhost''" "p = [] \<or> List.last p = CHR ''.''" by blast
    show "lower = ''localhost'' \<or> ends_with lower ''.localhost''"
    proof (cases "p = []")
      case False
      then have "p = butlast p @ [CHR ''.'']" using p(2) append_butlast_last_id by metis
      then have "lower = butlast p @ ''.localhost''" using p(1) by (metis append.assoc append_Cons append_Nil)
      then show ?thesis by (auto simp: ends_with_iff)
    qed (use p in simp)
  qed
  show ?thesis
  proof (cases "h = []")
    case True
    have "parse_ip [] = None" by code_simp
    then show ?thesis using True by (simp add: is_loopback_host_def h_def [symmetric] to_ascii_lowercase_def)
  next
    case False
    then show ?thesis
      unfolding is_loopback_host_def Let_def h_def [symmetric] dot [of "to_ascii_lowercase h"]
      by (auto simp: is_loopback_v6_def split: option.splits ip_addr.splits)
  qed
qed

text \<open>White space lies outside the printable ASCII characters, so text made of those is left alone.\<close>

definition printable :: "string \<Rightarrow> bool" where
  "printable s = list_all (\<lambda>c. 33 \<le> (of_char c :: nat) \<and> (of_char c :: nat) \<le> 126) s"

lemma ws_not_printable: "w \<in> set ws_chars \<Longrightarrow> c \<in> set w \<Longrightarrow> \<not> (33 \<le> (of_char c :: nat) \<and> (of_char c :: nat) \<le> 126)"
  by (auto simp: ws_chars_def)

lemma no_ws_prefix:
  assumes "printable s" "set ws \<subseteq> set ws_chars \<union> set (map rev ws_chars)"
  shows "find (\<lambda>w. w \<noteq> [] \<and> starts_with s w) ws = None"
proof -
  have "\<not> starts_with s w" if w: "w \<in> set ws" "w \<noteq> []" for w
  proof
    assume "starts_with s w"
    then have "hd w \<in> set s"
      using w(2) by (auto simp: starts_with_iff)
    then have "33 \<le> (of_char (hd w) :: nat) \<and> (of_char (hd w) :: nat) \<le> 126"
      using assms(1) unfolding printable_def list_all_iff by blast
    moreover obtain v where "v \<in> set ws_chars" "set w = set v"
      using assms(2) w(1) by fastforce
    moreover have "hd w \<in> set w"
      using w(2) by simp
    ultimately show False
      using ws_not_printable by blast
  qed
  then show ?thesis
    by (auto simp: find_None_iff)
qed

lemma trim_printable:
  assumes "printable s"
  shows "trim s = s"
proof -
  have "printable (rev s)"
    using assms by (simp add: printable_def)
  have "strip_starts ws t = t" if "printable t" "set ws \<subseteq> set ws_chars \<union> set (map rev ws_chars)" for ws t
    by (subst strip_starts.simps) (simp only: no_ws_prefix[OF that] option.case)
  from this[OF assms] this[OF \<open>printable (rev s)\<close>] show ?thesis
    by (simp add: trim_def)
qed

end
