(* ===== verification/Backend.thy ===== *)
theory Backend
  imports Net Client_Range
begin

text \<open>
  The provider interface of \<^verbatim>\<open>src/backend/mod.rs\<close>: its errors, which direct links a viewer may
  be redirected to, and the retry policy around every provider call.

  A provider call is the sequence of its outcomes; the clock behind the jitter is an argument.
\<close>

datatype backend_error =
    NotFound
  | RateLimited "u64 option"
  | ServerError string
  | AuthRequired
  | RangeNotSatisfiable
  | BackendOther string

definition authority_host :: "string \<Rightarrow> string" where
  "authority_host auth =
     (case strip_prefix ''['' auth of
        Some s \<Rightarrow> hd (split_on CHR '']'' s)
      | None \<Rightarrow> hd (split_on CHR '':'' auth))"

text \<open>\<^verbatim>\<open>split_once("://")\<close>\<close>

fun split_scheme :: "string \<Rightarrow> (string \<times> string) option" where
  "split_scheme [] = None"
| "split_scheme (c # cs) =
     (if starts_with (c # cs) ''://'' then Some ([], drop 3 (c # cs))
      else map_option (\<lambda>(a, b). (c # a, b)) (split_scheme cs))"

definition redirect_target_allowed :: "string \<Rightarrow> bool" where
  "redirect_target_allowed url =
     (case split_scheme url of
        None \<Rightarrow> False
      | Some (scheme, rest) \<Rightarrow>
          (let https = (to_ascii_lowercase scheme = ''https'');
               http = (to_ascii_lowercase scheme = ''http'')
           in if \<not> https \<and> \<not> http then False
              else let auth = hd (split_on CHR ''/'' rest)
                   in if auth = [] \<or> CHR 0x40 \<in> set auth then False
                      else if https then True
                      else is_loopback_host (authority_host auth)))"

subsection \<open>Retries\<close>

record retry_policy =
  rt_max_attempts :: nat
  rt_base_ms :: u64
  rt_max_ms :: u64

definition retry_none :: retry_policy where
  "retry_none = \<lparr>rt_max_attempts = 1, rt_base_ms = 0, rt_max_ms = 0\<rparr>"

definition allows :: "retry_policy \<Rightarrow> nat \<Rightarrow> bool" where
  "allows p attempt = (attempt < max (rt_max_attempts p) 1)"

definition jitter_ms :: "nat \<Rightarrow> u64 \<Rightarrow> u64" where
  "jitter_ms nanos ms = (if ms = 0 then 0 else nanos mod max (ms div 4) 1)"

definition delay :: "retry_policy \<Rightarrow> nat \<Rightarrow> nat \<Rightarrow> u64 option \<Rightarrow> u64" where
  "delay p nanos attempt retry_after =
     (case retry_after of
        Some ms \<Rightarrow> ms
      | None \<Rightarrow>
          (let ex = sat_mul (rt_base_ms p) (2 ^ min (attempt - 1) 16);
               capped = min ex (rt_max_ms p)
           in sat_add capped (jitter_ms nanos capped)))"

definition worth_waiting :: "retry_policy \<Rightarrow> u64 option \<Rightarrow> bool" where
  "worth_waiting p retry_after =
     (case retry_after of Some ms \<Rightarrow> rt_max_ms p = 0 \<or> ms \<le> rt_max_ms p | None \<Rightarrow> True)"

fun is_retryable :: "backend_error \<Rightarrow> bool" where
  "is_retryable (RateLimited _) = True"
| "is_retryable (ServerError _) = True"
| "is_retryable _ = False"

fun retry_after_of :: "backend_error \<Rightarrow> u64 option" where
  "retry_after_of (RateLimited ra) = ra"
| "retry_after_of _ = None"

text \<open>
  \<open>call n\<close> is the outcome of call number \<open>n\<close>, counted from 1; \<open>nanos n\<close> is the clock at the wait
  after it. Returns the result, the number of calls made and the waits between them.
\<close>

function attempt_from ::
  "retry_policy \<Rightarrow> (nat \<Rightarrow> nat) \<Rightarrow> (nat \<Rightarrow> backend_error + 'a) \<Rightarrow> nat \<Rightarrow> (backend_error + 'a) \<times> nat \<times> u64 list" where
  "attempt_from p nanos call n =
     (case call n of
        Inr v \<Rightarrow> (Inr v, n, [])
      | Inl e \<Rightarrow>
          (if \<not> is_retryable e \<or> \<not> allows p n then (Inl e, n, [])
           else if \<not> worth_waiting p (retry_after_of e) then (Inl e, n, [])
           else let (res, m, ds) = attempt_from p nanos call (n + 1)
                in (res, m, delay p (nanos n) n (retry_after_of e) # ds)))"
  by pat_completeness auto
termination
  by (relation "measure (\<lambda>(p, _, _, n). max (rt_max_attempts p) 1 - n)") (auto simp: allows_def)

declare attempt_from.simps [simp del]

definition attempt ::
  "retry_policy \<Rightarrow> (nat \<Rightarrow> nat) \<Rightarrow> (nat \<Rightarrow> backend_error + 'a) \<Rightarrow> (backend_error + 'a) \<times> nat \<times> u64 list" where
  "attempt p nanos call = attempt_from p nanos call 1"

subsection \<open>Lemmas\<close>

lemma delay_bound:
  assumes "worth_waiting p ra"
  shows "case ra of Some ms \<Rightarrow> delay p nanos n ra = ms \<and> (rt_max_ms p = 0 \<or> ms \<le> rt_max_ms p)
    | None \<Rightarrow> delay p nanos n ra \<le> rt_max_ms p + rt_max_ms p div 4"
proof (cases ra)
  case None
  define c where "c = min (sat_mul (rt_base_ms p) (2 ^ min (n - 1) 16)) (rt_max_ms p)"
  have j: "jitter_ms nanos c \<le> c div 4"
  proof (cases "c div 4 = 0")
    case True
    then show ?thesis by (auto simp: jitter_ms_def)
  next
    case False
    then have "nanos mod max (c div 4) 1 < c div 4" by (simp add: max_def)
    then show ?thesis by (simp add: jitter_ms_def)
  qed
  have c: "c \<le> rt_max_ms p" by (simp add: c_def)
  have "delay p nanos n ra = sat_add c (jitter_ms nanos c)"
    unfolding delay_def Let_def c_def using None by (simp only: option.case)
  also have "\<dots> \<le> c + c div 4" using j sat_add_le_sum [of c "jitter_ms nanos c"] by linarith
  also have "\<dots> \<le> rt_max_ms p + rt_max_ms p div 4" using c div_le_mono [OF c, of 4] by linarith
  finally show ?thesis using None by (simp only: option.case)
next
  case (Some ms)
  then show ?thesis using assms by (simp add: delay_def worth_waiting_def)
qed

lemma attempt_from_spec:
  assumes "attempt_from p nanos call n = (res, m, ds)" and "n \<le> max (rt_max_attempts p) 1"
  shows "n \<le> m \<and> m \<le> max (rt_max_attempts p) 1 \<and> length ds = m - n \<and> call m = res
    \<and> (\<forall>i. n \<le> i \<and> i < m \<longrightarrow> (\<exists>e. call i = Inl e \<and> is_retryable e \<and> worth_waiting p (retry_after_of e)
          \<and> ds ! (i - n) = delay p (nanos i) i (retry_after_of e)))
    \<and> (\<forall>e. res = Inl e \<longrightarrow> \<not> is_retryable e \<or> m = max (rt_max_attempts p) 1 \<or> \<not> worth_waiting p (retry_after_of e))"
  using assms
proof (induction p nanos call n arbitrary: ds rule: attempt_from.induct)
  case (1 p nanos call n)
  show ?case
  proof (cases "\<exists>e. call n = Inl e \<and> is_retryable e \<and> allows p n \<and> worth_waiting p (retry_after_of e)")
    case False
    then have "res = call n" "m = n" "ds = []"
      using "1.prems"(1) by (auto simp: attempt_from.simps [of p nanos call n] split: sum.splits if_splits)
    then show ?thesis using False "1.prems"(2) by (auto simp: allows_def)
  next
    case True
    then obtain e where e: "call n = Inl e" "is_retryable e" "allows p n" "worth_waiting p (retry_after_of e)" by blast
    obtain ds' where rec: "attempt_from p nanos call (n + 1) = (res, m, ds')"
      and ds: "ds = delay p (nanos n) n (retry_after_of e) # ds'"
      using "1.prems"(1) e by (auto simp: attempt_from.simps [of p nanos call n] split: prod.splits)
    have "n + 1 \<le> max (rt_max_attempts p) 1" using e(3) by (simp add: allows_def)
    note IH = "1.IH" [OF e(1) _ _ rec this]
    have IH: "n + 1 \<le> m \<and> m \<le> max (rt_max_attempts p) 1 \<and> length ds' = m - (n + 1) \<and> call m = res
      \<and> (\<forall>i. n + 1 \<le> i \<and> i < m \<longrightarrow> (\<exists>e. call i = Inl e \<and> is_retryable e \<and> worth_waiting p (retry_after_of e)
          \<and> ds' ! (i - (n + 1)) = delay p (nanos i) i (retry_after_of e)))
      \<and> (\<forall>e. res = Inl e \<longrightarrow> \<not> is_retryable e \<or> m = max (rt_max_attempts p) 1 \<or> \<not> worth_waiting p (retry_after_of e))"
      using IH e by simp
    have "\<exists>e. call i = Inl e \<and> is_retryable e \<and> worth_waiting p (retry_after_of e)
          \<and> ds ! (i - n) = delay p (nanos i) i (retry_after_of e)" if "n \<le> i" "i < m" for i
    proof (cases "i = n")
      case False
      then have "i - n = Suc (i - (n + 1))" using that by simp
      then show ?thesis using IH that False ds by auto
    qed (use e ds in simp)
    then show ?thesis using IH ds by auto
  qed
qed

subsection \<open>Properties\<close>

text \<open>
  C22: a provider call is made at most the configured number of times (at least once) and its
  result is that of the last call made. Only throttling and server errors are tried again;
  the wait before another call is the provider's Retry-After exactly, which is never above the
  ceiling when there is one, or else at most the ceiling plus a quarter of it.
\<close>

theorem retry_bounded:
  assumes "attempt p nanos call = (res, m, ds)"
  shows "1 \<le> m \<and> m \<le> max (rt_max_attempts p) 1 \<and> call m = res \<and> length ds = m - 1
    \<and> (\<forall>i. 1 \<le> i \<and> i < m \<longrightarrow> (\<exists>e. call i = Inl e \<and> is_retryable e
        \<and> (case retry_after_of e of
             Some ms \<Rightarrow> ds ! (i - 1) = ms \<and> (rt_max_ms p = 0 \<or> ms \<le> rt_max_ms p)
           | None \<Rightarrow> ds ! (i - 1) \<le> rt_max_ms p + rt_max_ms p div 4)))
    \<and> (\<forall>e. res = Inl e \<and> is_retryable e \<and> worth_waiting p (retry_after_of e) \<longrightarrow> m = max (rt_max_attempts p) 1)"
proof -
  have one: "1 \<le> max (rt_max_attempts p) 1" by simp
  note S = attempt_from_spec [OF assms [unfolded attempt_def] one]
  have "\<exists>e. call i = Inl e \<and> is_retryable e
        \<and> (case retry_after_of e of
             Some ms \<Rightarrow> ds ! (i - 1) = ms \<and> (rt_max_ms p = 0 \<or> ms \<le> rt_max_ms p)
           | None \<Rightarrow> ds ! (i - 1) \<le> rt_max_ms p + rt_max_ms p div 4)" if i: "1 \<le> i" "i < m" for i
  proof -
    obtain e where e: "call i = Inl e" "is_retryable e" "worth_waiting p (retry_after_of e)"
      "ds ! (i - 1) = delay p (nanos i) i (retry_after_of e)" using S i by blast
    then show ?thesis using delay_bound [OF e(3), of "nanos i" i]
      by (intro exI [of _ e]) (simp split: option.splits)
  qed
  then show ?thesis using S by blast
qed

theorem retry_bounded_witness:
  "attempt \<lparr>rt_max_attempts = 3, rt_base_ms = 200, rt_max_ms = 30000\<rparr> (\<lambda>_. 0)
      (\<lambda>n. if n = 1 then Inl (RateLimited (Some 50)) else Inr (7 :: nat)) = (Inr 7, 2, [50])
   \<and> (\<exists>e. (if (1 :: nat) = 1 then Inl (RateLimited (Some 50)) else Inr (7 :: nat)) = Inl e \<and> is_retryable e
        \<and> (case retry_after_of e of
             Some ms \<Rightarrow> [50] ! 0 = ms \<and> ((30000 :: nat) = 0 \<or> ms \<le> 30000)
           | None \<Rightarrow> [50] ! 0 \<le> 30000 + 30000 div (4 :: nat)))"
proof -
  let ?p = "\<lparr>rt_max_attempts = 3, rt_base_ms = 200, rt_max_ms = 30000\<rparr>"
  let ?call = "\<lambda>n :: nat. if n = 1 then Inl (RateLimited (Some 50)) else Inr (7 :: nat)"
  have run: "attempt ?p (\<lambda>_. 0) ?call = (Inr 7, 2, [50])"
    unfolding attempt_def attempt_from.simps [of ?p "\<lambda>_. 0" ?call 1]
    by (simp add: allows_def worth_waiting_def delay_def) (subst attempt_from.simps, simp)
  from retry_bounded [OF this] have "\<forall>i. 1 \<le> i \<and> i < 2 \<longrightarrow> (\<exists>e. ?call i = Inl e \<and> is_retryable e
        \<and> (case retry_after_of e of
             Some ms \<Rightarrow> [50] ! (i - 1) = ms \<and> (rt_max_ms ?p = 0 \<or> ms \<le> rt_max_ms ?p)
           | None \<Rightarrow> [50] ! (i - 1) \<le> rt_max_ms ?p + rt_max_ms ?p div 4))" by blast
  from this [rule_format, of 1] run show ?thesis by simp
qed

end
