(* ===== verification/Flight.thy ===== *)
theory Flight
  imports Staging Magazine Backend
begin

text \<open>
  Downloads in flight: \<^verbatim>\<open>src/cache/flight.rs\<close> and the upstream half of a ranged response,
  \<^verbatim>\<open>src/cache/ranged.rs\<close>.

  A provider stream is the list of what its reads deliver: chunks and possibly an error. A
  read takes at most its buffer from the next chunk; no chunk left, or an empty one, is the end
  of the stream. File-system failures of the pump are an argument (\<open>pump_io\<close>). Error
  messages are abbreviated to their fixed part.

  The reader of a growing file runs beside the writer, so the two are an inductive step
  relation, one step per file-system call or channel access.
\<close>

definition PUBLISH_INTERVAL :: u64 where
  "PUBLISH_INTERVAL = 1024 * 1024"

definition CHUNK :: nat where
  "CHUNK = 256 * 1024"

datatype flight_progress =
    Pending
  | Meta object_meta
  | Growing u64
  | Done
  | Failed backend_error

subsection \<open>Provider streams\<close>

datatype src_event = Chunk "byte list" | Read_error string

record stream_source =
  ss_stream :: "src_event list"
  ss_promised_len :: "u64 option"

fun read_stream :: "nat \<Rightarrow> src_event list \<Rightarrow> (string + byte list) \<times> src_event list" where
  "read_stream allow [] = (Inr [], [])"
| "read_stream allow (Read_error e # evs) = (Inl e, [])"
| "read_stream allow (Chunk bs # evs) =
     (if length bs \<le> allow then (Inr bs, evs)
      else (Inr (take allow bs), Chunk (drop allow bs) # evs))"

fun event_weight :: "src_event \<Rightarrow> nat" where
  "event_weight (Chunk bs) = Suc (length bs)"
| "event_weight (Read_error e) = 1"

lemma read_stream_shrinks:
  "read_stream allow evs = (Inr bs, rest) \<Longrightarrow> bs \<noteq> [] \<Longrightarrow>
     sum_list (map event_weight rest) < sum_list (map event_weight evs)"
  by (cases "(allow, evs)" rule: read_stream.cases) (auto split: if_splits)

subsection \<open>The pump\<close>

record pump_io =
  io_create :: bool
  io_write :: "nat \<Rightarrow> bool"
  io_flush :: bool
  io_sync :: bool

text \<open>What the read loop leaves: an error, the bytes in the file, the last watermark published and all of them.\<close>

type_synonym pumped = "backend_error option \<times> byte list \<times> u64 \<times> u64 list"

definition pump_allow :: "u64 option \<Rightarrow> u64 \<Rightarrow> nat" where
  "pump_allow expected written = (case expected of None \<Rightarrow> CHUNK | Some e \<Rightarrow> min (e - written) CHUNK)"

definition publish :: "u64 \<Rightarrow> u64 \<Rightarrow> u64 list \<Rightarrow> u64 \<times> u64 list" where
  "publish written published pubs =
     (if published = 0 \<or> written - published \<ge> PUBLISH_INTERVAL then (written, pubs @ [written]) else (published, pubs))"

function pump_loop ::
  "u64 option \<Rightarrow> (nat \<Rightarrow> bool) \<Rightarrow> src_event list \<Rightarrow> byte list \<Rightarrow> u64 \<Rightarrow> u64 list \<Rightarrow> pumped" where
  "pump_loop expected write_ok evs out published pubs =
     (if pump_allow expected (length out) = 0 then (None, out, published, pubs)
      else case read_stream (pump_allow expected (length out)) evs of
             (Inl e, _) \<Rightarrow> (Some (ServerError ''read stream''), out, published, pubs)
           | (Inr bs, rest) \<Rightarrow>
               if bs = [] then (None, out, published, pubs)
               else if \<not> write_ok (length out) then (Some (BackendOther ''write tmp''), out, published, pubs)
               else let (published', pubs') = publish (length out + length bs) published pubs
                    in pump_loop expected write_ok rest (out @ bs) published' pubs')"
  by pat_completeness auto
termination
  by (relation "measure (\<lambda>(_, _, evs, _). sum_list (map event_weight evs))")
     (simp_all add: read_stream_shrinks [OF sym])

declare pump_loop.simps [simp del]

definition pump_and_seal ::
  "pump_io \<Rightarrow> millis option \<Rightarrow> stream_source \<Rightarrow> string \<Rightarrow> string \<Rightarrow> dir \<Rightarrow> (backend_error + unit) \<times> u64 list \<times> dir" where
  "pump_and_seal io mtime src tmp final d =
     (if \<not> io_create io then (Inl (BackendOther ''create tmp''), [], d)
      else case pump_loop (ss_promised_len src) (io_write io) (ss_stream src) [] 0 [] of
             (Some e, _, _, pubs) \<Rightarrow> (Inl e, pubs, remove_file tmp d)
           | (None, out, published, pubs) \<Rightarrow>
               (let written = length out;
                    pubs' = (if written > published then pubs @ [written] else pubs)
                in if (case ss_promised_len src of Some e \<Rightarrow> written < e | None \<Rightarrow> False)
                   then (Inl (ServerError ''upstream short read''), pubs', remove_file tmp d)
                   else if \<not> io_flush io then (Inl (BackendOther ''flush tmp''), pubs', remove_file tmp d)
                   else if \<not> io_sync io then (Inl (BackendOther ''fsync tmp''), pubs', remove_file tmp d)
                   else let d1 = write_file tmp \<lparr>f_data = out, f_mtime = mtime\<rparr> d
                        in case install_tmp tmp final d1 of
                             Some d2 \<Rightarrow> (Inr (), pubs', d2)
                           | None \<Rightarrow> (Inl (BackendOther ''install''), pubs', d1)))"

text \<open>A finished file served from an offset, \<^verbatim>\<open>file_body\<close>; the drained length of a body, \<^verbatim>\<open>drain\<close>.\<close>

definition file_body :: "dir \<Rightarrow> string \<Rightarrow> u64 \<Rightarrow> u64 \<Rightarrow> body" where
  "file_body d path off len =
     (case map_of d path of
        None \<Rightarrow> ([], True)
      | Some f \<Rightarrow> read_piece (drop off (f_data f)) len)"

definition drain :: "body \<Rightarrow> backend_error + u64" where
  "drain b = (if snd b then Inl (ServerError ''body error'') else Inr (\<Sum>c\<leftarrow>fst b. length c))"

subsection \<open>The registry\<close>

text \<open>
  A handle is a number, fresh for every \<^verbatim>\<open>Arc::new\<close>; \<open>fl_running\<close> are the drivers spawned
  and not yet ended.
\<close>

record flights =
  fl_map :: "(string \<times> nat) list"
  fl_next :: nat
  fl_running :: "(nat \<times> string) list"

definition flights_new :: flights where
  "flights_new = \<lparr>fl_map = [], fl_next = 0, fl_running = []\<rparr>"

definition flights_active :: "flights \<Rightarrow> nat" where
  "flights_active fl = length (fl_map fl)"

definition join_or_start :: "string \<Rightarrow> flights \<Rightarrow> nat \<times> flights" where
  "join_or_start key fl =
     (case map_of (fl_map fl) key of
        Some f \<Rightarrow> (f, fl)
      | None \<Rightarrow>
          (fl_next fl, \<lparr>fl_map = hm_put key (fl_next fl) (fl_map fl), fl_next = fl_next fl + 1,
                       fl_running = (fl_next fl, key) # fl_running fl\<rparr>))"

text \<open>The end of a driver's task: it is no longer running and its key leaves the map.\<close>

definition driver_exit :: "nat \<Rightarrow> flights \<Rightarrow> flights" where
  "driver_exit f fl =
     (case map_of (fl_running fl) f of
        None \<Rightarrow> fl
      | Some key \<Rightarrow> fl\<lparr>fl_map := hm_del key (fl_map fl), fl_running := hm_del f (fl_running fl)\<rparr>)"

text \<open>
  A solo driver, \<^verbatim>\<open>spawn_solo\<close>: a fresh handle that nothing can join. (\<^verbatim>\<open>spawn_solo_over\<close> is
  the same over a handle the caller made.)
\<close>

definition spawn_solo :: "flights \<Rightarrow> nat \<times> flights" where
  "spawn_solo fl = (fl_next fl, fl\<lparr>fl_next := fl_next fl + 1\<rparr>)"

fun terminal :: "flight_progress \<Rightarrow> bool" where
  "terminal Done = True"
| "terminal (Failed _) = True"
| "terminal _ = False"

text \<open>
  \<^verbatim>\<open>watch::Sender::send\<close> stores nothing when no receiver is alive. \<open>after_run\<close> is what the
  channel holds when the driver has returned or panicked.
\<close>

definition watch_send :: "bool \<Rightarrow> flight_progress \<Rightarrow> flight_progress \<Rightarrow> flight_progress" where
  "watch_send receivers v stored = (if receivers then v else stored)"

definition drive_guarded :: "bool \<Rightarrow> flight_progress \<Rightarrow> flight_progress" where
  "drive_guarded receivers after_run =
     (if terminal after_run then after_run
      else watch_send receivers (Failed (ServerError ''flight driver died without a terminal state (panic?)'')) after_run)"

subsection \<open>The upstream half of a ranged response\<close>

record stage_sink =
  sk_segpart :: string
  sk_key :: string
  sk_upstream_id :: string
  sk_etag :: "string option"
  sk_total :: u64
  sk_start :: u64

text \<open>
  \<open>staged written\<close> says that the part file takes the chunk read at that offset; creating the
  file is the write at offset 0. A chunk that cannot be staged is not served.
\<close>

function upstream_loop :: "u64 option \<Rightarrow> (nat \<Rightarrow> bool) \<Rightarrow> src_event list \<Rightarrow> nat \<Rightarrow> body" where
  "upstream_loop want staged evs written =
     (if (case want of Some w \<Rightarrow> written \<ge> w | None \<Rightarrow> False) then ([], False)
      else case read_stream CHUNK evs of
             (Inl _, _) \<Rightarrow> ([], True)
           | (Inr bs, rest) \<Rightarrow>
               if bs = [] then ([], False)
               else if \<not> staged written then ([], True)
               else let (cs, err) = upstream_loop want staged rest (written + length bs) in (bs # cs, err))"
  by pat_completeness auto
termination
  by (relation "measure (\<lambda>(_, _, evs, _). sum_list (map event_weight evs))")
     (simp_all add: read_stream_shrinks [OF sym])

declare upstream_loop.simps [simp del]

definition ranged_seal ::
  "config \<Rightarrow> (seg_meta \<Rightarrow> stored_file option) \<Rightarrow> millis \<Rightarrow> stage_sink \<Rightarrow> nat \<Rightarrow> staging \<Rightarrow> staging" where
  "ranged_seal cfg encode now sk written st =
     (if written = 0 then st
      else snd (seal_renamed cfg encode (sk_segpart sk) (seg_path (sk_key sk) (sk_start sk) (sk_start sk + written))
             \<lparr>fs_key = sk_key sk, fs_upstream_id = sk_upstream_id sk, fs_etag = sk_etag sk, fs_total = sk_total sk,
              fs_start = sk_start sk, fs_end = sk_start sk + written, fs_bytes = written, fs_now_millis = now\<rparr> st))"

text \<open>
  The body and what it leaves staged. The part file is created with the first chunk; an error
  leaves it for the sweep, unsealed.
\<close>

definition upstream_body ::
  "config \<Rightarrow> (seg_meta \<Rightarrow> stored_file option) \<Rightarrow> millis \<Rightarrow> (nat \<Rightarrow> bool) \<Rightarrow> src_event list \<Rightarrow> u64 option
     \<Rightarrow> stage_sink option \<Rightarrow> staging \<Rightarrow> body \<times> staging" where
  "upstream_body cfg encode now write_ok evs want sink st =
     (case sink of
        None \<Rightarrow> (upstream_loop want (\<lambda>_. True) evs 0, st)
      | Some sk \<Rightarrow>
          (let (cs, err) = upstream_loop want write_ok evs 0
           in let st1 = (if cs = [] then st
                         else st\<lparr>st_dir := write_file (sk_segpart sk) \<lparr>f_data = concat cs, f_mtime = Some now\<rparr> (st_dir st)\<rparr>)
              in ((cs, err), if err then st1 else ranged_seal cfg encode now sk (length (concat cs)) st1)))"

subsection \<open>What a stream delivers\<close>

text \<open>The bytes before the end of the stream or its first error, and whether an error ends it.\<close>

fun stream_bytes :: "src_event list \<Rightarrow> byte list" where
  "stream_bytes [] = []"
| "stream_bytes (Read_error e # evs) = []"
| "stream_bytes (Chunk bs # evs) = (if bs = [] then [] else bs @ stream_bytes evs)"

fun stream_fails :: "src_event list \<Rightarrow> bool" where
  "stream_fails [] = False"
| "stream_fails (Read_error e # evs) = True"
| "stream_fails (Chunk bs # evs) = (bs \<noteq> [] \<and> stream_fails evs)"

lemma read_stream_error:
  "0 < allow \<Longrightarrow> read_stream allow evs = (Inl e, rest) \<Longrightarrow> stream_bytes evs = [] \<and> stream_fails evs"
  by (cases "(allow, evs)" rule: read_stream.cases) (auto split: if_splits)

lemma read_stream_end:
  "0 < allow \<Longrightarrow> read_stream allow evs = (Inr [], rest) \<Longrightarrow> stream_bytes evs = [] \<and> \<not> stream_fails evs"
  by (cases "(allow, evs)" rule: read_stream.cases) (auto split: if_splits)

lemma read_stream_bytes:
  assumes "0 < allow" "read_stream allow evs = (Inr bs, rest)" "bs \<noteq> []"
  shows "stream_bytes evs = bs @ stream_bytes rest" "stream_fails evs = stream_fails rest" "length bs \<le> allow"
  using assms by (cases "(allow, evs)" rule: read_stream.cases; auto split: if_splits)+

lemma CHUNK_pos [simp]: "0 < CHUNK" "CHUNK \<noteq> 0"
  by (simp_all add: CHUNK_def)

text \<open>Published watermarks rise, none is past the bytes written, the last one is remembered.\<close>

definition watermarks_ok :: "byte list \<Rightarrow> u64 \<Rightarrow> u64 list \<Rightarrow> bool" where
  "watermarks_ok out published pubs =
     (sorted_wrt (<) pubs \<and> published \<le> length out
      \<and> (if pubs = [] then published = 0 \<and> out = [] else published = last pubs \<and> 0 < published))"

lemma watermarks_publish:
  assumes "watermarks_ok out published pubs" "bs \<noteq> []" "publish (length out + length bs) published pubs = (p', ps')"
  shows "watermarks_ok (out @ bs) p' ps'"
proof (cases "ps' = pubs")
  case True
  then show ?thesis using assms by (auto simp: watermarks_ok_def publish_def split: if_splits)
next
  case False
  have "p < length out + length bs" if "p \<in> set pubs" for p
  proof -
    have "p \<le> last pubs" using that assms(1)
      by (cases pubs rule: rev_cases) (auto simp: watermarks_ok_def sorted_wrt_append)
    moreover have "last pubs \<le> length out" using that assms(1) by (auto simp: watermarks_ok_def split: if_splits)
    moreover have "0 < length bs" using assms(2) by simp
    ultimately show ?thesis by linarith
  qed
  then show ?thesis using assms False by (auto simp: watermarks_ok_def publish_def sorted_wrt_append split: if_splits)
qed

lemma watermarks_le: "watermarks_ok out published pubs \<Longrightarrow> p \<in> set pubs \<Longrightarrow> p \<le> length out"
  by (cases pubs rule: rev_cases) (auto simp: watermarks_ok_def sorted_wrt_append)

subsection \<open>The pump writes a prefix of the stream\<close>

text \<open>
  What the loop leaves, \<open>pumped_ok\<close>: a prefix of the stream was appended; without an error the
  prefix is the promised one, or with no promise the whole of a stream that ends well.
\<close>

definition pumped_ok :: "u64 option \<Rightarrow> src_event list \<Rightarrow> byte list \<Rightarrow> pumped \<Rightarrow> bool" where
  "pumped_ok expected evs out res =
     (case res of (err, out', published', pubs') \<Rightarrow>
        (\<exists>k. out' = out @ take k (stream_bytes evs))
        \<and> watermarks_ok out' published' pubs'
        \<and> (err = None \<longrightarrow> out' = out @ (case expected of
              None \<Rightarrow> stream_bytes evs | Some e \<Rightarrow> take (e - length out) (stream_bytes evs)))
        \<and> (err = None \<and> expected = None \<longrightarrow> \<not> stream_fails evs))"

lemma pumped_stop:
  assumes "watermarks_ok out published pubs" "err = None \<Longrightarrow> stream_bytes evs = [] \<and> \<not> stream_fails evs \<or> pump_allow expected (length out) = 0"
  shows "pumped_ok expected evs out (err, out, published, pubs)"
  using assms by (auto simp: pumped_ok_def pump_allow_def min_def split: option.splits if_splits intro: exI [of _ 0])

lemma pumped_more:
  assumes "stream_bytes evs = bs @ stream_bytes rest" "stream_fails evs = stream_fails rest"
    and "length bs \<le> pump_allow expected (length out)" "pumped_ok expected rest (out @ bs) res"
  shows "pumped_ok expected evs out res"
proof -
  obtain err out' p' ps' where res: "res = (err, out', p', ps')" by (cases res)
  obtain k where k: "out' = (out @ bs) @ take k (stream_bytes rest)"
    using assms(4) by (auto simp: pumped_ok_def res)
  then have "out' = out @ take (length bs + k) (stream_bytes evs)" by (simp add: assms(1))
  moreover have "out' = out @ (case expected of None \<Rightarrow> stream_bytes evs | Some e \<Rightarrow> take (e - length out) (stream_bytes evs))"
    if "err = None"
  proof (cases expected)
    case None
    then show ?thesis using assms(1,4) that by (simp add: pumped_ok_def res)
  next
    case (Some e)
    then have "length bs \<le> e - length out" using assms(3) by (simp add: pump_allow_def)
    moreover have "out' = (out @ bs) @ take (e - length (out @ bs)) (stream_bytes rest)"
      using assms(4) that Some by (simp add: pumped_ok_def res)
    ultimately show ?thesis using Some assms(1) by simp
  qed
  ultimately show ?thesis using assms(2,4) by (auto simp: pumped_ok_def res)
qed

lemma pump_loop_spec:
  "watermarks_ok out published pubs \<Longrightarrow>
     pumped_ok expected evs out (pump_loop expected write_ok evs out published pubs)"
proof (induction "sum_list (map event_weight evs)" arbitrary: evs out published pubs rule: less_induct)
  case less
  show ?case
  proof (cases "pump_allow expected (length out) = 0")
    case True
    then show ?thesis using less.prems by (simp add: pump_loop.simps pumped_stop)
  next
    case False
    then have a: "0 < pump_allow expected (length out)" by simp
    obtain r rest where rd: "read_stream (pump_allow expected (length out)) evs = (r, rest)" by fastforce
    show ?thesis
    proof (cases r)
      case (Inl e)
      then show ?thesis using less.prems False rd by (auto simp: pump_loop.simps [of _ _ evs] intro!: pumped_stop)
    next
      case (Inr bs)
      note rd' = rd [unfolded Inr]
      show ?thesis
      proof (cases "bs \<noteq> [] \<and> write_ok (length out)")
        case True
        obtain p' ps' where p: "publish (length out + length bs) published pubs = (p', ps')" by fastforce
        have "pumped_ok expected rest (out @ bs) (pump_loop expected write_ok rest (out @ bs) p' ps')"
          using less.hyps [OF read_stream_shrinks [OF rd']] watermarks_publish [OF less.prems _ p] True by simp
        then show ?thesis
          using pumped_more [OF read_stream_bytes [OF a rd']] True False rd' p by (simp add: pump_loop.simps [of _ _ evs])
      next
        case stop: False
        then show ?thesis
          using less.prems False rd' read_stream_end [OF a] by (auto simp: pump_loop.simps [of _ _ evs] intro!: pumped_stop)
      qed
    qed
  qed
qed

text \<open>A stream that delivers what was promised is read to the promise.\<close>

lemma pump_loop_completes:
  assumes "\<And>n. write_ok n"
  shows "e - length out \<le> length (stream_bytes evs) \<Longrightarrow> fst (pump_loop (Some e) write_ok evs out published pubs) = None"
proof (induction "sum_list (map event_weight evs)" arbitrary: evs out published pubs rule: less_induct)
  case less
  show ?case
  proof (cases "pump_allow (Some e) (length out) = 0")
    case False
    then have a: "0 < pump_allow (Some e) (length out)" and ne: "stream_bytes evs \<noteq> []"
      using less.prems by (auto simp: pump_allow_def)
    obtain r rest where rd: "read_stream (pump_allow (Some e) (length out)) evs = (r, rest)" by fastforce
    with ne read_stream_error [OF a] read_stream_end [OF a] obtain bs where r: "r = Inr bs" "bs \<noteq> []"
      by (cases r) fastforce+
    note rd' = rd [unfolded r(1)]
    obtain p' ps' where p: "publish (length out + length bs) published pubs = (p', ps')" by fastforce
    have "fst (pump_loop (Some e) write_ok rest (out @ bs) p' ps') = None"
      using less.hyps [OF read_stream_shrinks [OF rd' r(2)]] less.prems read_stream_bytes(1) [OF a rd' r(2)] by simp
    then show ?thesis using False rd' r(2) p assms by (simp add: pump_loop.simps [of _ _ evs])
  qed (simp add: pump_loop.simps)
qed

text \<open>The loop that a pump runs, from nothing written and nothing published.\<close>

lemma pump_from_scratch:
  "pumped_ok expected evs [] (pump_loop expected write_ok evs [] 0 [])"
  by (rule pump_loop_spec) (simp add: watermarks_ok_def)

lemma rename_written:
  assumes "rename_file tmp final (write_file tmp f d) = Some d2" "tmp \<noteq> final"
  shows "map_of d2 p = (if p = final then Some f else if p = tmp then None else map_of d p)"
  using assms by (auto simp: rename_file_def)

text \<open>How a pump that was not stopped by its loop ends.\<close>

lemma pump_and_seal_cases:
  assumes "pump_and_seal io mt src tmp final d = (r, pubs, d')" "tmp \<noteq> final"
  obtains (failed) e where "r = Inl e" "\<And>p. p \<noteq> tmp \<Longrightarrow> map_of d' p = map_of d p"
      "d' = d \<or> d' = remove_file tmp d \<or> (\<exists>f. d' = write_file tmp f d)"
  | (sealed) out published pubs0 where "r = Inr ()"
      "pump_loop (ss_promised_len src) (io_write io) (ss_stream src) [] 0 [] = (None, out, published, pubs0)"
      "pubs = (if length out > published then pubs0 @ [length out] else pubs0)"
      "\<And>e. ss_promised_len src = Some e \<Longrightarrow> e \<le> length out"
      "\<And>p. map_of d' p = (if p = final then Some \<lparr>f_data = out, f_mtime = mt\<rparr> else if p = tmp then None else map_of d p)"
      "rename_file tmp final (write_file tmp \<lparr>f_data = out, f_mtime = mt\<rparr> d) = Some d'"
proof -
  obtain err out published pubs0 where loop:
    "pump_loop (ss_promised_len src) (io_write io) (ss_stream src) [] 0 [] = (err, out, published, pubs0)"
    by (metis prod_cases4)
  define f where "f = \<lparr>f_data = out, f_mtime = mt\<rparr>"
  define bad where "bad \<longleftrightarrow> \<not> io_create io \<or> err \<noteq> None
    \<or> (case ss_promised_len src of Some e \<Rightarrow> length out < e | None \<Rightarrow> False) \<or> \<not> io_flush io \<or> \<not> io_sync io"
  show thesis
  proof (cases "bad \<or> install_tmp tmp final (write_file tmp f d) = None")
    case True
    then have "(\<exists>e. r = Inl e) \<and> d' \<in> {d, remove_file tmp d, write_file tmp f d}" using assms(1) loop
      by (auto simp: pump_and_seal_def bad_def f_def Let_def split: if_splits option.splits)
    then show ?thesis by (intro that(1) [of "projl r"]) auto
  next
    case False
    then obtain d2 where d2: "install_tmp tmp final (write_file tmp f d) = Some d2" by auto
    then have ren: "rename_file tmp final (write_file tmp f d) = Some d2" by (simp add: install_tmp_def split: if_splits)
    then have "map_of d2 p = (if p = final then Some f else if p = tmp then None else map_of d p)" for p
      using rename_written [OF _ assms(2)] by auto
    moreover have "(r, pubs, d') = (Inr (), if length out > published then pubs0 @ [length out] else pubs0, d2)"
      using assms(1) loop False d2 by (auto simp: pump_and_seal_def bad_def f_def Let_def split: option.splits)
    ultimately show ?thesis using that(2) [of out published pubs0] loop False ren
      by (auto simp: bad_def f_def split: option.splits)
  qed
qed

text \<open>How a pump that gets its bytes ends.\<close>

lemma pump_succeeds:
  assumes "io_create io" "\<And>n. io_write io n" "io_flush io" "io_sync io" "\<not> is_meta_store_path final"
    and "ss_promised_len src = Some e" "e \<le> length (stream_bytes (ss_stream src))"
  shows "fst (pump_and_seal io mt src tmp final d) = Inr ()"
proof -
  obtain out published pubs where loop: "pump_loop (Some e) (io_write io) (ss_stream src) [] 0 [] = (None, out, published, pubs)"
    using pump_loop_completes [of "io_write io" e "[]" "ss_stream src" 0 "[]"] assms(2,7) by (metis prod.collapse list.size(3) diff_zero)
  have "out = take e (stream_bytes (ss_stream src))"
    using pump_from_scratch [of "Some e" "ss_stream src" "io_write io"] loop by (simp add: pumped_ok_def)
  then show ?thesis using assms loop
    by (simp add: pump_and_seal_def install_tmp_def rename_file_def Let_def)
qed

subsection \<open>Properties of the pump\<close>

lemma pumped_promise:
  assumes "pump_loop (Some e) write_ok evs [] 0 [] = (None, out, published, pubs)" "e \<le> length out"
  shows "out = take e (stream_bytes evs)" "length out = e"
  using pump_from_scratch [of "Some e" evs write_ok] assms by (simp_all add: pumped_ok_def)

text \<open>
  C23: a pump seals exactly what was promised or leaves the cache alone. When
  \<^verbatim>\<open>pump_and_seal\<close> succeeds, the final file holds the promised prefix of the provider's
  bytes, at its full promised length, or with no promised length all of a stream that ended
  without an error; the temporary file is gone. When it fails, the final path still holds
  what it held. No other file changes in either case, so a short or broken download is never
  sealed into the cache.
\<close>

theorem pump_seals_promised:
  assumes "pump_and_seal io mt src tmp final d = (r, pubs, d')" "tmp \<noteq> final"
  shows "(case r of
            Inl _ \<Rightarrow> map_of d' final = map_of d final
          | Inr _ \<Rightarrow> map_of d' tmp = None \<and>
              (\<exists>bytes. map_of d' final = Some \<lparr>f_data = bytes, f_mtime = mt\<rparr>
                 \<and> (case ss_promised_len src of
                      Some e \<Rightarrow> length bytes = e \<and> bytes = take e (stream_bytes (ss_stream src))
                    | None \<Rightarrow> bytes = stream_bytes (ss_stream src) \<and> \<not> stream_fails (ss_stream src))))
     \<and> (\<forall>p. p \<notin> {tmp, final} \<longrightarrow> map_of d' p = map_of d p)"
  using assms
proof (cases rule: pump_and_seal_cases)
  case (failed e)
  then show ?thesis using assms(2) by simp
next
  case (sealed out published pubs0)
  have "pumped_ok (ss_promised_len src) (ss_stream src) [] (None, out, published, pubs0)"
    using pump_from_scratch [of "ss_promised_len src" "ss_stream src" "io_write io"] sealed(2) by simp
  then show ?thesis using sealed assms(2) by (auto simp: pumped_ok_def split: option.splits)
qed

theorem pump_seals_promised_witness:
  "fst (pump_and_seal \<lparr>io_create = True, io_write = \<lambda>_. True, io_flush = True, io_sync = True\<rparr> (Some 9)
      \<lparr>ss_stream = [Chunk [1, 2], Chunk [3]], ss_promised_len = Some 4\<rparr> ''t'' ''f'' [(''f'', \<lparr>f_data = [7], f_mtime = None\<rparr>)])
     = Inl (ServerError ''upstream short read'')
   \<and> map_of (snd (snd (pump_and_seal \<lparr>io_create = True, io_write = \<lambda>_. True, io_flush = True, io_sync = True\<rparr> (Some 9)
      \<lparr>ss_stream = [Chunk [1, 2], Chunk [3]], ss_promised_len = Some 4\<rparr> ''t'' ''f'' [(''f'', \<lparr>f_data = [7], f_mtime = None\<rparr>)])))
      ''f'' = Some \<lparr>f_data = [7], f_mtime = None\<rparr>"
  (is "fst (pump_and_seal ?io _ ?src _ _ ?d) = _ \<and> _")
proof -
  let ?run = "pump_and_seal ?io (Some 9) ?src ''t'' ''f'' ?d"
  have failed: "fst ?run = Inl (ServerError ''upstream short read'')"
    by (simp add: pump_and_seal_def pump_loop.simps pump_allow_def publish_def CHUNK_def PUBLISH_INTERVAL_def)
  have eq: "?run = (fst ?run, fst (snd ?run), snd (snd ?run))" by simp
  show ?thesis using pump_seals_promised [OF eq] failed by (simp only: failed) simp
qed

text \<open>
  a healthy download always completes. If the file system accepts the bytes, the final
  path is not the metadata store and the provider delivers at least the promised length,
  \<^verbatim>\<open>pump_and_seal\<close> returns success, however the bytes are cut into chunks and whatever
  follows the promised length, an error included.
\<close>

lemma pump_completes:
  assumes "io_create io" "\<And>n. io_write io n" "io_flush io" "io_sync io" "\<not> is_meta_store_path final"
    and "ss_promised_len src = Some e" "e \<le> length (stream_bytes (ss_stream src))"
  shows "fst (pump_and_seal io mt src tmp final d) = Inr ()"
  by (rule pump_succeeds [OF assms])

lemma pump_completes_witness:
  "fst (pump_and_seal \<lparr>io_create = True, io_write = \<lambda>_. True, io_flush = True, io_sync = True\<rparr> (Some 9)
      \<lparr>ss_stream = [Chunk [1, 2], Chunk [3], Read_error ''reset''], ss_promised_len = Some 3\<rparr> ''t'' ''f'' []) = Inr ()"
  by (rule pump_completes [of _ _ _ 3]) (simp_all add: is_meta_store_path_def is_meta_store_name_def starts_with_def META_STORE_FILE_def)

subsection \<open>The registry over its histories\<close>

datatype flight_op = Join string | Solo | Driver_ends nat

fun flight_step :: "flights \<Rightarrow> flight_op \<Rightarrow> flights" where
  "flight_step fl (Join key) = snd (join_or_start key fl)"
| "flight_step fl Solo = snd (spawn_solo fl)"
| "flight_step fl (Driver_ends f) = driver_exit f fl"

text \<open>The map lists the running drivers by key, and handles are fresh.\<close>

definition flights_ok :: "flights \<Rightarrow> bool" where
  "flights_ok fl =
     (hm_wf (fl_map fl) \<and> hm_wf (fl_running fl)
      \<and> (\<forall>k f. map_of (fl_map fl) k = Some f \<longleftrightarrow> map_of (fl_running fl) f = Some k)
      \<and> (\<forall>f k. map_of (fl_running fl) f = Some k \<longrightarrow> f < fl_next fl))"

lemma flights_ok_new [inv_intros]: "flights_ok flights_new"
  by (simp add: flights_ok_def flights_new_def)

lemma flights_ok_join [inv_intros]:
  assumes "flights_ok fl"
  shows "flights_ok (snd (join_or_start key fl))"
proof (cases "map_of (fl_map fl) key")
  case None
  have fresh: "map_of (fl_running fl) (fl_next fl) = None"
    using assms unfolding flights_ok_def by (metis less_irrefl option.exhaust)
  have "fl_next fl \<notin> fst ` set (fl_running fl)" using fresh by (simp add: map_of_eq_None_iff)
  moreover have "map_of (fl_running fl) f \<noteq> Some key" "map_of (fl_map fl) k \<noteq> Some (fl_next fl)" for f k
    using assms None fresh unfolding flights_ok_def by (metis option.distinct(1))+
  ultimately show ?thesis using assms None
    by (auto simp: join_or_start_def flights_ok_def hm_wf_put hm_wf_def [of "_ # _"] less_Suc_eq)
       (simp_all add: hm_wf_def)
qed (use assms in \<open>simp add: join_or_start_def\<close>)

lemma flights_ok_exit [inv_intros]: "flights_ok fl \<Longrightarrow> flights_ok (driver_exit f fl)"
  by (auto simp: driver_exit_def flights_ok_def hm_wf_del split: option.splits) (metis option.inject)

lemma flights_ok_history: "flights_ok (foldl flight_step flights_new ops)"
proof (induction ops rule: rev_induct)
  case (snoc op ops)
  then show ?case
    by (cases op) (auto simp: inv_intros spawn_solo_def, simp add: flights_ok_def less_SucI)
qed (simp add: inv_intros)



text \<open>
  A driver that ends leaves a terminal state behind, whatever it did, if anybody listens. With
  no receiver the last word is lost, and who subscribes afterwards waits for the stall budget.
\<close>

lemma drive_guarded_terminal [simp]: "terminal (drive_guarded True after_run)"
  by (simp add: drive_guarded_def watch_send_def)

lemma drive_guarded_unheard: "drive_guarded False Pending = Pending"
  by (simp add: drive_guarded_def watch_send_def)

subsection \<open>The upstream half of a ranged response\<close>

definition tail_ok :: "u64 option \<Rightarrow> src_event list \<Rightarrow> nat \<Rightarrow> body \<Rightarrow> bool" where
  "tail_ok want evs written b =
     ((\<exists>k. concat (fst b) = take k (stream_bytes evs))
      \<and> (\<forall>w. want = Some w \<longrightarrow> written < w + CHUNK \<longrightarrow> written + length (concat (fst b)) < w + CHUNK)
      \<and> (\<not> snd b \<longrightarrow> (case want of None \<Rightarrow> concat (fst b) = stream_bytes evs
            | Some w \<Rightarrow> min w (written + length (stream_bytes evs)) \<le> written + length (concat (fst b)))))"

lemma upstream_loop_tail: "tail_ok want evs written (upstream_loop want staged evs written)"
proof (induction "sum_list (map event_weight evs)" arbitrary: evs written rule: less_induct)
  case less
  let ?full = "case want of Some w \<Rightarrow> w \<le> written | None \<Rightarrow> False"
  obtain r rest where rd: "read_stream CHUNK evs = (r, rest)" by fastforce
  show ?case
  proof (cases "\<exists>bs. r = Inr bs \<and> bs \<noteq> [] \<and> \<not> ?full \<and> staged written")
    case False
    then have "upstream_loop want staged evs written = ([], \<not> ?full \<and> (\<forall>bs. r = Inr bs \<longrightarrow> bs \<noteq> []))"
      using rd by (auto simp: upstream_loop.simps [of _ _ evs] split: sum.splits)
    then show ?thesis using rd read_stream_end [OF CHUNK_pos(1), of evs rest]
      by (auto simp: tail_ok_def split: option.splits sum.splits intro: exI [of _ 0])
  next
    case True
    then obtain bs where bs: "r = Inr bs" "bs \<noteq> []" "\<not> ?full" "staged written" by blast
    note rs = read_stream_bytes [OF CHUNK_pos(1) rd [unfolded bs(1)] bs(2)]
    obtain cs err where rec: "upstream_loop want staged rest (written + length bs) = (cs, err)" by fastforce
    have un: "upstream_loop want staged evs written = (bs # cs, err)"
      using rd bs rec by (simp add: upstream_loop.simps [of _ _ evs])
    have IH: "tail_ok want rest (written + length bs) (cs, err)"
      using less.hyps [OF read_stream_shrinks [OF rd [unfolded bs(1)] bs(2)]] rec by metis
    then obtain k where "concat cs = take k (stream_bytes rest)" by (auto simp: tail_ok_def)
    then have "concat (bs # cs) = take (length bs + k) (stream_bytes evs)" by (simp add: rs(1))
    then have "\<exists>k. concat (bs # cs) = take k (stream_bytes evs)" by blast
    moreover have "written + length (concat (bs # cs)) < w + CHUNK" if "want = Some w" for w
    proof -
      have "written < w" using bs(3) that by simp
      then have "written + length bs < w + CHUNK" using rs(3) by simp
      then show ?thesis using IH that by (simp add: tail_ok_def add.assoc)
    qed
    moreover have "case want of None \<Rightarrow> concat (bs # cs) = stream_bytes evs
        | Some w \<Rightarrow> min w (written + length (stream_bytes evs)) \<le> written + length (concat (bs # cs))" if "\<not> err"
      using IH rs(1) that by (auto simp: tail_ok_def add.assoc split: option.splits)
    ultimately show ?thesis by (simp only: tail_ok_def un fst_conv snd_conv) blast
  qed
qed

text \<open>
  The upstream tail of a ranged response. Its chunks are a prefix of the bytes the
  provider delivers; if the body ends without an error it holds all of them, or at least the
  bytes wanted; and it never runs past the wanted length by a whole read: fewer than
  \<^verbatim>\<open>CHUNK\<close> bytes more. What is served and what is staged is the same.
\<close>

lemma upstream_body_tail:
  assumes "upstream_body cfg encode now write_ok evs want sink st = ((cs, err), st')"
  shows "(\<exists>k. concat cs = take k (stream_bytes evs))
    \<and> (\<forall>w. want = Some w \<longrightarrow> length (concat cs) < w + CHUNK)
    \<and> (\<not> err \<longrightarrow> (case want of
          None \<Rightarrow> concat cs = stream_bytes evs
        | Some w \<Rightarrow> min w (length (stream_bytes evs)) \<le> length (concat cs)))"
proof -
  obtain staged where "upstream_loop want staged evs 0 = (cs, err)"
    using assms by (auto simp: upstream_body_def Let_def split: option.splits prod.splits)
  then have "tail_ok want evs 0 (cs, err)" using upstream_loop_tail [of want evs 0 staged] by simp
  then show ?thesis by (auto simp: tail_ok_def split: option.splits)
qed

lemma upstream_body_tail_witness:
  "(\<exists>k. concat [[1, 2], [3 :: byte]] = take k (stream_bytes [Chunk [1, 2], Chunk [3], Chunk [4]]))
   \<and> min 3 (length (stream_bytes [Chunk [1, 2], Chunk [3], Chunk [4]])) \<le> length (concat [[1, 2], [3 :: byte]])"
proof -
  have "upstream_body config_default (\<lambda>_. None) 0 (\<lambda>_. True) [Chunk [1, 2], Chunk [3], Chunk [4]] (Some 3) None
      \<lparr>st_ledger = ledger_new, st_dir = []\<rparr> = (([[1, 2], [3]], False), \<lparr>st_ledger = ledger_new, st_dir = []\<rparr>)"
    by (simp add: upstream_body_def upstream_loop.simps CHUNK_def)
  from upstream_body_tail [OF this] show ?thesis by simp
qed

text \<open>The limit is on the sum of whole reads: a chunk that runs past the wanted length is served and staged whole.\<close>

lemma upstream_overserves:
  assumes "0 < w" "w < length bs" "length bs \<le> CHUNK"
  shows "upstream_loop (Some w) (\<lambda>_. True) [Chunk bs] 0 = ([bs], False)"
proof -
  have "bs \<noteq> []" using assms by auto
  then show ?thesis using assms by (simp add: upstream_loop.simps)
qed

end
