(* ===== verification/Reader.thy ===== *)
theory Reader
  imports Flight
begin

text \<open>
  Following a download while it is written: \<^verbatim>\<open>growing_reader_from\<close> of
  \<^verbatim>\<open>src/cache/flight.rs\<close> beside its driver.

  The state holds the bytes of the one file both work on (a handle stays valid when the file
  is renamed or unlinked), where its name is, the watch channel with its unseen mark, and the
  locals of the reader with a program counter. One rule is one file-system call or one access
  to the channel, so the two tasks interleave between any two of them. \<open>g_obj\<close> is what the
  driver will have written when it seals. A publication while nobody listens stores nothing
  (\<^verbatim>\<open>watch::Sender::send\<close>), so to a reader it is the driver going on without having
  published: no rule forces a publication. A wait may always stall: the stall budget is a
  duration, and time is not part of the state.
\<close>

datatype place = Absent | At_tmp | At_final | Removed

datatype reader_pc =
    Subscribe | Top | Borrow_open | Open_final | Wait | Check | Wait_ahead | Borrow_ahead | Read | At_eof | Finished | Errored

record grow =
  g_obj :: "byte list"
  g_data :: "byte list"
  g_place :: place
  g_chan :: flight_progress
  g_unseen :: bool
  g_sender :: bool
  g_pc :: reader_pc
  g_open :: bool
  g_pos :: u64
  g_remaining :: "u64 option"
  g_out :: "byte list"

definition growing_reader_from :: "byte list \<Rightarrow> u64 \<Rightarrow> u64 option \<Rightarrow> grow" where
  "growing_reader_from obj start len =
     \<lparr>g_obj = obj, g_data = [], g_place = Absent, g_chan = Pending, g_unseen = False, g_sender = True,
      g_pc = Subscribe, g_open = False, g_pos = start, g_remaining = len, g_out = []\<rparr>"

definition growing_reader :: "byte list \<Rightarrow> grow" where
  "growing_reader obj = growing_reader_from obj 0 None"

fun growing_watermark :: "flight_progress \<Rightarrow> u64 option" where
  "growing_watermark (Growing w) = Some w"
| "growing_watermark _ = None"

subsection \<open>The driver, as far as a reader can see it\<close>

inductive driver_step :: "grow \<Rightarrow> grow \<Rightarrow> bool" where
  meta: "\<not> terminal (g_chan s) \<Longrightarrow> g_place s = Absent \<Longrightarrow>
    driver_step s (s\<lparr>g_chan := Meta m, g_unseen := True\<rparr>)"
| create: "\<not> terminal (g_chan s) \<Longrightarrow> g_place s = Absent \<Longrightarrow> driver_step s (s\<lparr>g_place := At_tmp\<rparr>)"
| append: "\<not> terminal (g_chan s) \<Longrightarrow> g_place s = At_tmp \<Longrightarrow> g_obj s = g_data s @ bs @ rest \<Longrightarrow>
    driver_step s (s\<lparr>g_data := g_data s @ bs\<rparr>)"
| publish: "\<not> terminal (g_chan s) \<Longrightarrow> g_place s = At_tmp \<Longrightarrow>
    driver_step s (s\<lparr>g_chan := Growing (length (g_data s)), g_unseen := True\<rparr>)"
| seal: "\<not> terminal (g_chan s) \<Longrightarrow> g_place s = At_tmp \<Longrightarrow> g_data s = g_obj s \<Longrightarrow>
    driver_step s (s\<lparr>g_place := At_final\<rparr>)"
| finish: "\<not> terminal (g_chan s) \<Longrightarrow> g_place s = At_final \<Longrightarrow>
    driver_step s (s\<lparr>g_chan := Done, g_unseen := True\<rparr>)"
| discard: "\<not> terminal (g_chan s) \<Longrightarrow> g_place s = At_tmp \<Longrightarrow> driver_step s (s\<lparr>g_place := Removed\<rparr>)"
| fail: "\<not> terminal (g_chan s) \<Longrightarrow> driver_step s (s\<lparr>g_chan := Failed e, g_unseen := True\<rparr>)"
| evict: "g_place s = At_final \<Longrightarrow> driver_step s (s\<lparr>g_place := Removed\<rparr>)"

subsection \<open>The reader\<close>

definition reader_want :: "grow \<Rightarrow> nat" where
  "reader_want s = (case g_remaining s of Some r \<Rightarrow> min CHUNK r | None \<Rightarrow> CHUNK)"

text \<open>\<^verbatim>\<open>next_progress\<close>: progress, a dropped sender, or a stall.\<close>

datatype progress_result = Progressed | Dropped | Stalled

inductive next_progress :: "grow \<Rightarrow> progress_result \<Rightarrow> grow \<Rightarrow> bool" where
  progressed: "g_unseen s \<Longrightarrow> next_progress s Progressed (s\<lparr>g_unseen := False\<rparr>)"
| dropped: "\<not> g_unseen s \<Longrightarrow> \<not> g_sender s \<Longrightarrow> next_progress s Dropped s"
| stalled: "\<not> g_unseen s \<Longrightarrow> g_sender s \<Longrightarrow> next_progress s Stalled s"

inductive reader_step :: "grow \<Rightarrow> grow \<Rightarrow> bool" where
  subscribe: "g_pc s = Subscribe \<Longrightarrow> reader_step s (s\<lparr>g_unseen := False, g_pc := Top\<rparr>)"
| satisfied: "g_pc s = Top \<Longrightarrow> g_remaining s = Some 0 \<Longrightarrow> reader_step s (s\<lparr>g_pc := Finished\<rparr>)"
| have_file: "g_pc s = Top \<Longrightarrow> g_remaining s \<noteq> Some 0 \<Longrightarrow> g_open s \<Longrightarrow> reader_step s (s\<lparr>g_pc := Check\<rparr>)"
| open_tmp: "g_pc s = Top \<Longrightarrow> g_remaining s \<noteq> Some 0 \<Longrightarrow> \<not> g_open s \<Longrightarrow> g_place s = At_tmp \<Longrightarrow>
    reader_step s (s\<lparr>g_open := True, g_pc := Check\<rparr>)"
| no_tmp: "g_pc s = Top \<Longrightarrow> g_remaining s \<noteq> Some 0 \<Longrightarrow> \<not> g_open s \<Longrightarrow> g_place s \<noteq> At_tmp \<Longrightarrow>
    reader_step s (s\<lparr>g_pc := Borrow_open\<rparr>)"
| late_done: "g_pc s = Borrow_open \<Longrightarrow> g_chan s = Done \<Longrightarrow> reader_step s (s\<lparr>g_pc := Open_final\<rparr>)"
| late_failed: "g_pc s = Borrow_open \<Longrightarrow> g_chan s = Failed e \<Longrightarrow> reader_step s (s\<lparr>g_pc := Errored\<rparr>)"
| late_wait: "g_pc s = Borrow_open \<Longrightarrow> \<not> terminal (g_chan s) \<Longrightarrow> reader_step s (s\<lparr>g_pc := Wait\<rparr>)"
| open_final: "g_pc s = Open_final \<Longrightarrow> g_place s = At_final \<Longrightarrow> reader_step s (s\<lparr>g_open := True, g_pc := Top\<rparr>)"
| no_final: "g_pc s = Open_final \<Longrightarrow> g_place s \<noteq> At_final \<Longrightarrow> reader_step s (s\<lparr>g_pc := Errored\<rparr>)"
| waited: "g_pc s = Wait \<Longrightarrow> next_progress s r s' \<Longrightarrow>
    reader_step s (s'\<lparr>g_pc := (case r of Progressed \<Rightarrow> Top | Dropped \<Rightarrow> Finished | Stalled \<Rightarrow> Errored)\<rparr>)"
| ahead: "g_pc s = Check \<Longrightarrow> growing_watermark (g_chan s) = Some w \<Longrightarrow> w \<le> g_pos s \<Longrightarrow>
    reader_step s (s\<lparr>g_pc := Wait_ahead\<rparr>)"
| go_read: "g_pc s = Check \<Longrightarrow> \<forall>w. growing_watermark (g_chan s) = Some w \<longrightarrow> g_pos s < w \<Longrightarrow>
    reader_step s (s\<lparr>g_pc := Read\<rparr>)"
| waited_ahead: "g_pc s = Wait_ahead \<Longrightarrow> next_progress s r s' \<Longrightarrow>
    reader_step s (s'\<lparr>g_pc := (case r of Progressed \<Rightarrow> Borrow_ahead | Dropped \<Rightarrow> Finished | Stalled \<Rightarrow> Errored)\<rparr>)"
| still_ahead: "g_pc s = Borrow_ahead \<Longrightarrow> growing_watermark (g_chan s) = Some w \<Longrightarrow> w \<le> g_pos s \<Longrightarrow>
    reader_step s (s\<lparr>g_pc := Wait_ahead\<rparr>)"
| caught_up: "g_pc s = Borrow_ahead \<Longrightarrow> \<forall>w. growing_watermark (g_chan s) = Some w \<longrightarrow> g_pos s < w \<Longrightarrow>
    reader_step s (s\<lparr>g_pc := Read\<rparr>)"
| read_some: "g_pc s = Read \<Longrightarrow> 0 < n \<Longrightarrow> n \<le> reader_want s \<Longrightarrow> g_pos s + n \<le> length (g_data s) \<Longrightarrow>
    reader_step s (s\<lparr>g_pos := g_pos s + n, g_remaining := map_option (\<lambda>r. r - n) (g_remaining s),
                     g_out := g_out s @ take n (drop (g_pos s) (g_data s)), g_pc := Top\<rparr>)"
| read_none: "g_pc s = Read \<Longrightarrow> length (g_data s) \<le> g_pos s \<Longrightarrow> reader_step s (s\<lparr>g_pc := At_eof\<rparr>)"
| read_error: "g_pc s = Read \<Longrightarrow> reader_step s (s\<lparr>g_pc := Errored\<rparr>)"
| eof_done: "g_pc s = At_eof \<Longrightarrow> g_chan s = Done \<Longrightarrow> reader_step s (s\<lparr>g_pc := Finished\<rparr>)"
| eof_failed: "g_pc s = At_eof \<Longrightarrow> g_chan s = Failed e \<Longrightarrow> reader_step s (s\<lparr>g_pc := Errored\<rparr>)"
| eof_wait: "g_pc s = At_eof \<Longrightarrow> \<not> terminal (g_chan s) \<Longrightarrow> reader_step s (s\<lparr>g_pc := Wait\<rparr>)"

inductive_cases driver_stepE: "driver_step s s'"
inductive_cases next_progressE: "next_progress s r s'"
inductive_cases reader_stepE: "reader_step s s'"

definition system_step :: "grow \<Rightarrow> grow \<Rightarrow> bool" where
  "system_step s s' = (driver_step s s' \<or> reader_step s s')"

text \<open>The states of a reader of \<open>len\<close> bytes from \<open>start\<close> beside the driver of \<open>obj\<close>.\<close>

definition follows :: "byte list \<Rightarrow> u64 \<Rightarrow> u64 option \<Rightarrow> grow \<Rightarrow> bool" where
  "follows obj start len = system_step\<^sup>*\<^sup>* (growing_reader_from obj start len)"

subsection \<open>The invariant\<close>

text \<open>What both tasks keep of the file, the channel and the yielded bytes.\<close>

definition file_inv :: "byte list \<Rightarrow> grow \<Rightarrow> bool" where
  "file_inv obj s =
     (g_obj s = obj \<and> g_sender s \<and> take (length (g_data s)) obj = g_data s
      \<and> (g_place s = At_final \<or> g_chan s = Done \<longrightarrow> g_data s = obj)
      \<and> (\<forall>w. g_chan s = Growing w \<longrightarrow> w \<le> length (g_data s)))"

definition out_inv :: "byte list \<Rightarrow> u64 \<Rightarrow> u64 option \<Rightarrow> grow \<Rightarrow> bool" where
  "out_inv obj start len s =
     (g_pos s = start + length (g_out s)
      \<and> g_out s = take (length (g_out s)) (drop start obj)
      \<and> g_remaining s = map_option (\<lambda>l. l - length (g_out s)) len
      \<and> (\<forall>l. len = Some l \<longrightarrow> length (g_out s) \<le> l))"

definition pc_inv :: "grow \<Rightarrow> bool" where
  "pc_inv s =
     ((g_pc s \<in> {Wait, Wait_ahead} \<and> terminal (g_chan s) \<longrightarrow> g_unseen s)
      \<and> (g_pc s \<in> {Borrow_open, Open_final} \<longrightarrow> \<not> g_open s)
      \<and> (g_pc s = Open_final \<longrightarrow> g_chan s = Done)
      \<and> (g_pc s = Finished \<longrightarrow> g_remaining s = Some 0 \<or> g_chan s = Done))"

lemma take_two: "xs @ ys @ zs = obj \<Longrightarrow> take (length xs + length ys) obj = xs @ ys"
  by auto

lemma driver_file_inv: "driver_step s s' \<Longrightarrow> file_inv obj s \<Longrightarrow> file_inv obj s'"
  by (erule driver_step.cases) (auto simp: file_inv_def take_two trans_le_add1)

lemma driver_keeps: "driver_step s s' \<Longrightarrow>
    g_pc s' = g_pc s \<and> g_pos s' = g_pos s \<and> g_remaining s' = g_remaining s \<and> g_out s' = g_out s \<and> g_open s' = g_open s
    \<and> (g_chan s' = g_chan s \<and> g_unseen s' = g_unseen s \<or> \<not> terminal (g_chan s) \<and> g_unseen s')"
  by (erule driver_step.cases) auto

lemma reader_keeps: "reader_step s s' \<Longrightarrow>
    g_obj s' = g_obj s \<and> g_data s' = g_data s \<and> g_place s' = g_place s \<and> g_chan s' = g_chan s \<and> g_sender s' = g_sender s"
  by (erule reader_step.cases) (auto elim: next_progressE)

lemma driver_pc_inv:
  assumes "driver_step s s'" "pc_inv s"
  shows "pc_inv s'"
  using driver_keeps [OF assms(1)] assms(2) by (auto simp: pc_inv_def)

lemma watermark_not_terminal: "growing_watermark c = Some w \<Longrightarrow> \<not> terminal c"
  by (cases c) auto

lemma reader_pc_inv:
  assumes "reader_step s s'" "pc_inv s" "g_sender s"
  shows "pc_inv s'"
  using assms by cases (auto simp: pc_inv_def watermark_not_terminal split: progress_result.splits elim: next_progressE)

lemma file_bytes:
  assumes "take (length d) obj = d" "p + n \<le> length d"
  shows "take n (drop p d) = take n (drop p obj)"
proof -
  have "take n (drop p (take (length d) obj)) = take n (drop p obj)"
    using assms(2) by (simp add: drop_take min_def)
  then show ?thesis by (simp only: assms(1))
qed

lemma yielded_more:
  "xs = take (length xs) (drop s obj) \<Longrightarrow> xs @ take n (drop (s + length xs) obj) = take (length xs + n) (drop s obj)"
  using take_add [of "length xs" n "drop s obj"] by (simp add: add.commute)

lemma reader_out_inv:
  assumes "reader_step s s'" "out_inv obj start len s" "file_inv obj s"
  shows "out_inv obj start len s'"
  using assms(1)
proof cases
  case (read_some n)
  have fit: "start + length (g_out s) + n \<le> length (g_data s)"
    using read_some(5) assms(2) by (simp add: out_inv_def)
  have "take n (drop (g_pos s) (g_data s)) = take n (drop (start + length (g_out s)) obj)"
    using assms(2) file_bytes [OF _ fit] assms(3) by (simp add: out_inv_def file_inv_def)
  moreover have "g_out s @ take n (drop (start + length (g_out s)) obj) = take (length (g_out s) + n) (drop start obj)"
    using assms(2) by (intro yielded_more) (simp add: out_inv_def)
  moreover have "length (g_out s) + n \<le> l" if "len = Some l" for l
    using read_some(4) assms(2) that by (auto simp: out_inv_def reader_want_def)
  moreover have "length (g_out s @ take n (drop (g_pos s) (g_data s))) = length (g_out s) + n"
    using read_some(5) by simp
  ultimately show ?thesis using assms(2) unfolding out_inv_def read_some(1)
    by (auto simp: option.map_comp comp_def)
qed (use assms(2) in \<open>auto simp: out_inv_def elim!: next_progressE\<close>)

definition grow_inv :: "byte list \<Rightarrow> u64 \<Rightarrow> u64 option \<Rightarrow> grow \<Rightarrow> bool" where
  "grow_inv obj start len s = (file_inv obj s \<and> out_inv obj start len s \<and> pc_inv s)"

lemma grow_inv_step:
  assumes "system_step s s'" "grow_inv obj start len s"
  shows "grow_inv obj start len s'"
  using assms(1) unfolding system_step_def
proof
  assume step: "driver_step s s'"
  then show ?thesis using assms(2) driver_keeps [OF step] driver_file_inv [OF step] driver_pc_inv [OF step]
    by (auto simp: grow_inv_def out_inv_def)
next
  assume step: "reader_step s s'"
  have "file_inv obj s'" "g_sender s" using reader_keeps [OF step] assms(2) by (auto simp: grow_inv_def file_inv_def)
  then show ?thesis using assms(2) reader_out_inv [OF step] reader_pc_inv [OF step] by (simp add: grow_inv_def)
qed

lemma grow_inv_steps: "system_step\<^sup>*\<^sup>* s s' \<Longrightarrow> grow_inv obj start len s \<Longrightarrow> grow_inv obj start len s'"
  by (induction rule: rtranclp_induct) (auto intro: grow_inv_step)

lemma follows_inv: "follows obj start len s \<Longrightarrow> grow_inv obj start len s"
  unfolding follows_def
  by (erule grow_inv_steps)
     (simp add: growing_reader_from_def grow_inv_def file_inv_def out_inv_def pc_inv_def option.map_ident)

subsection \<open>Completeness\<close>

text \<open>
  Once a watermark has been published, a read of no bytes means the end of the object: the
  reader only reads where the watermark is ahead of it, or after the end of the download.
\<close>

definition announced :: "grow \<Rightarrow> bool" where
  "announced s = (terminal (g_chan s) \<or> growing_watermark (g_chan s) \<noteq> None)"

definition eof_inv :: "byte list \<Rightarrow> grow \<Rightarrow> bool" where
  "eof_inv obj s =
     (announced s \<and> g_place s \<noteq> Absent
      \<and> (g_pc s = Read \<longrightarrow> g_pos s < length (g_data s) \<or> terminal (g_chan s))
      \<and> (g_pc s = At_eof \<longrightarrow> terminal (g_chan s) \<and> length (g_data s) \<le> g_pos s)
      \<and> (g_pc s = Finished \<longrightarrow> g_remaining s = Some 0 \<or> length obj \<le> g_pos s))"

lemma driver_eof_inv:
  assumes "driver_step s s'" "eof_inv obj s"
  shows "eof_inv obj s'"
  using assms by cases (auto simp: eof_inv_def announced_def)

lemma reader_eof_inv:
  assumes "reader_step s s'" "eof_inv obj s" "file_inv obj s"
  shows "eof_inv obj s'"
  using assms
proof cases
  case go_read
  then show ?thesis using assms(2,3) by (cases "g_chan s") (auto simp: eof_inv_def announced_def file_inv_def)
next
  case caught_up
  then show ?thesis using assms(2,3) by (cases "g_chan s") (auto simp: eof_inv_def announced_def file_inv_def)
qed (auto simp: eof_inv_def announced_def file_inv_def split: progress_result.splits elim!: next_progressE)

lemma eof_inv_steps:
  "system_step\<^sup>*\<^sup>* s s' \<Longrightarrow> grow_inv obj start len s \<Longrightarrow> eof_inv obj s \<Longrightarrow> eof_inv obj s'"
proof (induction rule: rtranclp_induct)
  case (step s1 s2)
  then have "file_inv obj s1" using grow_inv_steps [OF step.hyps(1)] by (auto simp: grow_inv_def)
  then show ?case using step driver_eof_inv reader_eof_inv unfolding system_step_def by blast
qed



text \<open>
  Before the first watermark the same is not true. A reader that finds the new file empty
  looks at the channel only afterwards; if the download completes in between, it takes the
  end of the empty file for the end of the object and ends, short and without an error.
\<close>

lemma growing_reader_truncates:
  assumes "obj \<noteq> []"
  shows "\<exists>s'. follows obj 0 None s' \<and> g_pc s' = Finished \<and> g_chan s' = Done \<and> g_data s' = obj \<and> g_out s' = []"
proof -
  define a where "a = growing_reader_from obj 0 None"
  define b where "b = a\<lparr>g_place := At_tmp\<rparr>"
  define c where "c = b\<lparr>g_unseen := False, g_pc := Top\<rparr>"
  define d where "d = c\<lparr>g_open := True, g_pc := Check\<rparr>"
  define e where "e = d\<lparr>g_pc := Read\<rparr>"
  define f where "f = e\<lparr>g_pc := At_eof\<rparr>"
  define g where "g = f\<lparr>g_data := g_data f @ obj\<rparr>"
  define h where "h = g\<lparr>g_place := At_final\<rparr>"
  define i where "i = h\<lparr>g_chan := Done, g_unseen := True\<rparr>"
  define s' where "s' = i\<lparr>g_pc := Finished\<rparr>"
  note defs = a_def growing_reader_from_def b_def c_def d_def e_def f_def g_def h_def i_def
  have "driver_step a b" unfolding b_def by (rule driver_step.create) (simp_all add: defs)
  moreover have "reader_step b c" unfolding c_def by (rule reader_step.subscribe) (simp_all add: defs)
  moreover have "reader_step c d" unfolding d_def by (rule reader_step.open_tmp) (simp_all add: defs)
  moreover have "reader_step d e" unfolding e_def by (rule reader_step.go_read) (simp_all add: defs)
  moreover have "reader_step e f" unfolding f_def by (rule reader_step.read_none) (simp_all add: defs)
  moreover have "driver_step f g" unfolding g_def by (rule driver_step.append [of _ _ "[]"]) (simp_all add: defs)
  moreover have "driver_step g h" unfolding h_def by (rule driver_step.seal) (simp_all add: defs)
  moreover have "driver_step h i" unfolding i_def by (rule driver_step.finish) (simp_all add: defs)
  moreover have "reader_step i s'" unfolding s'_def by (rule reader_step.eof_done) (simp_all add: defs)
  ultimately have "system_step\<^sup>*\<^sup>* a s'"
    by (meson converse_rtranclp_into_rtranclp rtranclp.rtrancl_refl system_step_def)
  then have "follows obj 0 None s'" by (simp add: follows_def a_def)
  then show ?thesis by (auto simp: s'_def defs)
qed

subsection \<open>The reader ends\<close>

fun pc_rank :: "reader_pc \<Rightarrow> nat" where
  "pc_rank Subscribe = 7"
| "pc_rank Top = 6"
| "pc_rank Borrow_open = 5"
| "pc_rank Open_final = 4"
| "pc_rank Check = 3"
| "pc_rank Borrow_ahead = 3"
| "pc_rank Read = 2"
| "pc_rank At_eof = 1"
| "pc_rank _ = 0"

text \<open>How many more steps a reader can take once the download has ended.\<close>

definition reader_fuel :: "grow \<Rightarrow> nat" where
  "reader_fuel s = (if g_unseen s then 40 else 0) + (if g_open s then 0 else 20)
     + 5 * (length (g_data s) - g_pos s) + pc_rank (g_pc s)"

lemma reader_fuel_decreases:
  assumes "reader_step s s'" "terminal (g_chan s)" "pc_inv s"
  shows "reader_fuel s' < reader_fuel s"
  using assms
proof cases
  case (read_some n)
  then have "length (g_data s) - (g_pos s + n) < length (g_data s) - g_pos s" by linarith
  then show ?thesis using read_some by (simp add: reader_fuel_def)
next
  case (ahead w)
  then show ?thesis using assms(2) watermark_not_terminal by blast
next
  case (still_ahead w)
  then show ?thesis using assms(2) watermark_not_terminal by blast
next
  case (waited r s1)
  then show ?thesis using assms by (auto simp: reader_fuel_def pc_inv_def elim!: next_progressE)
next
  case (waited_ahead r s1)
  then show ?thesis using assms by (auto simp: reader_fuel_def pc_inv_def elim!: next_progressE)
qed (use assms in \<open>auto simp: reader_fuel_def pc_inv_def\<close>)

lemma reader_enabled: "g_pc s \<notin> {Finished, Errored} \<Longrightarrow> \<exists>s'. reader_step s s'"
proof (cases "g_pc s")
  case Top
  then show ?thesis by (metis have_file no_tmp open_tmp satisfied)
next
  case Borrow_open
  then show ?thesis by (metis late_done late_failed late_wait terminal.elims(2))
next
  case Open_final
  then show ?thesis by (metis open_final no_final)
next
  case Wait
  then show ?thesis by (metis waited next_progress.intros)
next
  case Wait_ahead
  then show ?thesis by (metis waited_ahead next_progress.intros)
next
  case Check
  then show ?thesis by (metis ahead go_read not_le_imp_less option.inject)
next
  case Borrow_ahead
  then show ?thesis by (metis still_ahead caught_up not_le_imp_less option.inject)
next
  case At_eof
  then show ?thesis by (metis eof_done eof_failed eof_wait terminal.elims(2))
qed (auto intro: reader_step.intros)

lemma reader_ends_from:
  "terminal (g_chan s) \<Longrightarrow> pc_inv s \<Longrightarrow> g_sender s \<Longrightarrow>
     \<exists>s'. reader_step\<^sup>*\<^sup>* s s' \<and> g_pc s' \<in> {Finished, Errored}"
proof (induction "reader_fuel s" arbitrary: s rule: less_induct)
  case less
  show ?case
  proof (cases "g_pc s \<in> {Finished, Errored}")
    case False
    then obtain s1 where s1: "reader_step s s1" using reader_enabled by blast
    then have "reader_fuel s1 < reader_fuel s" "terminal (g_chan s1)" "pc_inv s1" "g_sender s1"
      using less.prems reader_fuel_decreases reader_keeps [OF s1] reader_pc_inv by auto
    then show ?thesis using less.hyps s1 by (meson converse_rtranclp_into_rtranclp)
  qed blast
qed

text \<open>
  C26: a reader never waits on a download it can see has ended. Once the channel holds a terminal state, every
  step of the reader uses up a bound that its state fixes, and as long as it has neither
  finished nor failed it can take a step; so it reaches one of the two, whatever it was
  waiting for.
\<close>

theorem growing_reader_ends:
  assumes "follows obj start len s" "terminal (g_chan s)"
  shows "(\<exists>s'. reader_step\<^sup>*\<^sup>* s s' \<and> g_pc s' \<in> {Finished, Errored})
    \<and> (\<forall>s' n. (reader_step ^^ n) s s' \<longrightarrow> n \<le> reader_fuel s)"
proof -
  have inv: "pc_inv s" "g_sender s" using follows_inv [OF assms(1)] by (simp_all add: grow_inv_def file_inv_def)
  have "n + reader_fuel s' \<le> reader_fuel s \<and> terminal (g_chan s') \<and> pc_inv s' \<and> g_sender s'"
    if "(reader_step ^^ n) s s'" for n s'
    using that
  proof (induction n arbitrary: s')
    case (Suc n)
    then obtain s1 where s1: "(reader_step ^^ n) s s1" "reader_step s1 s'" by auto
    then show ?case using Suc.IH [OF s1(1)] reader_fuel_decreases [OF s1(2)] reader_keeps [OF s1(2)]
        reader_pc_inv [OF s1(2)] by simp
  qed (use assms(2) inv in simp)
  then have "\<forall>s' n. (reader_step ^^ n) s s' \<longrightarrow> n \<le> reader_fuel s" by (metis add_leD1)
  then show ?thesis using reader_ends_from [OF assms(2) inv] by blast
qed

theorem growing_reader_ends_witness:
  "\<exists>s s'. follows [1] 0 None s \<and> g_pc s = Subscribe \<and> reader_step\<^sup>*\<^sup>* s s' \<and> g_pc s' \<in> {Finished, Errored}"
proof -
  let ?a = "growing_reader_from [1] 0 None"
  let ?s = "?a\<lparr>g_chan := Failed (NotFound), g_unseen := True\<rparr>"
  have "driver_step ?a ?s" by (rule driver_step.fail) (simp add: growing_reader_from_def)
  then have f: "follows [1] 0 None ?s" by (simp add: follows_def system_step_def r_into_rtranclp)
  then obtain s' where "reader_step\<^sup>*\<^sup>* ?s s'" "g_pc s' \<in> {Finished, Errored}"
    using growing_reader_ends [OF f] by auto
  moreover have "g_pc ?s = Subscribe" by (simp add: growing_reader_from_def)
  ultimately show ?thesis using f by blast
qed

end
