(* ===== verification/Session.thy ===== *)
theory Session
  imports Flight Window
begin

text \<open>
  Staged-read runs: \<^verbatim>\<open>src/cache/session.rs\<close>. A run is one upstream open over a window of one
  key, shared by every reader inside it.

  \<^verbatim>\<open>Arc<Run>\<close> is an address into \<open>ss_runs\<close>, so \<^verbatim>\<open>Arc::ptr_eq\<close> is equality of addresses.
  Each section that holds the \<^verbatim>\<open>slots\<close> lock, and each access to a run's atomics, is one
  definition. \<^verbatim>\<open>start\<close> waits for a stream permit between its two sections, so it is given both
  as the uninterrupted composition (\<open>session_start\<close>) and as separate steps of the relation
  \<open>session_step\<close>, where other requests, ticks and drivers interleave and where the request that
  waits may be dropped.
\<close>

definition CHAIN_KEEP_AHEAD_WINDOWS :: u64 where
  "CHAIN_KEEP_AHEAD_WINDOWS = 1"

text \<open>\<^verbatim>\<open>Run\<close> with its \<^verbatim>\<open>Successor\<close>.\<close>

record run =
  rn_key :: string
  rn_start :: u64
  rn_end :: u64
  rn_upstream_id :: string
  rn_etag :: "string option"
  rn_total :: u64
  rn_readers :: nat
  rn_playhead :: u64
  rn_finished :: bool

definition covers :: "run \<Rightarrow> u64 \<Rightarrow> u64 \<Rightarrow> bool" where
  "covers r s e = (s \<ge> rn_start r \<and> e \<le> rn_end r)"

definition wants_successor :: "bool \<Rightarrow> u64 \<Rightarrow> u64 \<Rightarrow> run \<Rightarrow> (u64 \<times> u64) option" where
  "wants_successor watched configured flr r =
     (let nxt = rn_end r;
          covered_bytes = rn_end r - rn_start r;
          consumed = rn_playhead r - rn_start r;
          window = window_for 0 (rn_total r - nxt) configured flr (Some (covered_bytes, consumed));
          keep_ahead = sat_mul window CHAIN_KEEP_AHEAD_WINDOWS
      in if nxt < rn_total r \<and> watched \<and> nxt \<le> sat_add (rn_playhead r) keep_ahead
         then Some (nxt, window) else None)"

datatype slot = Starting | Live nat

record sessions =
  ss_slots :: "(string \<times> slot) list"
  ss_runs :: "(nat \<times> run) list"
  ss_next :: nat

definition sessions_new :: sessions where
  "sessions_new = \<lparr>ss_slots = [], ss_runs = [], ss_next = 0\<rparr>"

subsection \<open>Reading a run\<close>

definition update_run :: "nat \<Rightarrow> (run \<Rightarrow> run) \<Rightarrow> sessions \<Rightarrow> sessions" where
  "update_run i f ss = ss\<lparr>ss_runs := map (\<lambda>(j, r). (j, if j = i then f r else r)) (ss_runs ss)\<rparr>"

definition run_attach :: "nat \<Rightarrow> sessions \<Rightarrow> sessions" where
  "run_attach i = update_run i (\<lambda>r. r\<lparr>rn_readers := rn_readers r + 1\<rparr>)"

definition run_detach :: "nat \<Rightarrow> sessions \<Rightarrow> sessions" where
  "run_detach i = update_run i (\<lambda>r. r\<lparr>rn_readers := rn_readers r - 1\<rparr>)"

text \<open>\<^verbatim>\<open>playhead.fetch_max(cursor)\<close> of \<^verbatim>\<open>reader\<close>, whose body is the growing reader over the run's file.\<close>

definition run_advance :: "nat \<Rightarrow> u64 \<Rightarrow> sessions \<Rightarrow> sessions" where
  "run_advance i cursor = update_run i (\<lambda>r. r\<lparr>rn_playhead := max (rn_playhead r) cursor\<rparr>)"

definition run_finish :: "nat \<Rightarrow> sessions \<Rightarrow> sessions" where
  "run_finish i = update_run i (\<lambda>r. r\<lparr>rn_finished := True\<rparr>)"

definition covering :: "string \<Rightarrow> u64 \<Rightarrow> u64 \<Rightarrow> sessions \<Rightarrow> nat option" where
  "covering key s e ss =
     (case map_of (ss_slots ss) key of
        Some (Live i) \<Rightarrow>
          (case map_of (ss_runs ss) i of
             Some r \<Rightarrow> if \<not> rn_finished r \<and> covers r s e then Some i else None
           | None \<Rightarrow> None)
      | _ \<Rightarrow> None)"

subsection \<open>Starting a run\<close>

record start_req =
  sr_key :: string
  sr_upstream_id :: string
  sr_etag :: "string option"
  sr_total :: u64
  sr_start :: u64
  sr_need :: u64
  sr_playhead_seed :: "u64 option"

text \<open>The first locked section: refuse, or reserve the key and say what the replaced run achieved.\<close>

definition reserve :: "start_req \<Rightarrow> sessions \<Rightarrow> (behind \<times> sessions) option" where
  "reserve q ss =
     (let starting = ss\<lparr>ss_slots := hm_put (sr_key q) Starting (ss_slots ss)\<rparr>
      in case map_of (ss_slots ss) (sr_key q) of
           None \<Rightarrow> Some (None, starting)
         | Some Starting \<Rightarrow> None
         | Some (Live i) \<Rightarrow>
             (case map_of (ss_runs ss) i of
                None \<Rightarrow> None
              | Some r \<Rightarrow>
                  if rn_finished r \<or> sr_start q = rn_end r
                  then Some (behind_of (sr_start q) (rn_start r) (rn_end r) (rn_playhead r), starting)
                  else None))"

definition run_window_end :: "config \<Rightarrow> start_req \<Rightarrow> behind \<Rightarrow> u64" where
  "run_window_end cfg q behind =
     min (sat_add (sr_start q)
            (window_for (sr_need q) (sr_total q - sr_start q) (session_window_bytes cfg) (window_floor_bytes cfg) behind))
         (sr_total q)"

definition release :: "string \<Rightarrow> sessions \<Rightarrow> sessions" where
  "release key ss =
     (if map_of (ss_slots ss) key = Some Starting then ss\<lparr>ss_slots := hm_del key (ss_slots ss)\<rparr> else ss)"

definition new_run :: "start_req \<Rightarrow> u64 \<Rightarrow> run" where
  "new_run q en =
     \<lparr>rn_key = sr_key q, rn_start = sr_start q, rn_end = en, rn_upstream_id = sr_upstream_id q, rn_etag = sr_etag q,
      rn_total = sr_total q, rn_readers = 0,
      rn_playhead = (case sr_playhead_seed q of Some p \<Rightarrow> p | None \<Rightarrow> sr_start q), rn_finished = False\<rparr>"

definition go_live :: "start_req \<Rightarrow> u64 \<Rightarrow> sessions \<Rightarrow> nat \<times> sessions" where
  "go_live q en ss =
     (ss_next ss,
      \<lparr>ss_slots = hm_put (sr_key q) (Live (ss_next ss)) (ss_slots ss),
       ss_runs = (ss_next ss, new_run q en) # ss_runs ss, ss_next = ss_next ss + 1\<rparr>)"

text \<open>\<open>permit\<close> says that the stream gate granted one.\<close>

definition session_start :: "config \<Rightarrow> bool \<Rightarrow> start_req \<Rightarrow> sessions \<Rightarrow> nat option \<times> sessions" where
  "session_start cfg permit q ss =
     (case reserve q ss of
        None \<Rightarrow> (None, ss)
      | Some (behind, ss1) \<Rightarrow>
          (let en = run_window_end cfg q behind
           in if en > sr_start q \<and> permit
              then (let (i, ss2) = go_live q en ss1 in (Some i, ss2))
              else (None, release (sr_key q) ss1)))"

subsection \<open>The driver of a run\<close>

text \<open>
  The task \<^verbatim>\<open>start\<close> spawns: \<open>opened\<close> is what the provider answered for the window, the rest is
  pumped into the part file and sealed as a staged span.
\<close>

definition drive_run ::
  "config \<Rightarrow> (seg_meta \<Rightarrow> stored_file option) \<Rightarrow> pump_io \<Rightarrow> millis \<Rightarrow> backend_error + stream_source \<Rightarrow> run \<Rightarrow> staging
     \<Rightarrow> flight_progress \<times> staging" where
  "drive_run cfg encode io now opened r st =
     (let tmp = segpart_path (rn_key r) (rn_start r) (rn_end r);
          final = seg_path (rn_key r) (rn_start r) (rn_end r);
          want = rn_end r - rn_start r
      in case opened of
           Inl e \<Rightarrow> (Failed e, st)
         | Inr src \<Rightarrow>
             (case pump_and_seal io (Some now) (src\<lparr>ss_promised_len := Some want\<rparr>) tmp final (st_dir st) of
                (Inl e, _, d) \<Rightarrow> (Failed e, st\<lparr>st_dir := d\<rparr>)
              | (Inr _, _, d) \<Rightarrow>
                  (let written = (case map_of d final of Some f \<Rightarrow> length (f_data f) | None \<Rightarrow> want)
                   in (Done, seal_span cfg encode
                         \<lparr>fs_key = rn_key r, fs_upstream_id = rn_upstream_id r, fs_etag = rn_etag r, fs_total = rn_total r,
                          fs_start = rn_start r, fs_end = rn_start r + written, fs_bytes = written, fs_now_millis = now\<rparr>
                         (st\<lparr>st_dir := d\<rparr>)))))"

subsection \<open>The tick\<close>

definition session_finish :: "string \<Rightarrow> nat \<Rightarrow> sessions \<Rightarrow> sessions" where
  "session_finish key i ss =
     (if map_of (ss_slots ss) key = Some (Live i) then ss\<lparr>ss_slots := hm_del key (ss_slots ss)\<rparr> else ss)"

definition spent_runs :: "sessions \<Rightarrow> (string \<times> nat) list" where
  "spent_runs ss =
     concat (map (\<lambda>(k, s). case s of
         Live i \<Rightarrow> (case map_of (ss_runs ss) i of Some r \<Rightarrow> if rn_finished r then [(k, i)] else [] | None \<Rightarrow> [])
       | Starting \<Rightarrow> []) (ss_slots ss))"

definition successor_req :: "run \<Rightarrow> u64 \<times> u64 \<Rightarrow> start_req" where
  "successor_req r nw =
     \<lparr>sr_key = rn_key r, sr_upstream_id = rn_upstream_id r, sr_etag = rn_etag r, sr_total = rn_total r,
      sr_start = fst nw, sr_need = snd nw, sr_playhead_seed = Some (rn_playhead r)\<rparr>"

text \<open>One round of the loop over the spent runs; \<open>watch_live\<close> is \<^verbatim>\<open>watches.live(key, now)\<close>.\<close>

definition tick_one :: "config \<Rightarrow> (string \<Rightarrow> bool) \<Rightarrow> (string \<Rightarrow> bool) \<Rightarrow> string \<times> nat \<Rightarrow> sessions \<Rightarrow> sessions" where
  "tick_one cfg watch_live permit ki ss =
     (case map_of (ss_runs ss) (snd ki) of
        None \<Rightarrow> ss
      | Some r \<Rightarrow>
          (let watched = (rn_readers r > 0 \<or> watch_live (fst ki));
               nxt = wants_successor watched (session_window_bytes cfg) (window_floor_bytes cfg) r;
               ss1 = session_finish (fst ki) (snd ki) ss
           in case nxt of
                None \<Rightarrow> ss1
              | Some nw \<Rightarrow> snd (session_start cfg (permit (fst ki)) (successor_req r nw) ss1)))"

definition session_tick :: "config \<Rightarrow> (string \<Rightarrow> bool) \<Rightarrow> (string \<Rightarrow> bool) \<Rightarrow> sessions \<Rightarrow> sessions" where
  "session_tick cfg watch_live permit ss =
     foldl (\<lambda>s ki. tick_one cfg watch_live permit ki s) ss (spent_runs ss)"

subsection \<open>Interleavings\<close>

text \<open>Starts between their two sections, with what the replaced run left.\<close>

record session_world =
  sw_ss :: sessions
  sw_pending :: "(start_req \<times> behind) list"

inductive session_step :: "config \<Rightarrow> session_world \<Rightarrow> session_world \<Rightarrow> bool" for cfg where
  reserved: "reserve q (sw_ss w) = Some (behind, ss') \<Longrightarrow>
    session_step cfg w \<lparr>sw_ss = ss', sw_pending = (q, behind) # sw_pending w\<rparr>"
| started: "(q, behind) \<in> set (sw_pending w) \<Longrightarrow> run_window_end cfg q behind > sr_start q \<Longrightarrow>
    session_step cfg w \<lparr>sw_ss = snd (go_live q (run_window_end cfg q behind) (sw_ss w)),
                        sw_pending = remove1 (q, behind) (sw_pending w)\<rparr>"
| refused: "(q, behind) \<in> set (sw_pending w) \<Longrightarrow>
    session_step cfg w \<lparr>sw_ss = release (sr_key q) (sw_ss w), sw_pending = remove1 (q, behind) (sw_pending w)\<rparr>"
| dropped: "(q, behind) \<in> set (sw_pending w) \<Longrightarrow>
    session_step cfg w (w\<lparr>sw_pending := remove1 (q, behind) (sw_pending w)\<rparr>)"
| attached: "covering key s e (sw_ss w) = Some i \<Longrightarrow> session_step cfg w (w\<lparr>sw_ss := run_attach i (sw_ss w)\<rparr>)"
| detached: "session_step cfg w (w\<lparr>sw_ss := run_detach i (sw_ss w)\<rparr>)"
| advanced: "session_step cfg w (w\<lparr>sw_ss := run_advance i cursor (sw_ss w)\<rparr>)"
| driven: "session_step cfg w (w\<lparr>sw_ss := run_finish i (sw_ss w)\<rparr>)"
| ticked: "map_of (ss_runs (sw_ss w)) i = Some r \<Longrightarrow> rn_finished r \<Longrightarrow>
    session_step cfg w (w\<lparr>sw_ss := session_finish key i (sw_ss w)\<rparr>)"

definition session_states :: "config \<Rightarrow> session_world \<Rightarrow> bool" where
  "session_states cfg = (session_step cfg)\<^sup>*\<^sup>* \<lparr>sw_ss = sessions_new, sw_pending = []\<rparr>"

inductive_cases session_stepE: "session_step cfg w w'"

subsection \<open>The invariant\<close>

definition run_ok :: "run \<Rightarrow> bool" where
  "run_ok r = (rn_start r < rn_end r \<and> rn_end r \<le> rn_total r)"

definition sessions_ok :: "sessions \<Rightarrow> bool" where
  "sessions_ok ss =
     (hm_wf (ss_slots ss)
      \<and> (\<forall>i r. map_of (ss_runs ss) i = Some r \<longrightarrow> i < ss_next ss \<and> run_ok r)
      \<and> (\<forall>k i. map_of (ss_slots ss) k = Some (Live i) \<longrightarrow> (\<exists>r. map_of (ss_runs ss) i = Some r \<and> rn_key r = k)))"

definition world_ok :: "session_world \<Rightarrow> bool" where
  "world_ok w =
     (sessions_ok (sw_ss w) \<and> distinct (map (sr_key \<circ> fst) (sw_pending w))
      \<and> (\<forall>p\<in>set (sw_pending w). map_of (ss_slots (sw_ss w)) (sr_key (fst p)) = Some Starting))"

lemma update_run_slots [simp]: "ss_slots (update_run i f ss) = ss_slots ss" "ss_next (update_run i f ss) = ss_next ss"
  by (simp_all add: update_run_def)

lemma update_run_get [simp]:
  "map_of (ss_runs (update_run i f ss)) j = map_option (\<lambda>r. if j = i then f r else r) (map_of (ss_runs ss) j)"
proof -
  have "map_of (map (\<lambda>(j, r). (j, if j = i then f r else r)) xs) j = map_option (\<lambda>r. if j = i then f r else r) (map_of xs j)" for xs
    by (induction xs) auto
  then show ?thesis by (simp add: update_run_def)
qed

lemma sessions_ok_update [inv_intros]:
  assumes "sessions_ok ss" "\<And>r. run_ok r \<Longrightarrow> run_ok (f r)" "\<And>r. rn_key (f r) = rn_key r"
  shows "sessions_ok (update_run i f ss)"
proof -
  have "\<exists>r. map_of (ss_runs (update_run i f ss)) j = Some r \<and> rn_key r = k"
    if "map_of (ss_slots ss) k = Some (Live j)" for k j
  proof -
    obtain r where "map_of (ss_runs ss) j = Some r" "rn_key r = k" using assms(1) \<open>map_of (ss_slots ss) k = _\<close>
      unfolding sessions_ok_def by blast
    then show ?thesis using assms(3) by simp
  qed
  then show ?thesis using assms(1,2) by (auto simp: sessions_ok_def)
qed

lemmas run_updates = run_attach_def run_detach_def run_advance_def run_finish_def

lemma sessions_ok_del [inv_intros]: "sessions_ok ss \<Longrightarrow> sessions_ok (ss\<lparr>ss_slots := hm_del key (ss_slots ss)\<rparr>)"
  by (simp add: sessions_ok_def hm_wf_del)

lemma sessions_ok_release [inv_intros]: "sessions_ok ss \<Longrightarrow> sessions_ok (release key ss)"
  by (simp add: release_def inv_intros)

lemma sessions_ok_finish [inv_intros]: "sessions_ok ss \<Longrightarrow> sessions_ok (session_finish key i ss)"
  by (simp add: session_finish_def inv_intros)

lemma reserve_Some:
  assumes "reserve q ss = Some (behind, ss')"
  shows "ss' = ss\<lparr>ss_slots := hm_put (sr_key q) Starting (ss_slots ss)\<rparr>"
    and "map_of (ss_slots ss) (sr_key q) \<noteq> Some Starting"
  using assms by (auto simp: reserve_def Let_def split: option.splits slot.splits if_splits)

lemma sessions_ok_reserve [inv_intros]:
  assumes "reserve q ss = Some (behind, ss')" "sessions_ok ss"
  shows "sessions_ok ss'"
  using assms(2) by (simp add: reserve_Some(1) [OF assms(1)] sessions_ok_def hm_wf_put)

lemma run_window_end_le: "run_window_end cfg q behind \<le> sr_total q"
  by (simp add: run_window_end_def)

lemma sessions_ok_live [inv_intros]:
  assumes "sessions_ok ss" "sr_start q < en" "en \<le> sr_total q"
  shows "sessions_ok (snd (go_live q en ss))"
proof -
  have "map_of (ss_slots ss) k \<noteq> Some (Live (ss_next ss))" for k
    using assms(1) unfolding sessions_ok_def by (metis less_irrefl)
  then show ?thesis
    using assms by (auto simp: sessions_ok_def go_live_def hm_wf_put new_run_def run_ok_def less_SucI split: if_splits)
qed

lemma slots_del: "map_of (ss_slots (release key ss)) k = (if k = key \<and> map_of (ss_slots ss) key = Some Starting then None else map_of (ss_slots ss) k)"
  by (simp add: release_def)

lemma pending_remove:
  assumes "world_ok w" "p \<in> set (sw_pending w)" "p' \<in> set (remove1 p (sw_pending w))"
  shows "sr_key (fst p') \<noteq> sr_key (fst p)" "map_of (ss_slots (sw_ss w)) (sr_key (fst p')) = Some Starting"
proof -
  have "distinct (map (sr_key \<circ> fst) ps) \<Longrightarrow> p \<in> set ps \<Longrightarrow> p' \<in> set (remove1 p ps) \<Longrightarrow> sr_key (fst p') \<noteq> sr_key (fst p)" for ps
    by (induction ps) (auto simp: image_iff split: if_splits)
  then show "sr_key (fst p') \<noteq> sr_key (fst p)" using assms by (auto simp: world_ok_def)
  show "map_of (ss_slots (sw_ss w)) (sr_key (fst p')) = Some Starting"
    using assms(1) set_mp [OF set_remove1_subset assms(3)] by (auto simp: world_ok_def)
qed

lemma distinct_remove1: "distinct (map f ps) \<Longrightarrow> distinct (map f (remove1 p ps))"
  by (induction ps) (auto dest: set_mp [OF set_remove1_subset])

lemma world_ok_update:
  assumes "world_ok w" "\<And>r. run_ok r \<Longrightarrow> run_ok (f r)" "\<And>r. rn_key (f r) = rn_key r"
  shows "world_ok (w\<lparr>sw_ss := update_run i f (sw_ss w)\<rparr>)"
  using assms sessions_ok_update [of "sw_ss w" f i] by (simp add: world_ok_def)

lemma world_ok_step:
  assumes "session_step cfg w w'" "world_ok w"
  shows "world_ok w'"
  using assms(1)
proof cases
  case (reserved q behind ss')
  note r = reserve_Some [OF reserved(2)]
  have "sr_key q \<noteq> sr_key (fst p)" if "p \<in> set (sw_pending w)" for p
    using assms(2) that r(2) by (auto simp: world_ok_def)
  then show ?thesis using assms(2) reserved sessions_ok_reserve [OF reserved(2)] by (auto simp: world_ok_def r(1))
next
  case (started q behind)
  have "sessions_ok (snd (go_live q (run_window_end cfg q behind) (sw_ss w)))"
    using sessions_ok_live [OF _ started(3) run_window_end_le] assms(2) by (simp add: world_ok_def)
  moreover have "map_of (ss_slots (snd (go_live q (run_window_end cfg q behind) (sw_ss w)))) (sr_key (fst p)) = Some Starting"
    if "p \<in> set (remove1 (q, behind) (sw_pending w))" for p
    using pending_remove [OF assms(2) started(2) that] by (simp add: go_live_def)
  ultimately show ?thesis using assms(2) started(1) by (simp add: world_ok_def distinct_remove1)
next
  case (refused q behind)
  then have "map_of (ss_slots (release (sr_key q) (sw_ss w))) (sr_key (fst p)) = Some Starting"
    if "p \<in> set (remove1 (q, behind) (sw_pending w))" for p
    using pending_remove [OF assms(2) refused(2) that] by (simp add: slots_del)
  then show ?thesis using assms(2) refused(1) by (simp add: world_ok_def distinct_remove1 sessions_ok_release)
next
  case (dropped q behind)
  then show ?thesis using assms(2) pending_remove(2) [OF assms(2) dropped(2)] by (simp add: world_ok_def distinct_remove1)
next
  case (ticked i r key)
  have "map_of (ss_slots (session_finish key i (sw_ss w))) (sr_key (fst p)) = Some Starting" if "p \<in> set (sw_pending w)" for p
    using assms(2) that by (auto simp: world_ok_def session_finish_def)
  then show ?thesis using assms(2) ticked(1) sessions_ok_finish by (simp add: world_ok_def)
qed (simp_all add: run_updates, (rule world_ok_update [OF assms(2)]; simp add: run_ok_def)+)

lemma session_states_ok: "session_states cfg w \<Longrightarrow> world_ok w"
  unfolding session_states_def
proof (induction rule: rtranclp_induct)
  case base
  then show ?case by (simp add: world_ok_def sessions_ok_def sessions_new_def)
qed (rule world_ok_step)

subsection \<open>A reservation that is never given back\<close>

text \<open>A key is wedged when its slot says \<open>Starting\<close> and no request is starting it.\<close>

definition wedged :: "string \<Rightarrow> session_world \<Rightarrow> bool" where
  "wedged key w =
     (map_of (ss_slots (sw_ss w)) key = Some Starting \<and> (\<forall>p\<in>set (sw_pending w). sr_key (fst p) \<noteq> key))"

lemma wedged_step:
  assumes "session_step cfg w w'" "wedged key w"
  shows "wedged key w'"
  using assms(1)
proof cases
  case (reserved q behind ss')
  have "sr_key q \<noteq> key" using reserve_Some(2) [OF reserved(2)] assms(2) by (auto simp: wedged_def)
  then show ?thesis using assms(2) reserved(1) by (auto simp: wedged_def reserve_Some(1) [OF reserved(2)])
next
  case (started q behind)
  then show ?thesis using assms(2) by (auto simp: wedged_def go_live_def dest: set_mp [OF set_remove1_subset])
next
  case (refused q behind)
  then show ?thesis using assms(2) by (auto simp: wedged_def slots_del dest: set_mp [OF set_remove1_subset])
next
  case (dropped q behind)
  then show ?thesis using assms(2) by (auto simp: wedged_def dest: set_mp [OF set_remove1_subset])
qed (use assms(2) in \<open>auto simp: wedged_def run_updates session_finish_def\<close>)

lemma wedged_steps: "(session_step cfg)\<^sup>*\<^sup>* w w' \<Longrightarrow> wedged key w \<Longrightarrow> wedged key w'"
  by (induction rule: rtranclp_induct) (auto intro: wedged_step)

lemma wedged_refuses:
  "wedged key w \<Longrightarrow> sr_key q = key \<Longrightarrow> reserve q (sw_ss w) = None"
  "wedged key w \<Longrightarrow> covering key s e (sw_ss w) = None"
  by (simp_all add: wedged_def reserve_def covering_def)

subsection \<open>Properties\<close>

text \<open>
  C27: one start per key, and only runs that hold what is asked. In every reachable state of
  requests, ticks, readers and drivers, no two starts of one key wait at the same time, and
  while one waits every other start of the key is refused and no run of it is handed out. A
  run that is handed out belongs to the key, is not spent, covers the whole of the requested
  range and promises a non-empty window inside the object.
\<close>

theorem session_exclusive:
  assumes "session_states cfg w"
  shows "distinct (map (sr_key \<circ> fst) (sw_pending w))
    \<and> (\<forall>p\<in>set (sw_pending w). \<forall>q s e. sr_key q = sr_key (fst p) \<longrightarrow>
         reserve q (sw_ss w) = None \<and> covering (sr_key q) s e (sw_ss w) = None)
    \<and> (\<forall>key s e i. covering key s e (sw_ss w) = Some i \<longrightarrow>
         (\<exists>r. map_of (ss_runs (sw_ss w)) i = Some r \<and> rn_key r = key \<and> \<not> rn_finished r
            \<and> rn_start r \<le> s \<and> e \<le> rn_end r \<and> rn_start r < rn_end r \<and> rn_end r \<le> rn_total r))"
proof -
  have ok: "world_ok w" by (rule session_states_ok [OF assms])
  have "reserve q (sw_ss w) = None \<and> covering (sr_key q) s e (sw_ss w) = None"
    if "p \<in> set (sw_pending w)" "sr_key q = sr_key (fst p)" for p q s e
  proof -
    have "map_of (ss_slots (sw_ss w)) (sr_key q) = Some Starting" using ok that by (auto simp: world_ok_def)
    then show ?thesis by (simp add: reserve_def covering_def)
  qed
  moreover have "\<exists>r. map_of (ss_runs (sw_ss w)) i = Some r \<and> rn_key r = key \<and> \<not> rn_finished r
      \<and> rn_start r \<le> s \<and> e \<le> rn_end r \<and> rn_start r < rn_end r \<and> rn_end r \<le> rn_total r"
    if cov: "covering key s e (sw_ss w) = Some i" for key s e i
  proof -
    obtain r where r: "map_of (ss_slots (sw_ss w)) key = Some (Live i)" "map_of (ss_runs (sw_ss w)) i = Some r"
      "\<not> rn_finished r" "covers r s e"
      using cov by (auto simp: covering_def split: option.splits slot.splits if_splits)
    moreover have "rn_key r = key" "run_ok r" using ok r(1,2) unfolding world_ok_def sessions_ok_def by fastforce+
    ultimately show ?thesis by (auto simp: covers_def run_ok_def)
  qed
  ultimately show ?thesis using ok by (auto simp: world_ok_def)
qed

definition demo_cfg :: config where
  "demo_cfg = config_default\<lparr>session_window_bytes := 8, window_floor_bytes := 8\<rparr>"

definition demo_req :: "u64 \<Rightarrow> start_req" where
  "demo_req s = \<lparr>sr_key = ''k'', sr_upstream_id = ''u'', sr_etag = None, sr_total = 24, sr_start = s, sr_need = 4,
                 sr_playhead_seed = None\<rparr>"

theorem session_exclusive_witness:
  "\<exists>w. session_states demo_cfg w \<and> sw_pending w = [(demo_req 0, None)] \<and> reserve (demo_req 16) (sw_ss w) = None"
proof -
  let ?w = "\<lparr>sw_ss = sessions_new\<lparr>ss_slots := [(''k'', Starting)]\<rparr>, sw_pending = [(demo_req 0, None)]\<rparr>"
  have "session_step demo_cfg \<lparr>sw_ss = sessions_new, sw_pending = []\<rparr> ?w"
    using session_step.reserved [of "demo_req 0" "\<lparr>sw_ss = sessions_new, sw_pending = []\<rparr>" None
        "sessions_new\<lparr>ss_slots := [(''k'', Starting)]\<rparr>"]
    by (simp add: reserve_def sessions_new_def demo_req_def hm_put_def hm_del_def)
  then have st: "session_states demo_cfg ?w" by (simp add: session_states_def r_into_rtranclp)
  have "reserve (demo_req 16) (sw_ss ?w) = None"
    using session_exclusive [OF st] by (simp add: demo_req_def)
  with st show ?thesis by (intro exI [of _ ?w]) simp
qed

text \<open>
  A request that is dropped while it waits for its stream permit leaves its key wedged: from
  then on, whatever happens, no run of the key starts and none is handed out.
\<close>

lemma dropped_start_wedges_key:
  "\<exists>w. session_states cfg w
     \<and> (\<forall>w' q s e. (session_step cfg)\<^sup>*\<^sup>* w w' \<and> sr_key q = key \<longrightarrow>
          reserve q (sw_ss w') = None \<and> covering key s e (sw_ss w') = None)"
proof -
  define q where "q = \<lparr>sr_key = key, sr_upstream_id = [], sr_etag = None, sr_total = 1, sr_start = 0, sr_need = 1, sr_playhead_seed = None\<rparr>"
  let ?i = "\<lparr>sw_ss = sessions_new, sw_pending = []\<rparr>"
  define ss where "ss = sessions_new\<lparr>ss_slots := [(key, Starting)]\<rparr>"
  have "reserve q (sw_ss ?i) = Some (None, ss)"
    by (simp add: q_def ss_def reserve_def sessions_new_def hm_put_def hm_del_def)
  note r = session_step.reserved [of q ?i None ss cfg, OF this]
  have "session_step cfg \<lparr>sw_ss = ss, sw_pending = [(q, None)]\<rparr> \<lparr>sw_ss = ss, sw_pending = []\<rparr>"
    using session_step.dropped [of q None "\<lparr>sw_ss = ss, sw_pending = [(q, None)]\<rparr>" cfg] by simp
  with r have "session_states cfg \<lparr>sw_ss = ss, sw_pending = []\<rparr>"
    unfolding session_states_def by (simp add: converse_rtranclp_into_rtranclp)
  moreover have "wedged key \<lparr>sw_ss = ss, sw_pending = []\<rparr>" by (simp add: wedged_def ss_def)
  ultimately show ?thesis
    by (intro exI [of _ "\<lparr>sw_ss = ss, sw_pending = []\<rparr>"] conjI allI impI)
       (auto intro: wedged_refuses dest: wedged_steps)
qed

subsection \<open>A paused viewer's chain\<close>

lemma wants_successor_bounds:
  assumes "wants_successor watched configured flr r = Some (n, w)"
  shows "n = rn_end r" "n < rn_total r" "n \<le> rn_playhead r + w" "w \<le> max configured 1" "w \<le> rn_total r - n"
proof -
  define w' where "w' = window_for 0 (rn_total r - rn_end r) configured flr (Some (rn_end r - rn_start r, rn_playhead r - rn_start r))"
  have w: "w = w'" and n: "n = rn_end r" "n < rn_total r" "n \<le> sat_add (rn_playhead r) (sat_mul w' CHAIN_KEEP_AHEAD_WINDOWS)"
    using assms by (auto simp: wants_successor_def w'_def Let_def split: if_splits)
  show "n = rn_end r" "n < rn_total r" by (rule n)+
  have "sat_mul w' CHAIN_KEEP_AHEAD_WINDOWS \<le> w'" by (simp add: sat_mul_def CHAIN_KEEP_AHEAD_WINDOWS_def)
  then show "n \<le> rn_playhead r + w" using n(3) sat_add_le_sum [of "rn_playhead r" "sat_mul w' CHAIN_KEEP_AHEAD_WINDOWS"] w by linarith
  have "w' \<le> worst_case_bytes 0 (rn_total r - rn_end r) configured" unfolding w'_def by (rule window_for_le_worst_case)
  then show "w \<le> max configured 1" "w \<le> rn_total r - n" using w n(1) by (auto simp: worst_case_bytes_def)
qed

text \<open>One round for a viewer who does not move: the driver of the key's run ends and the tick runs, the watch still live.\<close>

definition paused_round :: "config \<Rightarrow> string \<Rightarrow> sessions \<Rightarrow> sessions" where
  "paused_round cfg key ss =
     (case map_of (ss_slots ss) key of
        Some (Live i) \<Rightarrow> tick_one cfg (\<lambda>_. True) (\<lambda>_. True) (key, i) (run_finish i ss)
      | _ \<Rightarrow> ss)"

definition chained_to :: "string \<Rightarrow> u64 \<Rightarrow> u64 \<Rightarrow> sessions \<Rightarrow> bool" where
  "chained_to key playhead limit ss =
     (map_of (ss_slots ss) key \<noteq> Some Starting
      \<and> (\<forall>i. map_of (ss_slots ss) key = Some (Live i) \<longrightarrow>
           (\<exists>r. map_of (ss_runs ss) i = Some r \<and> rn_key r = key \<and> rn_playhead r = playhead \<and> rn_end r \<le> limit)))"

lemma successor_end:
  assumes "wants_successor watched (session_window_bytes cfg) (window_floor_bytes cfg) r = Some nw"
  shows "run_window_end cfg (successor_req r nw) None \<le> rn_playhead r + 2 * max (session_window_bytes cfg) 1"
proof -
  let ?W = "max (session_window_bytes cfg) 1"
  obtain n w where nw: "nw = (n, w)" by fastforce
  note b = wants_successor_bounds [OF assms [unfolded nw]]
  define w' where "w' = window_for w (rn_total r - n) (session_window_bytes cfg) (window_floor_bytes cfg) None"
  have "w' \<le> ?W" using window_for_le_worst_case [of w "rn_total r - n" "session_window_bytes cfg" "window_floor_bytes cfg" None] b(4)
    by (simp add: w'_def worst_case_bytes_def)
  moreover have "run_window_end cfg (successor_req r nw) None \<le> n + w'"
    using sat_add_le_sum [of n w'] by (simp add: run_window_end_def successor_req_def nw w'_def min.coboundedI1)
  ultimately show ?thesis using b(3,4) by linarith
qed

lemma paused_round_chained:
  assumes "chained_to key playhead limit ss" "playhead + 2 * max (session_window_bytes cfg) 1 \<le> limit"
  shows "chained_to key playhead limit (paused_round cfg key ss)"
proof (cases "\<exists>i. map_of (ss_slots ss) key = Some (Live i)")
  case True
  then obtain i r where s: "map_of (ss_slots ss) key = Some (Live i)"
    and r: "map_of (ss_runs ss) i = Some r" "rn_key r = key" "rn_playhead r = playhead" "rn_end r \<le> limit"
    using assms(1) by (auto simp: chained_to_def)
  define ss0 where "ss0 = run_finish i ss"
  define rf where "rf = r\<lparr>rn_finished := True\<rparr>"
  have f: "map_of (ss_runs ss0) i = Some rf" "ss_slots ss0 = ss_slots ss"
    using r(1) by (simp_all add: ss0_def run_finish_def rf_def)
  define ss1 where "ss1 = session_finish key i ss0"
  have none: "map_of (ss_slots ss1) key = None" using s f(2) by (simp add: ss1_def session_finish_def)
  define nxt where "nxt = wants_successor True (session_window_bytes cfg) (window_floor_bytes cfg) rf"
  have round_eq: "paused_round cfg key ss = (case nxt of None \<Rightarrow> ss1 | Some nw \<Rightarrow> snd (session_start cfg True (successor_req rf nw) ss1))"
    using s f(1) by (simp add: paused_round_def tick_one_def ss0_def [symmetric] ss1_def [symmetric] nxt_def)
  show ?thesis
  proof (cases nxt)
    case None
    then show ?thesis using none by (simp add: round_eq chained_to_def)
  next
    case (Some nw)
    define q where "q = successor_req rf nw"
    have q: "sr_key q = key" "sr_playhead_seed q = Some playhead" using r by (simp_all add: q_def successor_req_def rf_def)
    have "run_window_end cfg q None \<le> limit"
      using successor_end [of True cfg rf nw] Some assms(2) r(3) by (simp add: nxt_def q_def rf_def)
    moreover have "reserve q ss1 = Some (None, ss1\<lparr>ss_slots := hm_put key Starting (ss_slots ss1)\<rparr>)"
      using none q(1) by (simp add: reserve_def)
    ultimately show ?thesis using q
      by (simp add: round_eq Some q_def [symmetric] session_start_def chained_to_def go_live_def new_run_def release_def Let_def)
  qed
next
  case False
  then have "paused_round cfg key ss = ss"
    by (auto simp: paused_round_def split: option.splits slot.splits)
  then show ?thesis using assms(1) by simp
qed

text \<open>
  C29: watching a file never becomes pulling it. However long a viewer pauses with its watch
  live, and however often runs end and ticks chain the next window, the run that holds the
  key ends at most two configured windows beyond the viewer's position (or where it already
  ended), and the position it inherits does not move.
\<close>

theorem paused_chain_bounded:
  assumes "map_of (ss_slots ss) key = Some (Live i)" "map_of (ss_runs ss) i = Some r" "rn_key r = key"
    and "map_of (ss_slots ((paused_round cfg key ^^ n) ss)) key = Some (Live j)"
  shows "\<exists>r'. map_of (ss_runs ((paused_round cfg key ^^ n) ss)) j = Some r' \<and> rn_playhead r' = rn_playhead r
    \<and> rn_end r' \<le> max (rn_end r) (rn_playhead r + 2 * max (session_window_bytes cfg) 1)"
proof -
  define limit where "limit = max (rn_end r) (rn_playhead r + 2 * max (session_window_bytes cfg) 1)"
  have "chained_to key (rn_playhead r) limit ((paused_round cfg key ^^ n) ss)"
  proof (induction n)
    case 0
    then show ?case using assms(1-3) by (simp add: chained_to_def limit_def)
  qed (simp add: paused_round_chained limit_def)
  then show ?thesis using assms(4) by (auto simp: chained_to_def limit_def)
qed

theorem paused_chain_bounded_witness:
  "\<exists>(ss :: sessions) r'. map_of (ss_slots ss) ''k'' = Some (Live 1) \<and> map_of (ss_runs ss) 1 = Some r' \<and> rn_end r' \<le> 16"
proof -
  define r where "r = new_run (demo_req 0) 8"
  define ss where "ss = \<lparr>ss_slots = [(''k'', Live 0)], ss_runs = [(0, r)], ss_next = 1\<rparr>"
  have s: "map_of (ss_slots ((paused_round demo_cfg ''k'' ^^ 1) ss)) ''k'' = Some (Live 1)"
    by (simp add: ss_def r_def paused_round_def run_finish_def update_run_def tick_one_def wants_successor_def
        new_run_def demo_req_def demo_cfg_def config_default_def window_for_def floor_bytes_def sat_mul_def sat_add_def
        CHAIN_KEEP_AHEAD_WINDOWS_def session_finish_def hm_del_def hm_put_def session_start_def reserve_def successor_req_def
        run_window_end_def go_live_def U64_MAX_def)
  have "map_of (ss_slots ss) ''k'' = Some (Live 0)" "map_of (ss_runs ss) 0 = Some r" "rn_key r = ''k''"
    by (simp_all add: ss_def r_def new_run_def demo_req_def)
  from paused_chain_bounded [OF this s] obtain r' where
    "map_of (ss_runs ((paused_round demo_cfg ''k'' ^^ 1) ss)) 1 = Some r'" "rn_end r' \<le> 16"
    by (auto simp: r_def new_run_def demo_req_def demo_cfg_def)
  with s show ?thesis by (intro exI [of _ "(paused_round demo_cfg ''k'' ^^ 1) ss"] exI [of _ r']) simp
qed

subsection \<open>Two writers\<close>

text \<open>
  A live run that was handed over keeps writing its part file. When its successor ends early,
  the key is free again, and a request at the first window starts a second driver over the
  same part file while the first still writes it.
\<close>

lemma two_writers_one_part:
  "\<exists>w i j r r'. session_states demo_cfg w \<and> i \<noteq> j
     \<and> map_of (ss_runs (sw_ss w)) i = Some r \<and> map_of (ss_runs (sw_ss w)) j = Some r'
     \<and> \<not> rn_finished r \<and> \<not> rn_finished r'
     \<and> segpart_path (rn_key r) (rn_start r) (rn_end r) = segpart_path (rn_key r') (rn_start r') (rn_end r')"
proof -
  define start_in where "start_in q b ss = snd (go_live q (run_window_end demo_cfg q b) ss)" for q b ss
  have begin_run: "session_states demo_cfg \<lparr>sw_ss = start_in q b ss', sw_pending = []\<rparr>"
    if "session_states demo_cfg \<lparr>sw_ss = ss, sw_pending = []\<rparr>" "reserve q ss = Some (b, ss')"
      "sr_start q < run_window_end demo_cfg q b" for q b ss ss'
  proof -
    have "session_step demo_cfg \<lparr>sw_ss = ss, sw_pending = []\<rparr> \<lparr>sw_ss = ss', sw_pending = [(q, b)]\<rparr>"
      using session_step.reserved [of q "\<lparr>sw_ss = ss, sw_pending = []\<rparr>" b ss'] that(2) by simp
    moreover have "session_step demo_cfg \<lparr>sw_ss = ss', sw_pending = [(q, b)]\<rparr> \<lparr>sw_ss = start_in q b ss', sw_pending = []\<rparr>"
      using session_step.started [of q b "\<lparr>sw_ss = ss', sw_pending = [(q, b)]\<rparr>" demo_cfg] that(3) by (simp add: start_in_def)
    ultimately show ?thesis using that(1) by (simp add: session_states_def)
  qed
  note ev = start_in_def reserve_def demo_req_def sessions_new_def hm_put_def hm_del_def go_live_def run_window_end_def
    window_for_def floor_bytes_def demo_cfg_def config_default_def sat_add_def sat_mul_def U64_MAX_def behind_of_def new_run_def
    run_finish_def update_run_def
  define a where "a = start_in (demo_req 0) None (sessions_new\<lparr>ss_slots := [(''k'', Starting)]\<rparr>)"
  have a: "session_states demo_cfg \<lparr>sw_ss = a, sw_pending = []\<rparr>"
    unfolding a_def by (rule begin_run [of sessions_new]) (simp_all add: ev session_states_def)
  define b where "b = start_in (demo_req 8) (Some (8, 0)) (a\<lparr>ss_slots := [(''k'', Starting)]\<rparr>)"
  have b: "session_states demo_cfg \<lparr>sw_ss = b, sw_pending = []\<rparr>"
    unfolding b_def by (rule begin_run [OF a]) (simp_all add: a_def ev)
  have c: "session_states demo_cfg \<lparr>sw_ss = run_finish 1 b, sw_pending = []\<rparr>"
    using b session_step.driven [of demo_cfg "\<lparr>sw_ss = b, sw_pending = []\<rparr>" 1] by (simp add: session_states_def)
  define d where "d = start_in (demo_req 0) None ((run_finish 1 b)\<lparr>ss_slots := [(''k'', Starting)]\<rparr>)"
  have d: "session_states demo_cfg \<lparr>sw_ss = d, sw_pending = []\<rparr>"
    unfolding d_def by (rule begin_run [OF c]) (simp_all add: b_def a_def ev)
  show ?thesis
    using d by (intro exI [of _ "\<lparr>sw_ss = d, sw_pending = []\<rparr>"] exI [of _ 0] exI [of _ 2] exI [of _ "new_run (demo_req 0) 8"] conjI)
      (simp_all add: d_def b_def a_def ev)
qed

subsection \<open>What a run leaves on disk\<close>

lemma rename_segment:
  assumes "rename_file (segpart_path k s e) (seg_path k s e) (write_file (segpart_path k s e) f d) = Some d'" "wf_dir d"
    and "s < 2 ^ 64" "e < 2 ^ 64" "\<not> file_exists d (seg_path k s e)"
  shows "wf_dir d'" "staged_bytes d' = staged_bytes d + length (f_data f)"
    and "map_of d' (seg_path k s e) = Some f"
proof -
  let ?part = "segpart_path k s e" and ?seg = "seg_path k s e"
  define d0 where "d0 = remove_file ?part (write_file ?part f d)"
  have d': "d' = write_file ?seg f d0" using assms(1) by (simp add: rename_file_def d0_def)
  have wf0: "wf_dir d0" using assms(2) by (simp add: d0_def wf_dir_remove_file wf_dir_write_file)
  have "staged_bytes d0 = staged_bytes d"
    using staged_write [OF assms(2), of ?part f] assms(2) by (simp add: d0_def staged_remove_other wf_dir_write_file)
  moreover have "file_len d0 ?seg = 0" using assms(5) by (simp add: d0_def file_len_def file_exists_def)
  ultimately show "staged_bytes d' = staged_bytes d + length (f_data f)"
    using staged_write [OF wf0, of ?seg f] assms(3,4) by (simp add: d')
  show "wf_dir d'" using wf0 by (simp add: d' wf_dir_write_file)
  show "map_of d' ?seg = Some f" by (simp add: d')
qed

lemma seal_span_keeps_file:
  "map_of (st_dir (seal_span cfg encode sp st)) (seg_path (fs_key sp) (fs_start sp) (fs_end sp))
     = map_of (st_dir st) (seg_path (fs_key sp) (fs_start sp) (fs_end sp))"
  by (auto simp: seal_span_def remove_key_segments_def Let_def split: option.splits)

lemma part_file_account:
  assumes "wf_dir (st_dir st)" "account_exact st"
    and "d = st_dir st \<or> d = remove_file (segpart_path k s e) (st_dir st) \<or> (\<exists>f. d = write_file (segpart_path k s e) f (st_dir st))"
  shows "wf_dir d \<and> account_exact (st\<lparr>st_dir := d\<rparr>)"
  using assms staged_write [OF assms(1), of "segpart_path k s e"]
  by (auto simp: account_exact_def wf_dir_remove_file wf_dir_write_file staged_remove_other)



end
