(* ===== verification/Boot.thy ===== *)
theory Boot
  imports Config Net Backend
begin

text \<open>
  Boot validation: \<^verbatim>\<open>upstream_url_policy\<close> and \<^verbatim>\<open>Config::from_raw\<close> of \<^verbatim>\<open>src/config.rs\<close>.

  The raw record has the fields of the validated one (TOML decoding and per-key defaults are
  serde's), with its routes in file order; so the model gives both the type \<open>config\<close>. Each
  \<^verbatim>\<open>bail!\<close> is a constructor of \<open>boot_error\<close>; the checks run in the order of the source and the
  first that fails decides. The \<^verbatim>\<open>root_path\<close> warning only logs and is left out.
\<close>

datatype boot_error =
    No_upstreams | No_routes | Zero_concurrency | Zero_front_threads | Half_origin_token
  | Zero_max_size | Zero_inactive_ttl
  | Empty_upstream_id | Empty_base_url string | Duplicate_upstream string
  | Relative_url string | Cleartext_url string | Bad_scheme string
  | Redirect_unsupported string | Redirect_without_token string
  | Dangling_profile string | Unknown_upstream string | No_default_route | Bad_caps caps_error

type_synonym raw_config = config

fun first_error :: "'e option list \<Rightarrow> 'e option" where
  "first_error [] = None"
| "first_error (None # es) = first_error es"
| "first_error (Some e # es) = Some e"

definition refuse_if :: "bool \<Rightarrow> 'e \<Rightarrow> 'e option" where
  "refuse_if b e = (if b then Some e else None)"

definition upstream_url_policy :: "string \<Rightarrow> string \<Rightarrow> boot_error option" where
  "upstream_url_policy base_url uid =
     (case split_scheme base_url of
        None \<Rightarrow> Some (Relative_url uid)
      | Some (scheme, rest) \<Rightarrow>
          (let host = authority_host (hd (split_on CHR ''/'' rest))
           in if scheme = ''https'' then None
              else if scheme = ''http'' then (if is_loopback_host host then None else Some (Cleartext_url uid))
              else Some (Bad_scheme uid)))"

fun check_ids :: "string list \<Rightarrow> upstream_config list \<Rightarrow> boot_error option" where
  "check_ids seen [] = None"
| "check_ids seen (u # us) =
     (if trim (u_id u) = [] then Some Empty_upstream_id
      else if trim (u_base_url u) = [] then Some (Empty_base_url (u_id u))
      else if u_id u \<in> set seen then Some (Duplicate_upstream (u_id u))
      else check_ids (u_id u # seen) us)"

definition check_upstream :: "upstream_config \<Rightarrow> boot_error option" where
  "check_upstream u =
     first_error
       [upstream_url_policy (u_base_url u) (u_id u),
        refuse_if (u_cold_miss u = Redirect \<and> u_backend_type u \<noteq> ''openlist'') (Redirect_unsupported (u_id u)),
        refuse_if (u_cold_miss u = Redirect \<and> u_link_api_token_env u = None) (Redirect_without_token (u_id u))]"

definition check_profile :: "raw_config \<Rightarrow> upstream_config \<Rightarrow> boot_error option" where
  "check_profile raw u =
     refuse_if (u_cache_profile u \<notin> {''nocache'', ''efficient''} \<and> map_of (cache_profiles raw) (u_cache_profile u) = None)
       (Dangling_profile (u_id u))"

definition check_route :: "raw_config \<Rightarrow> route_rule \<Rightarrow> boot_error option" where
  "check_route raw r = refuse_if (rr_upstream r \<notin> u_id ` set (upstreams raw)) (Unknown_upstream (rr_upstream r))"

definition raw_checks :: "raw_config \<Rightarrow> boot_error option list" where
  "raw_checks raw =
     [refuse_if (upstreams raw = []) No_upstreams,
      refuse_if (routes raw = []) No_routes,
      refuse_if (concurrency_per_upstream raw = 0) Zero_concurrency,
      refuse_if (front_threads raw = Some 0) Zero_front_threads,
      refuse_if ((front_origin_token_header raw \<noteq> None) \<noteq> (front_origin_token_env raw \<noteq> None)) Half_origin_token,
      refuse_if (max_size_bytes raw = 0) Zero_max_size,
      refuse_if (inactive_ttl_secs raw = 0) Zero_inactive_ttl,
      check_ids [] (upstreams raw)]
     @ map check_upstream (upstreams raw)
     @ map (check_profile raw) (upstreams raw)
     @ map (check_route raw) (routes raw)
     @ [refuse_if (\<not> (\<exists>r\<in>set (routes raw). rr_prefix r = [])) No_default_route]"

definition from_raw :: "raw_config \<Rightarrow> boot_error + config" where
  "from_raw raw =
     (case first_error (raw_checks raw) of
        Some e \<Rightarrow> Inl e
      | None \<Rightarrow>
          (let cfg = raw\<lparr>routes := route_table_new (routes raw)\<rparr>
           in case caps_validate (content_caps cfg) of
                Some e \<Rightarrow> Inl (Bad_caps e)
              | None \<Rightarrow> Inr cfg))"

subsection \<open>Lemmas\<close>

lemma first_error_None: "first_error es = None \<longleftrightarrow> (\<forall>e\<in>set es. e = None)"
  by (induction es rule: first_error.induct) auto

lemma refuse_if_None [simp]: "refuse_if b e = None \<longleftrightarrow> \<not> b" "None = refuse_if b e \<longleftrightarrow> \<not> b"
  by (auto simp: refuse_if_def)

lemma check_ids_distinct:
  "check_ids seen us = None \<Longrightarrow> distinct (map u_id us) \<and> set (map u_id us) \<inter> set seen = {}"
  by (induction seen us rule: check_ids.induct) (auto split: if_splits)

text \<open>What an accepted base URL is.\<close>

definition credentials_safe :: "string \<Rightarrow> bool" where
  "credentials_safe url =
     (\<exists>scheme rest. split_scheme url = Some (scheme, rest)
        \<and> (scheme = ''https'' \<or> scheme = ''http'' \<and> is_loopback_host (authority_host (hd (split_on CHR ''/'' rest)))))"

lemma upstream_url_policy_None: "upstream_url_policy url uid = None \<longleftrightarrow> credentials_safe url"
  by (auto simp: upstream_url_policy_def credentials_safe_def Let_def split: option.splits if_splits)

lemma from_raw_accepted:
  assumes "from_raw raw = Inr cfg"
  shows "cfg = raw\<lparr>routes := route_table_new (routes raw)\<rparr>"
    and "\<And>e. e \<in> set (raw_checks raw) \<Longrightarrow> e = None"
    and "caps_validate (content_caps cfg) = None"
  using assms by (auto simp: from_raw_def Let_def first_error_None split: option.splits)

lemma find_some: "x \<in> set xs \<Longrightarrow> P x \<Longrightarrow> \<exists>y. find P xs = Some y"
  by (induction xs) auto

lemma route_always_matches:
  assumes "r \<in> set rules" "rr_prefix r = []"
  shows "\<exists>r\<in>set rules. route_matches key r \<and> route_resolve (route_table_new rules) key = Some (rr_upstream r)"
proof -
  have "route_matches key r" using assms by (simp add: route_matches_def starts_with_def)
  then obtain r' where r': "find (route_matches key) (route_table_new rules) = Some r'"
    using find_some [of r "route_table_new rules"] assms(1) by auto
  then have "r' \<in> set rules" "route_matches key r'"
    by (auto simp: find_Some_iff dest: nth_mem)
  then show ?thesis using r' by (auto simp: route_resolve_def)
qed

subsection \<open>Properties\<close>


lemma default_upstream_ok:
  assumes "us = [\<lparr>u_id = ''primary'', u_backend_type = ''openlist'', u_base_url = ''http://127.0.0.1:5244/dav'',
    u_cold_miss = Proxy, u_cache_profile = ''efficient'', u_link_api_token_env = None\<rparr>]"
  shows "check_ids [] us = None" "map check_upstream us = [None]"
proof -
  have "trim ''primary'' = ''primary''" "trim ''http://127.0.0.1:5244/dav'' = ''http://127.0.0.1:5244/dav''"
    "trim ''127.0.0.1'' = ''127.0.0.1''"
    by (rule trim_printable; simp add: printable_def)+
  note trims = this
  then show "check_ids [] us = None" by (simp add: assms)
  have "authority_host (hd (split_on CHR ''/'' ''127.0.0.1:5244/dav'')) = ''127.0.0.1''" by code_simp
  moreover have "parse_ip (trim_brackets ''127.0.0.1'') = Some (V4 [127, 0, 0, 1])"
    by (simp add: parse_ip_def read_v4_def octet_def digit_of_def expect_def trim_brackets_def)
  then have "is_loopback_host ''127.0.0.1''" by (simp add: is_loopback_host_iff trims v4_is_loopback_def)
  moreover have "split_scheme ''http://127.0.0.1:5244/dav'' = Some (''http'', ''127.0.0.1:5244/dav'')" by code_simp
  ultimately have "credentials_safe ''http://127.0.0.1:5244/dav''" by (simp add: credentials_safe_def)
  then show "map check_upstream us = [None]"
    by (simp add: assms check_upstream_def first_error_None upstream_url_policy_None)
qed

lemma from_raw_default: "from_raw config_default = Inr config_default"
proof -
  have "route_table_new (routes config_default) = routes config_default" by (simp add: config_default_def route_table_new_def)
  moreover have "caps_validate (content_caps config_default) = None"
    by (simp add: caps_validate_None content_caps_def config_default_def DEFAULT_MAX_EXPIRY_SECS_def
        DEFAULT_SESSION_RPS_def DEFAULT_SESSION_MIB_PER_MIN_def PROTOCOL_MAX_EXPIRES_SECS_def)
  moreover have "first_error (raw_checks config_default) = None"
    using default_upstream_ok [of "upstreams config_default"]
    by (auto simp: first_error_None raw_checks_def config_default_def check_profile_def check_route_def route_table_new_def)
  ultimately show ?thesis by (simp add: from_raw_def Let_def)
qed


text \<open>
  The loopback exception looks at the text before the first colon, which in an authority with
  user information is the user name.
\<close>

lemma userinfo_passes_as_loopback:
  "upstream_url_policy ''http://localhost:pw@evil.example/dav'' uid = None"
proof -
  have "trim ''localhost'' = ''localhost''" by (rule trim_printable) (simp add: printable_def)
  then have "is_loopback_host ''localhost''"
    by (simp add: is_loopback_host_def trim_brackets_def to_ascii_lowercase_def)
  moreover have "authority_host (hd (split_on CHR ''/'' ''localhost:pw@evil.example/dav'')) = ''localhost''" by code_simp
  moreover have "split_scheme ''http://localhost:pw@evil.example/dav'' = Some (''http'', ''localhost:pw@evil.example/dav'')"
    by code_simp
  ultimately show ?thesis by (simp add: upstream_url_policy_None credentials_safe_def)
qed

end
