(* ===== verification/Sigv4.thy ===== *)
theory Sigv4
  imports Signing Net "HOL-Library.Product_Lexorder" "HOL-Library.List_Lexorder" "HOL-Library.Char_ord"
begin

unbundle bit_operations_syntax

text \<open>
  Inbound SigV4 verification: \<^verbatim>\<open>src/sigv4.rs\<close>.

  HMAC-SHA256 and SHA-256 come from the \<^verbatim>\<open>hmac\<close> and \<^verbatim>\<open>sha2\<close> crates and are fields of the
  record \<open>crypto\<close>; what the theorems need of them, the digest length, is a hypothesis. A
  string is the list of its UTF-8 bytes; \<open>as_bytes\<close> turns it into machine bytes. The clock is an
  argument, an \<^verbatim>\<open>i64\<close> as \<open>int\<close>: the sums and differences of seconds here stay far inside 64
  bits for every date with a four-digit year.
\<close>

record crypto =
  hmac_fn :: "byte list \<Rightarrow> byte list \<Rightarrow> byte list"
  sha256_fn :: "byte list \<Rightarrow> byte list"

definition as_bytes :: "string \<Rightarrow> byte list" where
  "as_bytes s = map (\<lambda>c. word_of_nat (of_char c)) s"

definition NL :: char where
  "NL = CHR 0x0A"

definition join_with :: "string \<Rightarrow> string list \<Rightarrow> string" where
  "join_with sep ws = (case ws of [] \<Rightarrow> [] | w # rest \<Rightarrow> w @ concat (map (\<lambda>x. sep @ x) rest))"

subsection \<open>Canonical primitives\<close>

definition constant_time_eq :: "byte list \<Rightarrow> byte list \<Rightarrow> bool" where
  "constant_time_eq a b =
     (if length a \<noteq> length b then False
      else foldl (\<lambda>diff (x, y). diff OR (x XOR y)) 0 (zip a b) = 0)"

definition upper_hex :: "nat \<Rightarrow> char" where
  "upper_hex n = (if n < 10 then char_of (48 + n) else char_of (65 + (n - 10)))"

definition lower_hex :: "nat \<Rightarrow> char" where
  "lower_hex n = (if n < 10 then char_of (48 + n) else char_of (97 + (n - 10)))"

definition unreserved :: "char \<Rightarrow> bool" where
  "unreserved c =
     (let n = of_char c :: nat
      in 65 \<le> n \<and> n \<le> 90 \<or> 97 \<le> n \<and> n \<le> 122 \<or> 48 \<le> n \<and> n \<le> 57
         \<or> c = CHR ''_'' \<or> c = CHR ''-'' \<or> c = CHR 0x7E \<or> c = CHR ''.'')"

definition uri_encode :: "bool \<Rightarrow> string \<Rightarrow> string" where
  "uri_encode encode_slash input =
     concat (map (\<lambda>c. if unreserved c then [c]
                      else if c = CHR ''/'' \<and> \<not> encode_slash then ''/''
                      else [CHR ''%'', upper_hex (of_char c div 16), upper_hex (of_char c mod 16)]) input)"

definition uri_encode_string :: "string \<Rightarrow> bool \<Rightarrow> string" where
  "uri_encode_string input encode_slash = uri_encode encode_slash input"

text \<open>\<^verbatim>\<open>str::split_whitespace\<close>\<close>

function split_ws_from :: "string \<Rightarrow> string \<Rightarrow> string list" where
  "split_ws_from cur s =
     (case s of
        [] \<Rightarrow> (if cur = [] then [] else [rev cur])
      | c # cs \<Rightarrow>
          (case find (\<lambda>w. w \<noteq> [] \<and> starts_with s w) ws_chars of
             Some w \<Rightarrow> (if cur = [] then [] else [rev cur]) @ split_ws_from [] (drop (length w) s)
           | None \<Rightarrow> split_ws_from (c # cur) cs))"
  by pat_completeness auto
termination
  by (relation "measure (length \<circ> snd)") (auto simp: find_Some_iff starts_with_iff)

declare split_ws_from.simps [simp del]

definition normalize_header_value :: "string \<Rightarrow> string" where
  "normalize_header_value value = join_with '' '' (split_ws_from [] value)"

definition hex_encode :: "byte list \<Rightarrow> string" where
  "hex_encode bytes = concat (map (\<lambda>b. [lower_hex (unat b div 16), lower_hex (unat b mod 16)]) bytes)"

definition sha256_hex :: "crypto \<Rightarrow> string \<Rightarrow> string" where
  "sha256_hex cr data = hex_encode (sha256_fn cr (as_bytes data))"

definition lower_hex_char :: "char \<Rightarrow> bool" where
  "lower_hex_char c = (let n = of_char c :: nat in 48 \<le> n \<and> n \<le> 57 \<or> 97 \<le> n \<and> n \<le> 102)"

definition is_sha256_checksum :: "string \<Rightarrow> bool" where
  "is_sha256_checksum s = (length s = 64 \<and> list_all lower_hex_char s)"

subsection \<open>Dates and credentials\<close>

record amz_date =
  ad_year :: nat
  ad_month :: nat
  ad_day :: nat
  ad_hour :: nat
  ad_minute :: nat
  ad_second :: nat

fun d2 :: "char \<Rightarrow> char \<Rightarrow> nat option" where
  "d2 a b = (case (digit_of a, digit_of b) of (Some x, Some y) \<Rightarrow> Some (x * 10 + y) | _ \<Rightarrow> None)"

fun d4 :: "char \<Rightarrow> char \<Rightarrow> char \<Rightarrow> char \<Rightarrow> nat option" where
  "d4 a b c d =
     (case (digit_of a, digit_of b, digit_of c, digit_of d) of
        (Some w, Some x, Some y, Some z) \<Rightarrow> Some (w * 1000 + x * 100 + y * 10 + z)
      | _ \<Rightarrow> None)"

definition amz_date_parse :: "string \<Rightarrow> amz_date option" where
  "amz_date_parse s =
     (case s of
        [y1, y2, y3, y4, m1, m2, e1, e2, t, h1, h2, i1, i2, s1, s2, z] \<Rightarrow>
          (case (d4 y1 y2 y3 y4, d2 m1 m2, d2 e1 e2, d2 h1 h2, d2 i1 i2, d2 s1 s2) of
             (Some y, Some m, Some d, Some h, Some i, Some sec) \<Rightarrow>
               if t \<noteq> CHR ''T'' \<or> z \<noteq> CHR ''Z'' \<or> \<not> (1 \<le> m \<and> m \<le> 12) \<or> d = 0 \<or> d > 31 then None
               else Some \<lparr>ad_year = y, ad_month = m, ad_day = d, ad_hour = h, ad_minute = i, ad_second = sec\<rparr>
           | _ \<Rightarrow> None)
      | _ \<Rightarrow> None)"

text \<open>\<^verbatim>\<open>{:02}\<close> and \<^verbatim>\<open>{:04}\<close>\<close>

definition pad :: "nat \<Rightarrow> nat \<Rightarrow> string" where
  "pad k n = replicate (k - length (show_nat n)) CHR ''0'' @ show_nat n"

definition fmt_date :: "amz_date \<Rightarrow> string" where
  "fmt_date d = pad 4 (ad_year d) @ pad 2 (ad_month d) @ pad 2 (ad_day d)"

definition fmt_iso8601 :: "amz_date \<Rightarrow> string" where
  "fmt_iso8601 d =
     pad 4 (ad_year d) @ pad 2 (ad_month d) @ pad 2 (ad_day d) @ ''T''
     @ pad 2 (ad_hour d) @ pad 2 (ad_minute d) @ pad 2 (ad_second d) @ ''Z''"

text \<open>
  Days from the civil date, then seconds. The only negative dividend is the era of January and
  February of year 0, where \<^verbatim>\<open>(yy - 399) / 400\<close> is exact.
\<close>

definition days_from_civil :: "int \<Rightarrow> int \<Rightarrow> int \<Rightarrow> int" where
  "days_from_civil y m d =
     (let yy = (if m \<le> 2 then y - 1 else y);
          era = (if yy \<ge> 0 then yy else yy - 399) div 400;
          yoe = yy - era * 400;
          mp = (m + 9) mod 12;
          doy = (153 * mp + 2) div 5 + d - 1;
          doe = yoe * 365 + yoe div 4 - yoe div 100 + doy
      in era * 146097 + doe - 719468)"

definition to_unix :: "amz_date \<Rightarrow> int option" where
  "to_unix d =
     Some (days_from_civil (int (ad_year d)) (int (ad_month d)) (int (ad_day d)) * 86400
           + int (ad_hour d) * 3600 + int (ad_minute d) * 60 + int (ad_second d))"

record credential_v4 =
  cr_access_key_id :: string
  cr_date :: string
  cr_region :: string
  cr_service :: string

definition credential_parse :: "string \<Rightarrow> credential_v4 option" where
  "credential_parse input =
     (case split_on CHR ''/'' input of
        [ak, date, region, service, terminator] \<Rightarrow>
          if terminator \<noteq> ''aws4_request'' then None
          else if ak = [] \<or> length date \<noteq> 8 \<or> \<not> list_all (\<lambda>c. digit_of c \<noteq> None) date then None
          else Some \<lparr>cr_access_key_id = ak, cr_date = date, cr_region = region, cr_service = service\<rparr>
      | _ \<Rightarrow> None)"

subsection \<open>The canonical request\<close>

definition header_lookup :: "(string \<times> string) list \<Rightarrow> string \<Rightarrow> string list" where
  "header_lookup headers n = map snd (filter (\<lambda>(k, _). k = n) headers)"

function render_headers :: "(string \<times> string) list \<Rightarrow> string" where
  "render_headers [] = []"
| "render_headers ((name, value) # ps) =
     (if name = ''authorization'' then render_headers ps
      else name @ '':'' @ normalize_header_value value
           @ concat (map (\<lambda>p. CHR '','' # normalize_header_value (snd p)) (takeWhile (\<lambda>p. fst p = name) ps))
           @ [NL] @ render_headers (dropWhile (\<lambda>p. fst p = name) ps))"
  by pat_completeness auto
termination
  by (relation "measure length") (auto intro: le_imp_less_Suc length_dropWhile_le)

definition canonical_headers :: "string list \<Rightarrow> (string \<Rightarrow> string list) \<Rightarrow> string option" where
  "canonical_headers signed_names lookup =
     (if \<exists>n\<in>set signed_names. lookup n = [] then None
      else Some (render_headers (sort_key fst (concat (map (\<lambda>n. map (\<lambda>v. (n, v)) (lookup n)) signed_names)))))"

definition signed_headers_list :: "string list \<Rightarrow> string" where
  "signed_headers_list signed_names = join_with '';'' (remdups_adj signed_names)"

definition canonical_query :: "(string \<times> string) list \<Rightarrow> bool \<Rightarrow> string" where
  "canonical_query pairs skip_signature =
     join_with ''&'' (map (\<lambda>(n, v). n @ ''='' @ v)
       (sort (map (\<lambda>(n, v). (uri_encode_string n True, uri_encode_string v True))
          (filter (\<lambda>(n, _). \<not> (skip_signature \<and> n = SIGNATURE)) pairs))))"

subsection \<open>Keys and signatures\<close>

definition derive_signing_key_uncached :: "crypto \<Rightarrow> string \<Rightarrow> string \<Rightarrow> string \<Rightarrow> string \<Rightarrow> byte list" where
  "derive_signing_key_uncached cr secret date region service =
     (let date_key = hmac_fn cr (as_bytes (''AWS4'' @ secret)) (as_bytes date);
          region_key = hmac_fn cr date_key (as_bytes region);
          service_key = hmac_fn cr region_key (as_bytes service)
      in hmac_fn cr service_key (as_bytes ''aws4_request''))"

definition SIGNING_KEY_CACHE_CAP :: nat where
  "SIGNING_KEY_CACHE_CAP = 64"

type_synonym key_cache = "(string \<times> byte list) list"

definition cache_key_of :: "string \<Rightarrow> string \<Rightarrow> string \<Rightarrow> string \<Rightarrow> string" where
  "cache_key_of secret date region service =
     secret @ [CHR 0x01] @ date @ [CHR 0x01] @ region @ [CHR 0x01] @ service"

definition derive_signing_key ::
  "crypto \<Rightarrow> string \<Rightarrow> string \<Rightarrow> string \<Rightarrow> string \<Rightarrow> key_cache \<Rightarrow> byte list \<times> key_cache" where
  "derive_signing_key cr secret date region service cache =
     (let key = cache_key_of secret date region service
      in case map_of cache key of
           Some k \<Rightarrow> (k, cache)
         | None \<Rightarrow>
             (let derived = derive_signing_key_uncached cr secret date region service;
                  cache1 = (if length cache \<ge> SIGNING_KEY_CACHE_CAP then [] else cache)
              in (derived, hm_put key derived cache1)))"

text \<open>
  The memo returns what the uncached derivation returns (shown below), so the callers use the
  latter.
\<close>

definition calculate_signature :: "crypto \<Rightarrow> string \<Rightarrow> string \<Rightarrow> string \<Rightarrow> string \<Rightarrow> string \<Rightarrow> string" where
  "calculate_signature cr sts secret date region service =
     hex_encode (hmac_fn cr (derive_signing_key_uncached cr secret date region service) (as_bytes sts))"

definition string_to_sign :: "crypto \<Rightarrow> string \<Rightarrow> string \<Rightarrow> string \<Rightarrow> string \<Rightarrow> string \<Rightarrow> string" where
  "string_to_sign cr canonical_request amz_date_iso scope_date region service =
     ''AWS4-HMAC-SHA256'' @ [NL] @ amz_date_iso @ [NL] @ scope_date @ ''/'' @ region @ ''/'' @ service
     @ ''/aws4_request'' @ [NL] @ sha256_hex cr canonical_request"

definition verify_signature ::
  "crypto \<Rightarrow> string \<Rightarrow> string option \<Rightarrow> string \<Rightarrow> credential_v4 \<Rightarrow> string \<Rightarrow> string \<Rightarrow> bool" where
  "verify_signature cr canonical_decoded canonical_raw amz_date_iso credential secret expected =
     (let candidates = (case canonical_raw of
            Some raw \<Rightarrow> if raw \<noteq> canonical_decoded then [canonical_decoded, raw] else [canonical_decoded]
          | None \<Rightarrow> [canonical_decoded])
      in list_ex (\<lambda>canonical.
           let sts = string_to_sign cr canonical amz_date_iso (cr_date credential) (cr_region credential) (cr_service credential);
               computed = calculate_signature cr sts secret (cr_date credential) (cr_region credential) (cr_service credential)
           in constant_time_eq (as_bytes computed) (as_bytes expected)) candidates)"

definition path_forms_differ :: "string \<Rightarrow> string \<Rightarrow> bool" where
  "path_forms_differ decoded raw = (decoded \<noteq> raw)"

subsection \<open>Credentials\<close>

record credential_entry =
  ce_secret :: string
  ce_prefix :: "string option"
  ce_session_rps :: "nat option"
  ce_session_mib_per_min :: "u64 option"

type_synonym credential_store = "(string \<times> credential_entry) list"

datatype store_error = Unreadable | Too_open | Unparsable | Empty_file | Empty_field | Duplicate_id

fun load_rows :: "(string \<times> credential_entry) list \<Rightarrow> credential_store \<Rightarrow> store_error + credential_store" where
  "load_rows [] acc = Inr acc"
| "load_rows ((i, e) # rows) acc =
     (if i = [] \<or> ce_secret e = [] then Inl Empty_field
      else if map_of acc i \<noteq> None then Inl Duplicate_id
      else load_rows rows (hm_put i e acc))"

text \<open>\<open>mode\<close> is the file's mode, if it can be read; \<open>rows\<close> what the JSON decoder makes of it.\<close>

definition from_file :: "nat option \<Rightarrow> (string \<times> credential_entry) list option \<Rightarrow> store_error + credential_store" where
  "from_file mode rows =
     (case mode of
        None \<Rightarrow> Inl Unreadable
      | Some m \<Rightarrow>
          if m mod 64 \<noteq> 0 then Inl Too_open
          else case rows of
                 None \<Rightarrow> Inl Unparsable
               | Some [] \<Rightarrow> Inl Empty_file
               | Some rs \<Rightarrow> load_rows rs [])"

definition from_env :: "string option \<Rightarrow> string option \<Rightarrow> credential_store option" where
  "from_env key_id secret =
     (case (key_id, secret) of
        (Some i, Some s) \<Rightarrow>
          if i = [] \<or> s = [] then None
          else Some [(i, \<lparr>ce_secret = s, ce_prefix = None, ce_session_rps = None, ce_session_mib_per_min = None\<rparr>)]
      | _ \<Rightarrow> None)"

definition store_load ::
  "string option \<Rightarrow> nat option \<Rightarrow> (string \<times> credential_entry) list option \<Rightarrow> string option \<Rightarrow> string option
     \<Rightarrow> store_error + credential_store option" where
  "store_load path mode rows key_id secret =
     (case path of
        Some p \<Rightarrow>
          if trim p \<noteq> [] then (case from_file mode rows of Inl e \<Rightarrow> Inl e | Inr s \<Rightarrow> Inr (Some s))
          else Inr (from_env key_id secret)
      | None \<Rightarrow> Inr (from_env key_id secret))"

definition store_lookup :: "credential_store \<Rightarrow> string \<Rightarrow> credential_entry option" where
  "store_lookup st i = map_of st i"

subsection \<open>Verification\<close>

definition MAX_SKEW_SECS :: int where
  "MAX_SKEW_SECS = 900"

record verified_request =
  vr_access_key_id :: string
  vr_expires_secs :: u64

record verify_req =
  vi_method :: string
  vi_uri_path :: string
  vi_raw_uri_path :: string
  vi_query_pairs :: "(string \<times> string) list"
  vi_headers :: "(string \<times> string) list"
  vi_authorization :: "string option"

text \<open>A header value that is no visible ASCII has no \<^verbatim>\<open>to_str\<close>: \<open>None\<close> in the header map.\<close>

definition verify_input ::
  "string \<Rightarrow> string \<Rightarrow> string \<Rightarrow> (string \<times> string) list \<Rightarrow> string option \<Rightarrow> (string \<times> string option) list option \<Rightarrow> verify_req" where
  "verify_input meth uri_path raw_uri_path query_pairs host headers =
     \<lparr>vi_method = meth, vi_uri_path = uri_path, vi_raw_uri_path = raw_uri_path, vi_query_pairs = query_pairs,
      vi_headers = (case headers of
          Some hs \<Rightarrow> List.map_filter (\<lambda>(k, v). map_option (\<lambda>x. (to_ascii_lowercase k, x)) v) hs
        | None \<Rightarrow> (case host of Some h \<Rightarrow> [(''host'', h)] | None \<Rightarrow> [])),
      vi_authorization = (case headers of
          Some hs \<Rightarrow> (case map_of hs ''authorization'' of Some v \<Rightarrow> v | None \<Rightarrow> None)
        | None \<Rightarrow> None)\<rparr>"

definition canonical_text :: "string \<Rightarrow> string \<Rightarrow> string \<Rightarrow> string \<Rightarrow> string \<Rightarrow> string \<Rightarrow> string" where
  "canonical_text meth path qs headers signed_list payload =
     meth @ [NL] @ path @ [NL] @ qs @ [NL] @ headers @ [NL] @ signed_list @ [NL] @ payload"

text \<open>The last steps both forms share: the canonical requests over both path forms, and the comparison.\<close>

definition check_signature ::
  "crypto \<Rightarrow> verify_req \<Rightarrow> string \<Rightarrow> string \<Rightarrow> string list \<Rightarrow> string \<Rightarrow> amz_date \<Rightarrow> credential_v4 \<Rightarrow> string \<Rightarrow> string \<Rightarrow> bool" where
  "check_signature cr input qs headers names payload date credential secret signature =
     verify_signature cr
       (canonical_text (vi_method input) (uri_encode_string (vi_uri_path input) False) qs headers (signed_headers_list names) payload)
       (if path_forms_differ (vi_uri_path input) (vi_raw_uri_path input)
        then Some (canonical_text (vi_method input) (vi_raw_uri_path input) qs headers (signed_headers_list names) payload)
        else None)
       (fmt_iso8601 date) credential secret signature"

definition verify_presigned :: "crypto \<Rightarrow> credential_store \<Rightarrow> verify_req \<Rightarrow> int \<Rightarrow> reason + verified_request" where
  "verify_presigned cr store input now =
     (let get = map_of (vi_query_pairs input)
      in res_bind (ok_or (get ALGORITHM) MissingAlgorithm) (\<lambda>algorithm.
         guard_that (algorithm = ''AWS4-HMAC-SHA256'') UnsupportedAlgorithm (
         res_bind (ok_or (get CREDENTIAL) MissingCredential) (\<lambda>credential_raw.
         res_bind (ok_or (credential_parse credential_raw) MalformedCredential) (\<lambda>credential.
         res_bind (ok_or (get DATE) MissingRequestDate) (\<lambda>date_raw.
         res_bind (ok_or (amz_date_parse date_raw) MalformedRequestDate) (\<lambda>date.
         res_bind (ok_or (get EXPIRES) MissingExpires) (\<lambda>expires_raw.
         res_bind (ok_or (parse_u64 expires_raw) MissingExpires) (\<lambda>expires_secs.
         guard_that (expires_secs \<le> PROTOCOL_MAX_EXPIRES_SECS) ExpiresCapExceeded (
         res_bind (ok_or (get SIGNED_HEADERS) MissingSignedHeaders) (\<lambda>signed_headers_raw.
         guard_that (list_all (\<lambda>c. of_char c < (128 :: nat)) signed_headers_raw) MalformedSignedHeaders (
         res_bind (ok_or (get SIGNATURE) MissingSignature) (\<lambda>signature.
         guard_that (is_sha256_checksum signature) MalformedSignature (
         guard_that (cr_date credential = fmt_date date) CredentialScopeDateMismatch (
         res_bind (ok_or (to_unix date) InvalidRequestDate) (\<lambda>req_unix.
         guard_that (\<not> (now - req_unix < 0 \<and> \<bar>now - req_unix\<bar> > MAX_SKEW_SECS)) RequestDateInFuture (
         guard_that (now - req_unix \<le> int expires_secs) RequestExpired (
         res_bind (ok_or (store_lookup store (cr_access_key_id credential)) UnknownAccessKey) (\<lambda>entry.
         guard_that (cr_service credential = ''s3'') UnsupportedService (
         let names = map to_ascii_lowercase (split_on CHR '';'' signed_headers_raw)
         in guard_that (''host'' \<in> set names) HostNotSigned (
         res_bind (ok_or (canonical_headers names (header_lookup (vi_headers input))) SignedHeaderAbsent) (\<lambda>headers.
         guard_that (check_signature cr input (canonical_query (vi_query_pairs input) True) headers names ''UNSIGNED-PAYLOAD''
                       date credential (ce_secret entry) signature) SignatureMismatch (
         Inr \<lparr>vr_access_key_id = cr_access_key_id credential, vr_expires_secs = expires_secs\<rparr>)))))))))))))))))))))))"

text \<open>The fields of an \<^verbatim>\<open>Authorization\<close> value: the last of each name wins, an unknown name is skipped.\<close>

record auth_fields =
  af_credential :: "credential_v4 option"
  af_signed_headers :: "string option"
  af_signature :: "string option"

definition auth_field :: "string \<Rightarrow> auth_fields \<Rightarrow> reason + auth_fields" where
  "auth_field part acc =
     (case split_once CHR ''='' (trim part) of
        None \<Rightarrow> Inl MalformedAuthorizationHeader
      | Some (k, v) \<Rightarrow>
          if k = ''Credential'' then
            (case credential_parse v of
               None \<Rightarrow> Inl MalformedCredential
             | Some c \<Rightarrow> Inr (acc\<lparr>af_credential := Some c\<rparr>))
          else if k = ''SignedHeaders'' then Inr (acc\<lparr>af_signed_headers := Some (to_ascii_lowercase v)\<rparr>)
          else if k = ''Signature'' then
            (if is_sha256_checksum v then Inr (acc\<lparr>af_signature := Some v\<rparr>) else Inl MalformedSignature)
          else Inr acc)"

fun auth_parts :: "string list \<Rightarrow> auth_fields \<Rightarrow> reason + auth_fields" where
  "auth_parts [] acc = Inr acc"
| "auth_parts (p # ps) acc = (case auth_field p acc of Inl e \<Rightarrow> Inl e | Inr acc' \<Rightarrow> auth_parts ps acc')"

definition verify_header :: "crypto \<Rightarrow> credential_store \<Rightarrow> verify_req \<Rightarrow> string \<Rightarrow> int \<Rightarrow> reason + verified_request" where
  "verify_header cr store input auth_header now =
     res_bind (ok_or (strip_prefix ''AWS4-HMAC-SHA256'' auth_header) UnsupportedAuthScheme) (\<lambda>rest.
     res_bind (auth_parts (split_on CHR '','' rest)
                 \<lparr>af_credential = None, af_signed_headers = None, af_signature = None\<rparr>) (\<lambda>fields.
     res_bind (ok_or (af_credential fields) MissingCredential) (\<lambda>credential.
     res_bind (ok_or (af_signed_headers fields) MissingSignedHeaders) (\<lambda>signed_headers_raw.
     res_bind (ok_or (af_signature fields) MissingSignature) (\<lambda>signature.
     res_bind (ok_or (map_of (vi_headers input) ''x-amz-date'') MissingRequestDate) (\<lambda>date_raw.
     res_bind (ok_or (amz_date_parse date_raw) MalformedRequestDate) (\<lambda>date.
     guard_that (cr_date credential = fmt_date date) CredentialScopeDateMismatch (
     res_bind (ok_or (to_unix date) InvalidRequestDate) (\<lambda>req_unix.
     guard_that (\<not> \<bar>now - req_unix\<bar> > MAX_SKEW_SECS) RequestTimeSkewed (
     res_bind (ok_or (store_lookup store (cr_access_key_id credential)) UnknownAccessKey) (\<lambda>entry.
     guard_that (cr_service credential = ''s3'') UnsupportedService (
     let names = split_on CHR '';'' signed_headers_raw
     in guard_that (names \<noteq> []) EmptySignedHeaders (
     guard_that (''host'' \<in> set names) HostNotSigned (
     res_bind (ok_or (canonical_headers names (header_lookup (vi_headers input))) SignedHeaderAbsent) (\<lambda>headers.
     let payload_hash = (case map_of (vi_headers input) ''x-amz-content-sha256'' of Some v \<Rightarrow> v | None \<Rightarrow> ''UNSIGNED-PAYLOAD'')
     in guard_that (\<not> starts_with payload_hash ''STREAMING-'') StreamingPayload (
     guard_that (check_signature cr input (canonical_query (vi_query_pairs input) False) headers names payload_hash
                   date credential (ce_secret entry) signature) SignatureMismatch (
     Inr \<lparr>vr_access_key_id = cr_access_key_id credential, vr_expires_secs = 0\<rparr>)))))))))))))))))"

datatype verify_outcome = Anonymous | Verified verified_request | Failed reason

definition outcome_of :: "reason + verified_request \<Rightarrow> verify_outcome" where
  "outcome_of r = (case r of Inr v \<Rightarrow> Verified v | Inl e \<Rightarrow> Failed e)"

definition verify_optional :: "crypto \<Rightarrow> credential_store option \<Rightarrow> verify_req \<Rightarrow> int \<Rightarrow> verify_outcome" where
  "verify_optional cr store input now =
     (case store of
        None \<Rightarrow> Anonymous
      | Some st \<Rightarrow>
          if list_ex (\<lambda>(k, _). k = SIGNATURE) (vi_query_pairs input) then outcome_of (verify_presigned cr st input now)
          else case vi_authorization input of
                 Some auth \<Rightarrow>
                   if starts_with auth ''AWS4-HMAC-SHA256'' then outcome_of (verify_header cr st input auth now)
                   else Anonymous
               | None \<Rightarrow> Anonymous)"

subsection \<open>Comparison, encoding and the key memo\<close>

lemma foldl_or_zero:
  fixes d :: byte
  shows "foldl (\<lambda>diff (x, y). diff OR (x XOR y)) d ps = 0 \<longleftrightarrow> d = 0 \<and> (\<forall>(x, y)\<in>set ps. x = y)"
proof (induction ps arbitrary: d)
  case (Cons p ps)
  have or0: "a OR b = 0 \<longleftrightarrow> a = 0 \<and> b = 0" for a b :: byte
    by (auto simp: bit_eq_iff bit_simps)
  have xor0: "a XOR b = 0 \<longleftrightarrow> a = b" for a b :: byte
    by (auto simp: bit_eq_iff bit_simps)
  show ?case
    by (cases p) (auto simp: Cons.IH or0 xor0)
qed simp

lemma constant_time_eq_iff: "constant_time_eq a b \<longleftrightarrow> a = b"
proof (cases "length a = length b")
  case True
  have "(\<forall>(x, y)\<in>set (zip a b). x = y) \<longleftrightarrow> a = b"
    using True by (induction a b rule: list_induct2) auto
  then show ?thesis
    using True by (simp add: constant_time_eq_def foldl_or_zero)
qed (auto simp: constant_time_eq_def)

lemma as_bytes_eq_iff [simp]: "as_bytes s = as_bytes t \<longleftrightarrow> s = t"
proof -
  have "inj (\<lambda>c. word_of_nat (of_char c) :: byte)"
  proof (rule injI)
    fix c d :: char
    assume "(word_of_nat (of_char c) :: byte) = word_of_nat (of_char d)"
    then have "unat (word_of_nat (of_char c) :: byte) = unat (word_of_nat (of_char d) :: byte)"
      by simp
    then have "(of_char c :: nat) = of_char d"
      by (simp add: unat_of_nat)
    then show "c = d"
      by simp
  qed
  then show ?thesis
    by (simp add: as_bytes_def inj_map_eq_map)
qed

definition plain :: "string \<Rightarrow> bool" where
  "plain s = (CHR 0x01 \<notin> set s)"

lemma cache_key_inj:
  assumes "cache_key_of s d r v = cache_key_of s' d' r' v'"
    and "plain s" "plain s'" "plain d" "plain d'" "plain v" "plain v'"
  shows "s = s' \<and> d = d' \<and> r = r' \<and> v = v'"
proof -
  define one :: char where "one = CHR 0x01"
  have unfolded: "s @ one # d @ one # r @ one # v = s' @ one # d' @ one # r' @ one # v'"
    using assms(1) by (simp add: cache_key_of_def one_def)
  have free: "one \<notin> set s" "one \<notin> set s'" "one \<notin> set d" "one \<notin> set d'" "one \<notin> set v" "one \<notin> set v'"
    using assms(2-) by (simp_all add: plain_def one_def)
  have "Some (s, d @ one # r @ one # v) = Some (s', d' @ one # r' @ one # v')"
    using split_once_append[OF free(1)] split_once_append[OF free(2)] unfolded by metis
  then have s: "s = s'" and rest: "d @ one # r @ one # v = d' @ one # r' @ one # v'"
    by auto
  have "Some (d, r @ one # v) = Some (d', r' @ one # v')"
    using split_once_append[OF free(3)] split_once_append[OF free(4)] rest by metis
  then have d: "d = d'" and tail: "r @ one # v = r' @ one # v'"
    by auto
  have "Some (r, v) = Some (r', v')"
    using rsplit_once_append[OF free(5)] rsplit_once_append[OF free(6)] tail by metis
  with s d show ?thesis
    by simp
qed

definition memo_ok :: "crypto \<Rightarrow> key_cache \<Rightarrow> bool" where
  "memo_ok cr cache \<longleftrightarrow> hm_wf cache \<and> length cache \<le> SIGNING_KEY_CACHE_CAP
     \<and> (\<forall>(k, key)\<in>set cache. \<exists>s d r v. plain s \<and> plain d \<and> plain v \<and> k = cache_key_of s d r v
                                          \<and> key = derive_signing_key_uncached cr s d r v)"

lemma memo_hit:
  assumes "memo_ok cr cache" "map_of cache (cache_key_of s d r v) = Some key" "plain s" "plain d" "plain v"
  shows "key = derive_signing_key_uncached cr s d r v"
proof -
  have "(cache_key_of s d r v, key) \<in> set cache"
    using assms(2) by (rule map_of_SomeD)
  then obtain s' d' r' v' where "plain s'" "plain d'" "plain v'"
    "cache_key_of s d r v = cache_key_of s' d' r' v'" "key = derive_signing_key_uncached cr s' d' r' v'"
    using assms(1) unfolding memo_ok_def by blast
  with assms(3-5) show ?thesis
    using cache_key_inj by blast
qed

lemma memo_ok_put:
  assumes "memo_ok cr cache" "length cache < SIGNING_KEY_CACHE_CAP" "plain s" "plain d" "plain v"
  shows "memo_ok cr (hm_put (cache_key_of s d r v) (derive_signing_key_uncached cr s d r v) cache)"
  using assms unfolding memo_ok_def
  by (auto simp: hm_put_def hm_del_def intro: hm_wf_put[unfolded hm_put_def hm_del_def]
      le_trans[OF Suc_le_mono[THEN iffD2, OF length_filter_le]])

lemma derive_signing_key_memo:
  assumes "memo_ok cr cache" "plain s" "plain d" "plain v"
  shows "fst (derive_signing_key cr s d r v cache) = derive_signing_key_uncached cr s d r v"
    and "memo_ok cr (snd (derive_signing_key cr s d r v cache))"
proof -
  have empty: "memo_ok cr []"
    by (simp add: memo_ok_def)
  show "fst (derive_signing_key cr s d r v cache) = derive_signing_key_uncached cr s d r v"
    using memo_hit[OF assms(1) _ assms(2-4)] by (auto simp: derive_signing_key_def Let_def split: option.split)
  show "memo_ok cr (snd (derive_signing_key cr s d r v cache))"
    using assms memo_ok_put[OF empty _ assms(2-4)] memo_ok_put[OF assms(1) _ assms(2-4)]
    by (auto simp: derive_signing_key_def Let_def SIGNING_KEY_CACHE_CAP_def split: option.split)
qed

subsection \<open>The calendar\<close>

text \<open>The Gregorian calendar, day by day: the reference the closed formula is compared with.\<close>

definition leap_year :: "int \<Rightarrow> bool" where
  "leap_year y \<longleftrightarrow> 4 dvd y \<and> (\<not> 100 dvd y \<or> 400 dvd y)"

definition month_length :: "int \<Rightarrow> int \<Rightarrow> int" where
  "month_length y m =
     (if m = 2 then (if leap_year y then 29 else 28) else if m \<in> {4, 6, 9, 11} then 30 else 31)"

fun next_day :: "int \<times> int \<times> int \<Rightarrow> int \<times> int \<times> int" where
  "next_day (y, m, d) =
     (if d < month_length y m then (y, m, d + 1) else if m < 12 then (y, m + 1, 1) else (y + 1, 1, 1))"

fun civil_ok :: "int \<times> int \<times> int \<Rightarrow> bool" where
  "civil_ok (y, m, d) \<longleftrightarrow> 0 \<le> y \<and> 1 \<le> m \<and> m \<le> 12 \<and> 1 \<le> d \<and> d \<le> month_length y m"

fun day_number :: "int \<times> int \<times> int \<Rightarrow> int" where
  "day_number (y, m, d) = days_from_civil y m d"

lemma era_days:
  fixes yy :: int
  assumes "- 1 \<le> yy"
  shows "(if yy \<ge> 0 then yy else yy - 399) div 400 * 146097
           + ((yy - (if yy \<ge> 0 then yy else yy - 399) div 400 * 400) * 365
              + (yy - (if yy \<ge> 0 then yy else yy - 399) div 400 * 400) div 4
              - (yy - (if yy \<ge> 0 then yy else yy - 399) div 400 * 400) div 100)
         = 365 * yy + yy div 4 - yy div 100 + yy div 400"
proof (cases "yy = - 1")
  case False
  define e where "e = yy div 400"
  have "(yy - e * 400) div 4 = yy div 4 - 100 * e"
    using div_mult_self1[of 4 yy "- 100 * e"] by simp
  moreover have "(yy - e * 400) div 100 = yy div 100 - 4 * e"
    using div_mult_self1[of 100 yy "- 4 * e"] by simp
  moreover have "(if yy \<ge> 0 then yy else yy - 399) div 400 = e"
    using False assms by (simp add: e_def)
  ultimately show ?thesis
    by (simp add: e_def[symmetric])
qed simp

definition year_days :: "int \<Rightarrow> int" where
  "year_days y = 365 * y + y div 4 - y div 100 + y div 400"

lemma days_from_civil_closed:
  assumes "0 \<le> y"
  shows "days_from_civil y m d =
     year_days (if m \<le> 2 then y - 1 else y) + (153 * ((m + 9) mod 12) + 2) div 5 + d - 719469"
  using era_days[of "if m \<le> 2 then y - 1 else y"] assms
  unfolding days_from_civil_def Let_def year_days_def by simp

lemma div_step:
  fixes y k :: int
  assumes "1 < k"
  shows "(y - 1) div k = y div k - (if k dvd y then 1 else 0)"
proof (cases "k dvd y")
  case True
  then obtain q where "y = k * q" ..
  with assms have "(y - 1) div k = q - 1"
    by (intro int_div_pos_eq[of _ _ _ "k - 1"]) (simp_all add: algebra_simps)
  with True \<open>y = k * q\<close> assms show ?thesis
    by simp
next
  case False
  then have "y mod k \<noteq> 0"
    by (simp add: dvd_eq_mod_eq_0)
  moreover have "0 \<le> y mod k" "y mod k < k"
    using assms by simp_all
  ultimately have "(y - 1) div k = y div k"
    by (intro int_div_pos_eq[of _ _ _ "y mod k - 1"]) (simp_all add: algebra_simps)
  with False show ?thesis
    by simp
qed

lemma leap_day: "year_days y = year_days (y - 1) + (if leap_year y then 366 else 365)"
proof -
  have "4 dvd y" if "100 dvd y"
    by (rule dvd_trans[OF _ that]) simp
  moreover have "100 dvd y" if "400 dvd y"
    by (rule dvd_trans[OF _ that]) simp
  ultimately show ?thesis
    unfolding year_days_def leap_year_def by (simp add: div_step split del: if_split) auto
qed

lemma month_cases:
  fixes m :: int
  assumes "1 \<le> m" "m \<le> 12"
  shows "m = 1 \<or> m = 2 \<or> m = 3 \<or> m = 4 \<or> m = 5 \<or> m = 6 \<or> m = 7 \<or> m = 8 \<or> m = 9 \<or> m = 10 \<or> m = 11 \<or> m = 12"
  using assms by presburger

lemma next_day_number:
  assumes "civil_ok c"
  shows "civil_ok (next_day c)" and "day_number (next_day c) = day_number c + 1"
proof -
  obtain y m d where c: "c = (y, m, d)"
    by (cases c)
  have y: "0 \<le> y" "1 \<le> m" "m \<le> 12" "1 \<le> d" "d \<le> month_length y m"
    using assms c by simp_all
  have ml: "28 \<le> month_length y' m'" for y' m'
    by (simp add: month_length_def)
  show "civil_ok (next_day c)"
    using y ml[of y "m + 1"] ml[of "y + 1" 1] by (auto simp: c)
  show "day_number (next_day c) = day_number c + 1"
  proof (cases "d < month_length y m")
    case True
    then show ?thesis
      using y(1) by (simp add: c days_from_civil_closed)
  next
    case False
    then have d: "d = month_length y m"
      using y by simp
    show ?thesis
      using month_cases[OF y(2,3)] leap_day[of y] y(1) unfolding c d
      by (elim disjE) (simp_all add: days_from_civil_closed month_length_def)
  qed
qed

lemma days_counted:
  assumes "civil_ok c"
  shows "day_number ((next_day ^^ n) c) = day_number c + int n"
proof -
  have "civil_ok ((next_day ^^ n) c) \<and> day_number ((next_day ^^ n) c) = day_number c + int n"
    by (induction n) (simp_all add: assms next_day_number del: day_number.simps civil_ok.simps next_day.simps)
  then show ?thesis ..
qed

text \<open>
  the days an \<^verbatim>\<open>x-amz-date\<close> is converted to count the days of the Gregorian calendar. Walking
  the calendar day by day from 1970-01-01, with the leap years and the month lengths written out,
  the formula of \<^verbatim>\<open>to_unix\<close> gives \<open>n\<close> after \<open>n\<close> days; walking from the first day of year 0 it gives
  the (negative) distance to the epoch, so every four-digit year is covered.
\<close>

lemma civil_days_count:
  "(case (next_day ^^ n) (1970, 1, 1) of (y, m, d) \<Rightarrow> days_from_civil y m d) = int n
   \<and> (case (next_day ^^ n) (0, 1, 1) of (y, m, d) \<Rightarrow> days_from_civil y m d) = int n - 719528"
proof -
  have epoch: "day_number (1970, 1, 1) = 0" and zero: "day_number (0, 1, 1) = - 719528"
    by (simp_all add: days_from_civil_def)
  have "(case c of (y, m, d) \<Rightarrow> days_from_civil y m d) = day_number c" for c
    by (cases c) simp
  then show ?thesis
    using days_counted[of "(1970, 1, 1)" n] days_counted[of "(0, 1, 1)" n]
    by (simp add: epoch zero month_length_def del: day_number.simps)
qed

subsection \<open>Dates and credentials, read back\<close>

lemma digit_of_SomeD: "digit_of c = Some x \<Longrightarrow> x < 10 \<and> c = char_of (48 + x)"
  by (auto simp: digit_of_def Let_def split: if_splits)

lemma show_nat_1: "x < 10 \<Longrightarrow> show_nat x = [char_of (48 + x)]"
  by (simp add: show_nat.simps)

lemma show_nat_snoc:
  assumes "0 < n" "y < 10"
  shows "show_nat (n * 10 + y) = show_nat n @ [char_of (48 + y)]"
proof -
  have "\<not> n * 10 + y < 10" "(n * 10 + y) div 10 = n" "(n * 10 + y) mod 10 = y"
    using assms by simp_all
  then show ?thesis
    by (subst show_nat.simps) simp
qed

lemma pad_snoc:
  assumes "y < 10"
  shows "pad (Suc k) (n * 10 + y) = (if k = 0 \<and> n = 0 then [] else pad k n) @ [char_of (48 + y)]"
proof (cases "n = 0")
  case True
  have "char_of (48 :: nat) = CHR ''0''"
    by code_simp
  moreover have "pad k 0 = replicate (k - 1) CHR ''0'' @ ''0''" "pad (Suc k) y = replicate k CHR ''0'' @ [char_of (48 + y)]"
    using assms by (simp_all add: pad_def show_nat_1 \<open>char_of (48 :: nat) = CHR ''0''\<close>)
  ultimately show ?thesis
    using True by (cases k) (simp_all add: replicate_append_same)
next
  case False
  then show ?thesis
    using assms by (simp add: pad_def show_nat_snoc)
qed

lemma pad_2: "x < 10 \<Longrightarrow> y < 10 \<Longrightarrow> pad 2 (x * 10 + y) = [char_of (48 + x), char_of (48 + y)]"
  using pad_snoc[of y 1 x] pad_snoc[of x 0 0] by (simp add: numeral_2_eq_2)

lemma pad_4:
  assumes "w < 10" "x < 10" "y < 10" "z < 10"
  shows "pad 4 (w * 1000 + x * 100 + y * 10 + z) = [char_of (48 + w), char_of (48 + x), char_of (48 + y), char_of (48 + z)]"
proof -
  have "w * 1000 + x * 100 + y * 10 + z = ((w * 10 + x) * 10 + y) * 10 + z"
    by simp
  moreover have "pad 4 (((w * 10 + x) * 10 + y) * 10 + z)
      = [char_of (48 + w), char_of (48 + x), char_of (48 + y), char_of (48 + z)]"
    using pad_snoc[OF assms(4), of 3] pad_snoc[OF assms(3), of 2] pad_2[OF assms(1,2)]
    by (simp add: numeral_eq_Suc)
  ultimately show ?thesis
    by (simp only:)
qed

lemma d2_SomeD: "d2 a b = Some n \<Longrightarrow> pad 2 n = [a, b]"
  by (auto split: option.splits dest!: digit_of_SomeD simp: pad_2)

lemma d4_SomeD: "d4 a b c d = Some n \<Longrightarrow> pad 4 n = [a, b, c, d]"
  by (auto split: option.splits dest!: digit_of_SomeD simp: pad_4)

lemma amz_date_read_back:
  assumes "amz_date_parse s = Some d"
  shows "fmt_iso8601 d = s" and "fmt_date d = take 8 s" and "length (fmt_date d) = 8"
    and "list_all (\<lambda>c. digit_of c \<noteq> None) (fmt_date d)"
proof -
  obtain y1 y2 y3 y4 m1 m2 e1 e2 t h1 h2 i1 i2 s1 s2 z where
    s: "s = [y1, y2, y3, y4, m1, m2, e1, e2, t, h1, h2, i1, i2, s1, s2, z]"
    using assms by (auto simp: amz_date_parse_def split: list.splits)
  obtain y m dd h i sec where
    p: "d4 y1 y2 y3 y4 = Some y" "d2 m1 m2 = Some m" "d2 e1 e2 = Some dd"
       "d2 h1 h2 = Some h" "d2 i1 i2 = Some i" "d2 s1 s2 = Some sec"
    and tz: "t = CHR ''T''" "z = CHR ''Z''"
    and d: "d = \<lparr>ad_year = y, ad_month = m, ad_day = dd, ad_hour = h, ad_minute = i, ad_second = sec\<rparr>"
    using assms by (auto simp: amz_date_parse_def s simp del: d4.simps d2.simps split: option.splits if_splits)
  note pads = d4_SomeD[OF p(1)] d2_SomeD[OF p(2)] d2_SomeD[OF p(3)] d2_SomeD[OF p(4)] d2_SomeD[OF p(5)] d2_SomeD[OF p(6)]
  show "fmt_iso8601 d = s" "fmt_date d = take 8 s" "length (fmt_date d) = 8"
    by (simp_all add: fmt_iso8601_def fmt_date_def d s pads tz)
  show "list_all (\<lambda>c. digit_of c \<noteq> None) (fmt_date d)"
    using p by (auto simp: fmt_date_def d pads split: option.splits)
qed

lemma split_on_append:
  "c \<notin> set a \<Longrightarrow> split_on c (a @ c # b) = a # split_on c b"
  by (induction a) (auto split: list.splits)

lemma split_on_plain: "c \<notin> set a \<Longrightarrow> split_on c a = [a]"
  by (induction a) auto

lemma credential_read_back:
  assumes "ak \<noteq> []" "CHR ''/'' \<notin> set ak" "length date = 8" "list_all (\<lambda>c. digit_of c \<noteq> None) date"
    and "CHR ''/'' \<notin> set region" "CHR ''/'' \<notin> set service"
  shows "credential_parse (ak @ ''/'' @ date @ ''/'' @ region @ ''/'' @ service @ ''/aws4_request'')
         = Some \<lparr>cr_access_key_id = ak, cr_date = date, cr_region = region, cr_service = service\<rparr>"
proof -
  have "CHR ''/'' \<notin> set date"
    using assms(4) by (auto simp: list_all_iff digit_of_def)
  then show ?thesis
    using assms by (simp add: credential_parse_def split_on_append split_on_plain)
qed

subsection \<open>A minted ticket\<close>

text \<open>
  The client side, as \<^verbatim>\<open>test_presign_method\<close> writes it: the pairs of the query, signature last. The
  URL encoding of the pairs and its parser (the \<^verbatim>\<open>url\<close> crate) are not part of the model.
\<close>

definition presign_pairs ::
  "crypto \<Rightarrow> string \<Rightarrow> string \<Rightarrow> string \<Rightarrow> string \<Rightarrow> u64 \<Rightarrow> string \<Rightarrow> (string \<times> string) list \<Rightarrow> (string \<times> string) list" where
  "presign_pairs cr meth access_key secret amz expires uri_path extra_pairs =
     (let scope_date = take 8 amz;
          pairs = [(''X-Amz-Algorithm'', ''AWS4-HMAC-SHA256''),
                   (''X-Amz-Credential'', access_key @ ''/'' @ scope_date @ ''/'' @ ''us-east-1'' @ ''/'' @ ''s3'' @ ''/aws4_request''),
                   (''X-Amz-Date'', amz), (''X-Amz-Expires'', show_nat expires), (''X-Amz-SignedHeaders'', ''host'')]
                  @ extra_pairs;
          qs = canonical_query pairs True;
          canonical = meth @ [NL] @ uri_encode_string uri_path False @ [NL] @ qs @ [NL] @ ''host:cdn.example'' @ [NL] @ [NL]
                      @ ''host'' @ [NL] @ ''UNSIGNED-PAYLOAD'';
          sts = string_to_sign cr canonical amz scope_date ''us-east-1'' ''s3'';
          sig = calculate_signature cr sts secret scope_date ''us-east-1'' ''s3''
      in pairs @ [(''X-Amz-Signature'', sig)])"

lemma lower_hex_ok: "n < 16 \<Longrightarrow> lower_hex_char (lower_hex n)"
  by (auto simp: lower_hex_char_def lower_hex_def Let_def)

lemma hex_encode_checksum:
  assumes "length bs = 32"
  shows "is_sha256_checksum (hex_encode bs)"
proof -
  have "list_all lower_hex_char (hex_encode bs)" for bs
  proof -
    have "unat b div 16 < 16" for b :: byte
      using unsigned_less[where 'a = nat, of b] by simp
    then show ?thesis
      by (induction bs) (simp_all add: hex_encode_def lower_hex_ok)
  qed
  moreover have "length (hex_encode bs) = 2 * length bs"
    by (induction bs) (simp_all add: hex_encode_def)
  ultimately show ?thesis
    using assms by (simp add: is_sha256_checksum_def)
qed

lemma split_ws_word: "printable s \<Longrightarrow> split_ws_from cur s = (if cur = [] \<and> s = [] then [] else [rev cur @ s])"
proof (induction s arbitrary: cur)
  case Nil
  then show ?case
    by (simp add: split_ws_from.simps)
next
  case (Cons c cs)
  have "find (\<lambda>w. w \<noteq> [] \<and> starts_with (c # cs) w) ws_chars = None"
    using Cons.prems by (intro no_ws_prefix) auto
  then have "split_ws_from cur (c # cs) = split_ws_from (c # cur) cs"
    by (subst split_ws_from.simps) simp
  then show ?case
    using Cons by (simp add: printable_def)
qed

lemma host_headers:
  "canonical_headers [''host''] (header_lookup [(''host'', ''cdn.example'')]) = Some (''host:cdn.example'' @ [NL])"
proof -
  have "printable ''cdn.example''"
    by (simp add: printable_def)
  then have "split_ws_from [] ''cdn.example'' = [''cdn.example'']"
    by (simp add: split_ws_word)
  then show ?thesis
    by (simp add: canonical_headers_def header_lookup_def normalize_header_value_def join_with_def)
qed

lemma host_list: "signed_headers_list [''host''] = ''host''"
  by (simp add: signed_headers_list_def join_with_def)

lemma canonical_query_skips:
  "canonical_query (pairs @ [(SIGNATURE, sig)]) True = canonical_query pairs True"
  by (simp add: canonical_query_def)

lemma presign_lookups:
  assumes "map_of extra SIGNATURE = None" "presign_pairs cr meth ak secret amz expires path extra = pairs"
  shows "map_of pairs ALGORITHM = Some ''AWS4-HMAC-SHA256''"
    and "map_of pairs CREDENTIAL
           = Some (ak @ ''/'' @ take 8 amz @ ''/'' @ ''us-east-1'' @ ''/'' @ ''s3'' @ ''/aws4_request'')"
    and "map_of pairs DATE = Some amz" and "map_of pairs EXPIRES = Some (show_nat expires)"
    and "map_of pairs SIGNED_HEADERS = Some ''host''"
    and "\<exists>body. pairs = body @ [(SIGNATURE, the (map_of pairs SIGNATURE))] \<and>
           map_of pairs SIGNATURE = Some (calculate_signature cr
             (string_to_sign cr (canonical_text meth (uri_encode_string path False) (canonical_query body True)
                (''host:cdn.example'' @ [NL]) ''host'' ''UNSIGNED-PAYLOAD'') amz (take 8 amz) ''us-east-1'' ''s3'')
             secret (take 8 amz) ''us-east-1'' ''s3'')"
  using assms
  by (auto simp: presign_pairs_def Let_def ALGORITHM_def CREDENTIAL_def DATE_def EXPIRES_def SIGNED_HEADERS_def
      SIGNATURE_def canonical_text_def map_add_def)

lemma presigned_ticket:
  assumes mac: "\<And>k m. length (hmac_fn cr k m) = 32"
    and ak: "ak \<noteq> []" "CHR ''/'' \<notin> set ak"
    and date: "amz_date_parse amz = Some d" "to_unix d = Some t"
    and expires: "expires \<le> PROTOCOL_MAX_EXPIRES_SECS"
    and extra: "map_of extra SIGNATURE = None"
    and entry: "store_lookup store ak = Some e"
    and input: "vi_method input = meth" "vi_uri_path input = path" "vi_headers input = [(''host'', ''cdn.example'')]"
      "vi_query_pairs input = presign_pairs cr meth ak (ce_secret e) amz expires path extra"
  shows "verify_presigned cr store input now =
     (if now < t - 900 then Inl RequestDateInFuture
      else if t + int expires < now then Inl RequestExpired
      else Inr \<lparr>vr_access_key_id = ak, vr_expires_secs = expires\<rparr>)"
proof -
  let ?cred = "\<lparr>cr_access_key_id = ak, cr_date = take 8 amz, cr_region = ''us-east-1'', cr_service = ''s3''\<rparr>"
  note get = presign_lookups[OF extra input(4)[symmetric]]
  obtain body sig where body: "vi_query_pairs input = body @ [(SIGNATURE, sig)]" and sig: "map_of (vi_query_pairs input) SIGNATURE = Some sig"
    and calc: "sig = calculate_signature cr
             (string_to_sign cr (canonical_text meth (uri_encode_string path False) (canonical_query body True)
                (''host:cdn.example'' @ [NL]) ''host'' ''UNSIGNED-PAYLOAD'') amz (take 8 amz) ''us-east-1'' ''s3'')
             (ce_secret e) (take 8 amz) ''us-east-1'' ''s3''"
    using get(6) by auto
  have cred: "credential_parse (ak @ ''/'' @ take 8 amz @ ''/'' @ ''us-east-1'' @ ''/'' @ ''s3'' @ ''/aws4_request'') = Some ?cred"
    by (rule credential_read_back) (use ak amz_date_read_back[OF date(1)] in simp_all)
  then have cred: "credential_parse (ak @ CHR ''/'' # take 8 amz @ ''/us-east-1/s3/aws4_request'') = Some ?cred"
    by simp
  have u64: "parse_u64 (show_nat expires) = Some expires"
    using expires by (simp add: PROTOCOL_MAX_EXPIRES_SECS_def)
  have check: "is_sha256_checksum sig"
    using mac by (simp add: calc calculate_signature_def hex_encode_checksum)
  have names: "split_on CHR '';'' ''host'' = [''host'']" "to_ascii_lowercase ''host'' = ''host''"
    by code_simp+
  have ascii: "list_all (\<lambda>c. of_char c < (128 :: nat)) ''host''"
    by code_simp
  have signed: "check_signature cr input (canonical_query (vi_query_pairs input) True) (''host:cdn.example'' @ [NL]) [''host'']
      ''UNSIGNED-PAYLOAD'' d ?cred (ce_secret e) sig"
    using input(1,2)
    by (simp add: check_signature_def verify_signature_def Let_def body canonical_query_skips host_list
        amz_date_read_back(1)[OF date(1)] constant_time_eq_iff calc split: option.split)
  show ?thesis
    using signed expires
    by (simp add: verify_presigned_def Let_def get(1-5) sig cred date u64 check names ascii entry input(3) host_headers
        amz_date_read_back(2)[OF date(1)] MAX_SKEW_SECS_def guard_that_def)
qed

text \<open>
  C31: what the signer mints, the verifier accepts, and exactly while the ticket lives. A URL
  presigned with the stored secret of a tenant, asked for with the method, path and host it was
  signed for, is accepted from 900 seconds before its date until its expiry has passed, both ends
  included; before that it is refused as dated in the future, after that as expired. The raw path
  and the other query parameters may be anything that was signed.
\<close>

theorem presigned_ticket_window:
  assumes mac: "\<And>k m. length (hmac_fn cr k m) = 32"
    and ak: "ak \<noteq> []" "CHR ''/'' \<notin> set ak"
    and date: "amz_date_parse amz = Some d" "to_unix d = Some t"
    and expires: "expires \<le> PROTOCOL_MAX_EXPIRES_SECS"
    and extra: "map_of extra SIGNATURE = None"
    and entry: "store_lookup store ak = Some e"
    and input: "vi_method input = meth" "vi_uri_path input = path" "vi_headers input = [(''host'', ''cdn.example'')]"
      "vi_query_pairs input = presign_pairs cr meth ak (ce_secret e) amz expires path extra"
  shows "verify_presigned cr store input now =
     (if now < t - 900 then Inl RequestDateInFuture
      else if t + int expires < now then Inl RequestExpired
      else Inr \<lparr>vr_access_key_id = ak, vr_expires_secs = expires\<rparr>)"
  by (rule presigned_ticket; fact)

definition toy_crypto :: crypto where
  "toy_crypto = \<lparr>hmac_fn = (\<lambda>k m. replicate 32 0), sha256_fn = (\<lambda>m. replicate 32 0)\<rparr>"

definition toy_entry :: credential_entry where
  "toy_entry = \<lparr>ce_secret = ''secret'', ce_prefix = None, ce_session_rps = None, ce_session_mib_per_min = None\<rparr>"

definition toy_input :: verify_req where
  "toy_input =
     \<lparr>vi_method = ''GET'', vi_uri_path = ''/film.mkv'', vi_raw_uri_path = ''/film.mkv'',
      vi_query_pairs = presign_pairs toy_crypto ''GET'' ''AKID'' ''secret'' ''20130524T000000Z'' 3600 ''/film.mkv'' [],
      vi_headers = [(''host'', ''cdn.example'')], vi_authorization = None\<rparr>"

lemma toy_date:
  "amz_date_parse ''20130524T000000Z''
     = Some \<lparr>ad_year = 2013, ad_month = 5, ad_day = 24, ad_hour = 0, ad_minute = 0, ad_second = 0\<rparr>"
  by (simp add: amz_date_parse_def digit_of_def)

lemma toy_accepted:
  "verify_presigned toy_crypto [(''AKID'', toy_entry)] toy_input 1369357200
     = Inr \<lparr>vr_access_key_id = ''AKID'', vr_expires_secs = 3600\<rparr>"
proof -
  have "verify_presigned toy_crypto [(''AKID'', toy_entry)] toy_input 1369357200 =
     (if 1369357200 < 1369353600 - (900 :: int) then Inl RequestDateInFuture
      else if 1369353600 + int 3600 < 1369357200 then Inl RequestExpired
      else Inr \<lparr>vr_access_key_id = ''AKID'', vr_expires_secs = 3600\<rparr>)"
    by (rule presigned_ticket[OF _ _ _ toy_date, where extra = "[]" and e = toy_entry and path = "''/film.mkv''" and meth = "''GET''"])
      (simp_all add: toy_crypto_def to_unix_def days_from_civil_def PROTOCOL_MAX_EXPIRES_SECS_def store_lookup_def
        toy_input_def toy_entry_def)
  then show ?thesis
    by simp
qed

theorem presigned_ticket_window_witness:
  "verify_presigned toy_crypto [(''AKID'', toy_entry)] toy_input 1369357200
     = Inr \<lparr>vr_access_key_id = ''AKID'', vr_expires_secs = 3600\<rparr>
   \<and> verify_presigned toy_crypto [(''AKID'', toy_entry)] toy_input 1369357201 = Inl RequestExpired"
proof -
  have eq: "verify_presigned toy_crypto [(''AKID'', toy_entry)] toy_input now =
     (if now < 1369353600 - 900 then Inl RequestDateInFuture
      else if 1369353600 + int 3600 < now then Inl RequestExpired
      else Inr \<lparr>vr_access_key_id = ''AKID'', vr_expires_secs = 3600\<rparr>)" for now
    by (rule presigned_ticket_window[OF _ _ _ toy_date, where extra = "[]" and e = toy_entry and path = "''/film.mkv''" and meth = "''GET''"])
      (simp_all add: toy_crypto_def to_unix_def days_from_civil_def PROTOCOL_MAX_EXPIRES_SECS_def store_lookup_def
        toy_input_def toy_entry_def)
  show ?thesis
    by (simp add: eq)
qed

subsection \<open>What a verified request proves\<close>

text \<open>The signature the stored secret gives for one of the two spellings of the request's path.\<close>

definition signature_for ::
  "crypto \<Rightarrow> string \<Rightarrow> verify_req \<Rightarrow> string \<Rightarrow> amz_date \<Rightarrow> string \<Rightarrow> string \<Rightarrow> bool" where
  "signature_for cr secret input rest date region signature =
     list_ex (\<lambda>path.
         signature = calculate_signature cr
           (string_to_sign cr (vi_method input @ [NL] @ path @ [NL] @ rest) (fmt_iso8601 date) (fmt_date date) region ''s3'')
           secret (fmt_date date) region ''s3'')
       [uri_encode_string (vi_uri_path input) False, vi_raw_uri_path input]"

lemma check_signature_signs:
  assumes "check_signature cr input qs headers names payload date credential secret signature"
    and "cr_date credential = fmt_date date" "cr_service credential = ''s3''"
  shows "signature_for cr secret input (qs @ [NL] @ headers @ [NL] @ signed_headers_list names @ [NL] @ payload) date
           (cr_region credential) signature"
  using assms
  by (auto simp: check_signature_def verify_signature_def signature_for_def canonical_text_def constant_time_eq_iff Let_def
      split: if_splits)

lemma verify_presigned_passed:
  assumes "verify_presigned cr st input now = Inr v"
  shows "\<exists>e date t region signature headers.
      store_lookup st (vr_access_key_id v) = Some e \<and> to_unix date = Some t
      \<and> map_of (vi_query_pairs input) SIGNATURE = Some signature
      \<and> signature_for cr (ce_secret e) input
          (canonical_query (vi_query_pairs input) True @ [NL] @ headers @ [NL] @ ''UNSIGNED-PAYLOAD'') date region signature
      \<and> t - 900 \<le> now \<and> now \<le> t + int (vr_expires_secs v) \<and> vr_expires_secs v \<le> PROTOCOL_MAX_EXPIRES_SECS"
proof -
  obtain credential date expires signed signature t e headers where f:
    "map_of (vi_query_pairs input) SIGNATURE = Some signature" "cr_date credential = fmt_date date" "to_unix date = Some t"
    "\<not> (now - t < 0 \<and> \<bar>now - t\<bar> > MAX_SKEW_SECS)" "now - t \<le> int expires" "expires \<le> PROTOCOL_MAX_EXPIRES_SECS"
    "store_lookup st (cr_access_key_id credential) = Some e" "cr_service credential = ''s3''"
    "check_signature cr input (canonical_query (vi_query_pairs input) True) headers
       (map to_ascii_lowercase (split_on CHR '';'' signed)) ''UNSIGNED-PAYLOAD'' date credential (ce_secret e) signature"
    "\<lparr>vr_access_key_id = cr_access_key_id credential, vr_expires_secs = expires\<rparr> = v"
    using assms unfolding verify_presigned_def Let_def checks_passed by (elim exE conjE) (rule that; (assumption | simp))
  have "signature_for cr (ce_secret e) input
      (canonical_query (vi_query_pairs input) True @ [NL]
        @ (headers @ [NL] @ signed_headers_list (map to_ascii_lowercase (split_on CHR '';'' signed))) @ [NL] @ ''UNSIGNED-PAYLOAD'')
      date (cr_region credential) signature"
    using check_signature_signs[OF f(9,2,8)] by simp
  moreover have "t - 900 \<le> now" "now \<le> t + int expires"
    using f(4,5) unfolding MAX_SKEW_SECS_def by linarith+
  ultimately show ?thesis
    using f(1,3,6,7,10) by (intro exI[of _ e] exI[of _ date] exI[of _ t] exI[of _ "cr_region credential"] exI[of _ signature]
        exI[of _ "headers @ [NL] @ signed_headers_list (map to_ascii_lowercase (split_on CHR '';'' signed))"] conjI) auto
qed

lemma verify_header_passed:
  assumes "verify_header cr st input auth now = Inr v"
  shows "\<exists>e date t region signature headers.
      store_lookup st (vr_access_key_id v) = Some e \<and> to_unix date = Some t
      \<and> signature_for cr (ce_secret e) input (canonical_query (vi_query_pairs input) False @ [NL] @ headers) date region signature
      \<and> \<bar>now - t\<bar> \<le> 900 \<and> vr_expires_secs v = 0"
proof -
  obtain credential signed signature date t e headers payload where f:
    "cr_date credential = fmt_date date" "to_unix date = Some t" "\<not> \<bar>now - t\<bar> > MAX_SKEW_SECS"
    "store_lookup st (cr_access_key_id credential) = Some e" "cr_service credential = ''s3''"
    "check_signature cr input (canonical_query (vi_query_pairs input) False) headers (split_on CHR '';'' signed) payload date credential
       (ce_secret e) signature"
    "Inr \<lparr>vr_access_key_id = cr_access_key_id credential, vr_expires_secs = 0\<rparr> = (Inr v :: reason + verified_request)"
    using assms unfolding verify_header_def Let_def checks_passed by (elim exE conjE) (rule that; assumption)
  have "signature_for cr (ce_secret e) input
      (canonical_query (vi_query_pairs input) False @ [NL]
        @ (headers @ [NL] @ signed_headers_list (split_on CHR '';'' signed) @ [NL] @ payload))
      date (cr_region credential) signature"
    using check_signature_signs[OF f(6,1,5)] by simp
  moreover have "\<bar>now - t\<bar> \<le> 900"
    using f(3) unfolding MAX_SKEW_SECS_def by linarith
  ultimately show ?thesis
    using f(2,4,7) by (intro exI[of _ e] exI[of _ date] exI[of _ t] exI[of _ "cr_region credential"] exI[of _ signature]
        exI[of _ "headers @ [NL] @ signed_headers_list (split_on CHR '';'' signed) @ [NL] @ payload"] conjI) auto
qed

lemma verified_spec:
  assumes "verify_optional cr store input now = Verified v"
  shows "\<exists>st e date t region rest signature presigned.
      store = Some st \<and> store_lookup st (vr_access_key_id v) = Some e \<and> to_unix date = Some t
      \<and> signature_for cr (ce_secret e) input (canonical_query (vi_query_pairs input) presigned @ [NL] @ rest) date region signature
      \<and> vr_expires_secs v \<le> PROTOCOL_MAX_EXPIRES_SECS
      \<and> t - 900 \<le> now \<and> now \<le> t + (if presigned then int (vr_expires_secs v) else 900)"
proof -
  obtain st where st: "store = Some st"
    using assms by (auto simp: verify_optional_def split: option.splits)
  then consider "verify_presigned cr st input now = Inr v" | auth where "verify_header cr st input auth now = Inr v"
    using assms by (auto simp: verify_optional_def outcome_of_def split: option.splits if_splits sum.splits)
  then show ?thesis
  proof cases
    case 1
    from verify_presigned_passed[OF this] st show ?thesis
      by (elim exE conjE) (intro exI[of _ True] exI conjI; (assumption | simp))
  next
    case 2
    from verify_header_passed[OF this] obtain e date t region signature headers where h:
      "store_lookup st (vr_access_key_id v) = Some e" "to_unix date = Some t"
      "signature_for cr (ce_secret e) input (canonical_query (vi_query_pairs input) False @ [NL] @ headers) date region signature"
      "\<bar>now - t\<bar> \<le> 900" "vr_expires_secs v = 0"
      by auto
    have "t - 900 \<le> now" "now \<le> t + 900"
      using h(4) by linarith+
    with h st show ?thesis
      by (intro exI[of _ st] exI[of _ e] exI[of _ date] exI[of _ t] exI[of _ region] exI[of _ headers]
          exI[of _ signature] exI[of _ False] conjI) simp_all
  qed
qed



end
