(* ===== verification/Content_Auth.thy ===== *)
theory Content_Auth
  imports Sigv4 Keys
begin

text \<open>
  Content-read admission: \<^verbatim>\<open>src/content_auth.rs\<close>.

  The sliding windows and the session table are state passed explicitly, under the one mutex the
  gate holds while it admits or observes; \<open>now\<close> is the gate's clock. \<^verbatim>\<open>form_urlencoded::parse\<close> and
  the lossy percent decoding are third-party crates: the fields of \<open>url_lib\<close>. Metrics are left out.
\<close>

definition SESSION_TABLE_CAP :: nat where
  "SESSION_TABLE_CAP = 4096"

definition SESSION_IDLE_SECS :: int where
  "SESSION_IDLE_SECS = 300"

definition MAX_QUERY_BYTES :: nat where
  "MAX_QUERY_BYTES = 8 * 1024"

definition MAX_QUERY_PAIRS :: nat where
  "MAX_QUERY_PAIRS = 64"

subsection \<open>Sliding windows\<close>

record sliding =
  sl_buckets :: "(int \<times> u64) list"
  sl_window_secs :: int

definition sliding_new :: "int \<Rightarrow> sliding" where
  "sliding_new secs = \<lparr>sl_buckets = [], sl_window_secs = secs\<rparr>"

definition sliding_prune :: "int \<Rightarrow> sliding \<Rightarrow> sliding" where
  "sliding_prune now w =
     w\<lparr>sl_buckets := dropWhile (\<lambda>(sec, _). sec \<le> now - sl_window_secs w) (sl_buckets w)\<rparr>"

definition sliding_used :: "int \<Rightarrow> sliding \<Rightarrow> u64 \<times> sliding" where
  "sliding_used now w =
     (let w1 = sliding_prune now w in (foldl add64 0 (map snd (sl_buckets w1)), w1))"

definition sliding_add :: "int \<Rightarrow> u64 \<Rightarrow> sliding \<Rightarrow> sliding" where
  "sliding_add now amount w =
     (let w1 = sliding_prune now w; bs = sl_buckets w1
      in if bs \<noteq> [] \<and> fst (List.last bs) = now
         then w1\<lparr>sl_buckets := butlast bs @ [(now, add64 (snd (List.last bs)) amount)]\<rparr>
         else w1\<lparr>sl_buckets := bs @ [(now, amount)]\<rparr>)"

subsection \<open>The session table\<close>

record session_budget =
  sb_requests :: sliding
  sb_bytes :: sliding
  sb_last_seen :: int

type_synonym session_table = "(string \<times> session_budget) list"

definition sweep_sessions :: "int \<Rightarrow> session_table \<Rightarrow> session_table" where
  "sweep_sessions now tbl =
     (if length tbl \<ge> SESSION_TABLE_CAP then
        let kept = filter (\<lambda>(_, s). now - sb_last_seen s \<le> SESSION_IDLE_SECS) tbl
        in if length kept \<ge> SESSION_TABLE_CAP then
             let order = sort (map (\<lambda>(k, s). (sb_last_seen s, k)) kept);
                 gone = take (length kept - SESSION_TABLE_CAP + 1) order
             in foldl (\<lambda>t (_, k). hm_del k t) kept gone
           else kept
      else tbl)"

definition table_admit :: "string \<Rightarrow> int \<Rightarrow> u64 \<Rightarrow> u64 \<Rightarrow> session_table \<Rightarrow> (reason + unit) \<times> session_table" where
  "table_admit key now rps bytes_per_min tbl =
     (let tbl1 = sweep_sessions now tbl;
          entry0 = (case map_of tbl1 key of
             Some s \<Rightarrow> s
           | None \<Rightarrow> \<lparr>sb_requests = sliding_new 1, sb_bytes = sliding_new 60, sb_last_seen = now\<rparr>);
          entry1 = entry0\<lparr>sb_last_seen := now\<rparr>;
          (req, reqs) = sliding_used now (sb_requests entry1);
          entry2 = entry1\<lparr>sb_requests := reqs\<rparr>
      in if req + 1 > rps then (Inl SessionRateExceeded, hm_put key entry2 tbl1)
         else
           let (spent, byts) = sliding_used now (sb_bytes entry2);
               entry3 = entry2\<lparr>sb_bytes := byts\<rparr>
           in if spent \<ge> bytes_per_min then (Inl SessionBytesExceeded, hm_put key entry3 tbl1)
              else (Inr (), hm_put key (entry3\<lparr>sb_requests := sliding_add now 1 (sb_requests entry3)\<rparr>) tbl1))"

definition table_observe :: "string \<Rightarrow> int \<Rightarrow> u64 \<Rightarrow> session_table \<Rightarrow> session_table" where
  "table_observe key now bytes tbl =
     (if bytes = 0 then tbl
      else case map_of tbl key of
             None \<Rightarrow> tbl
           | Some s \<Rightarrow>
               hm_put key (s\<lparr>sb_last_seen := now, sb_bytes := sliding_add now bytes (sb_bytes s)\<rparr>) tbl)"

subsection \<open>The gate\<close>

record content_gate =
  cg_store :: credential_store
  cg_max_expiry_secs :: u64
  cg_default_rps :: u64
  cg_default_bytes_per_min :: u64

definition gate_new :: "credential_store \<Rightarrow> u64 \<Rightarrow> nat \<Rightarrow> u64 \<Rightarrow> content_gate" where
  "gate_new store expiry rps mib =
     \<lparr>cg_store = store, cg_max_expiry_secs = min expiry PROTOCOL_MAX_EXPIRES_SECS,
      cg_default_rps = max rps 1, cg_default_bytes_per_min = max (sat_mul mib (1024 * 1024)) 1\<rparr>"

definition gate_from_caps :: "credential_store \<Rightarrow> caps \<Rightarrow> content_gate" where
  "gate_from_caps store c = gate_new store (max_expiry_secs c) (session_rps c) (session_mib_per_min c)"

definition valid_session :: "string \<Rightarrow> bool" where
  "valid_session s =
     (s \<noteq> [] \<and> length s \<le> SESSION_MAX_LEN
      \<and> list_all (\<lambda>c. 32 \<le> (of_char c :: nat) \<and> (of_char c :: nat) \<le> 126 \<and> c \<noteq> CHR 0x27) s)"

record url_lib =
  ul_form_parse :: "string \<Rightarrow> (string \<times> string) list"
  ul_decode_lossy :: "string \<Rightarrow> string"

record content_request =
  rq_method :: string
  rq_path_and_query :: string
  rq_host :: "string option"

text \<open>\<^verbatim>\<open>deny\<close> answers the status and the spelling of its reason; the reason itself stands for both.\<close>

datatype content_decision = Allow (al_credential: string) (al_session: "string option") | Deny reason

definition budget_key :: "string \<Rightarrow> string \<Rightarrow> string" where
  "budget_key credential session = credential @ [CHR 0x01] @ session"

text \<open>The part of \<^verbatim>\<open>admit\<close> before the table is locked.\<close>

definition gate_judge ::
  "crypto \<Rightarrow> url_lib \<Rightarrow> content_gate \<Rightarrow> content_request \<Rightarrow> int \<Rightarrow> reason + (verified_request \<times> string \<times> credential_entry)" where
  "gate_judge cr lib g request now =
     (let (raw_path, query) = (case split_once CHR ''?'' (rq_path_and_query request) of
            Some pq \<Rightarrow> pq | None \<Rightarrow> (rq_path_and_query request, []))
      in guard_that (length query \<le> MAX_QUERY_BYTES) MalformedRequest (
         let pairs = take (MAX_QUERY_PAIRS + 1) (ul_form_parse lib query)
         in guard_that (length pairs \<le> MAX_QUERY_PAIRS) MalformedRequest (
         let decoded_path = ul_decode_lossy lib raw_path;
             session_param = map_of pairs SESSION;
             input = verify_input (rq_method request) decoded_path raw_path pairs (rq_host request) None
         in case verify_optional cr (Some (cg_store g)) input now of
              Anonymous \<Rightarrow> Inl MissingSignature
            | Failed reason \<Rightarrow> Inl reason
            | Verified verified \<Rightarrow>
                res_bind (ok_or session_param MissingSession) (\<lambda>session.
                guard_that (valid_session session) MalformedSession (
                guard_that (vr_expires_secs verified \<le> cg_max_expiry_secs g) ExpiresTooLong (
                res_bind (ok_or (store_lookup (cg_store g) (vr_access_key_id verified)) UnknownAccessKey) (\<lambda>entry.
                guard_that (case ce_prefix entry of
                    Some prefix \<Rightarrow>
                      (case strip_prefix ''/'' decoded_path of Some key \<Rightarrow> starts_with key prefix | None \<Rightarrow> False)
                  | None \<Rightarrow> True) OutsideKeyPrefix (
                Inr (verified, session, entry)))))))))"

definition entry_rps :: "content_gate \<Rightarrow> credential_entry \<Rightarrow> u64" where
  "entry_rps g e = max (case ce_session_rps e of Some r \<Rightarrow> r | None \<Rightarrow> cg_default_rps g mod 2 ^ 32) 1"

definition entry_bytes_per_min :: "content_gate \<Rightarrow> credential_entry \<Rightarrow> u64" where
  "entry_bytes_per_min g e =
     max (case ce_session_mib_per_min e of Some m \<Rightarrow> sat_mul m (1024 * 1024) | None \<Rightarrow> cg_default_bytes_per_min g) 1"

definition gate_admit ::
  "crypto \<Rightarrow> url_lib \<Rightarrow> content_gate \<Rightarrow> content_request \<Rightarrow> int \<Rightarrow> session_table \<Rightarrow> content_decision \<times> session_table" where
  "gate_admit cr lib g request now tbl =
     (case gate_judge cr lib g request now of
        Inl reason \<Rightarrow> (Deny reason, tbl)
      | Inr (verified, session, entry) \<Rightarrow>
          (case table_admit (budget_key (vr_access_key_id verified) session) now (entry_rps g entry)
                  (entry_bytes_per_min g entry) tbl of
             (Inl reason, tbl') \<Rightarrow> (Deny reason, tbl')
           | (Inr _, tbl') \<Rightarrow> (Allow (vr_access_key_id verified) (Some session), tbl')))"

definition gate_observe :: "string \<Rightarrow> string option \<Rightarrow> u64 \<Rightarrow> int \<Rightarrow> session_table \<Rightarrow> session_table" where
  "gate_observe credential session bytes now tbl =
     (case session of
        None \<Rightarrow> tbl
      | Some s \<Rightarrow> table_observe (budget_key credential s) now bytes tbl)"

subsection \<open>A window and the history it stands for\<close>

definition window_sum :: "(int \<times> nat) list \<Rightarrow> int \<Rightarrow> nat" where
  "window_sum xs c = (\<Sum>(t, a)\<leftarrow>xs. if t > c then a else 0)"

lemma window_sum_simps [simp]:
  "window_sum [] c = 0" "window_sum ((t, a) # xs) c = (if t > c then a else 0) + window_sum xs c"
  "window_sum (xs @ ys) c = window_sum xs c + window_sum ys c"
  by (simp_all add: window_sum_def)

lemma window_sum_le: "window_sum xs c \<le> sum_list (map snd xs)"
  by (induction xs) (auto simp: window_sum_def)

lemma window_sum_all: "(\<forall>(t, a)\<in>set xs. t > c) \<Longrightarrow> window_sum xs c = sum_list (map snd xs)"
  by (induction xs) (auto simp: window_sum_def)

lemma window_sum_filter: "c \<le> c' \<Longrightarrow> window_sum (filter (\<lambda>(t, _). \<not> t \<le> c) xs) c' = window_sum xs c'"
  by (induction xs) (auto simp: window_sum_def)

lemma dropWhile_sorted:
  "sorted_wrt (<) (map fst xs) \<Longrightarrow> dropWhile (\<lambda>(t, _). t \<le> c) xs = filter (\<lambda>(t, _). \<not> t \<le> (c :: int)) xs"
  by (induction xs) (auto simp: filter_id_conv[THEN iffD2] intro!: filter_True[symmetric] split: prod.splits)

lemma foldl_add64: "acc + sum_list xs < 2 ^ 64 \<Longrightarrow> foldl add64 acc xs = acc + sum_list xs"
  by (induction xs arbitrary: acc) (simp_all add: add.assoc)

text \<open>
  \<open>slides w log T\<close>: up to time \<open>T\<close> the buckets are in order, and every question about a window that
  ends at \<open>T\<close> or later has the answer the whole log gives.
\<close>

definition slides :: "sliding \<Rightarrow> (int \<times> nat) list \<Rightarrow> int \<Rightarrow> bool" where
  "slides w log T \<longleftrightarrow> sorted_wrt (<) (map fst (sl_buckets w)) \<and> (\<forall>(t, _)\<in>set (sl_buckets w). t \<le> T)
     \<and> (\<forall>now\<ge>T. window_sum (sl_buckets w) (now - sl_window_secs w) = window_sum log (now - sl_window_secs w))"

lemma slides_new: "slides (sliding_new secs) [] T"
  by (simp add: slides_def sliding_new_def)

lemma slides_later: "slides w log T \<Longrightarrow> T \<le> T' \<Longrightarrow> slides w log T'"
  unfolding slides_def by fastforce

lemma slides_prune:
  assumes "slides w log T" "T \<le> now"
  shows "slides (sliding_prune now w) log now"
    and "\<forall>(t, _)\<in>set (sl_buckets (sliding_prune now w)). now - sl_window_secs w < t"
proof -
  have eq: "sl_buckets (sliding_prune now w) = filter (\<lambda>(t, _). \<not> t \<le> now - sl_window_secs w) (sl_buckets w)"
    using assms(1) by (simp add: sliding_prune_def slides_def dropWhile_sorted)
  have "sorted_wrt (<) (map fst (filter P (sl_buckets w)))" for P
    using assms(1) by (simp add: slides_def sorted_wrt_map sorted_wrt_filter)
  then show "slides (sliding_prune now w) log now"
    using slides_later[OF assms] unfolding slides_def eq
    by (auto simp: window_sum_filter sliding_prune_def)
  show "\<forall>(t, _)\<in>set (sl_buckets (sliding_prune now w)). now - sl_window_secs w < t"
    by (auto simp: eq)
qed

lemma sliding_used_log:
  assumes "slides w log T" "T \<le> now" "sum_list (map snd log) < 2 ^ 64"
  shows "fst (sliding_used now w) = window_sum log (now - sl_window_secs w)"
    and "slides (snd (sliding_used now w)) log now"
proof -
  let ?w = "sliding_prune now w"
  have secs: "sl_window_secs ?w = sl_window_secs w"
    by (simp add: sliding_prune_def)
  have "sum_list (map snd (sl_buckets ?w)) = window_sum (sl_buckets ?w) (now - sl_window_secs w)"
    using slides_prune(2)[OF assms(1,2)] by (rule window_sum_all[symmetric])
  also have "\<dots> = window_sum log (now - sl_window_secs w)"
    using slides_prune(1)[OF assms(1,2)] by (simp add: slides_def secs)
  finally have sum: "sum_list (map snd (sl_buckets ?w)) = window_sum log (now - sl_window_secs w)" .
  moreover have "window_sum log (now - sl_window_secs w) < 2 ^ 64"
    using assms(3) window_sum_le[of log] by (rule le_less_trans[rotated])
  ultimately show "fst (sliding_used now w) = window_sum log (now - sl_window_secs w)"
    by (simp add: sliding_used_def Let_def foldl_add64)
  show "slides (snd (sliding_used now w)) log now"
    using slides_prune(1)[OF assms(1,2)] by (simp add: sliding_used_def Let_def)
qed

lemma slides_append:
  assumes "slides w log now" "sl_buckets w = [] \<or> fst (List.last (sl_buckets w)) \<noteq> now"
  shows "slides (w\<lparr>sl_buckets := sl_buckets w @ [(now, a)]\<rparr>) ((now, a) # log) now"
proof -
  have "t < now" if mem: "(t, c) \<in> set (sl_buckets w)" for t c
  proof -
    have "t \<le> now"
      using assms(1) mem unfolding slides_def by auto
    moreover have "t \<noteq> now"
    proof
      assume "t = now"
      obtain front s d where bs: "sl_buckets w = front @ [(s, d)]"
        using mem by (cases "sl_buckets w" rule: rev_cases) auto
      with assms have "s \<noteq> now" "s \<le> now" "\<forall>(u, _)\<in>set front. u < s"
        by (auto simp: slides_def sorted_wrt_append)
      with mem bs \<open>t = now\<close> show False
        by auto
    qed
    ultimately show ?thesis
      by simp
  qed
  then show ?thesis
    using assms(1) by (auto simp: slides_def sorted_wrt_append sorted_wrt_map)
qed

lemma slides_add:
  assumes "slides w log T" "T \<le> now" "sum_list (map snd log) + a < 2 ^ 64"
  shows "slides (sliding_add now a w) ((now, a) # log) now"
proof -
  define w1 where "w1 = sliding_prune now w"
  have s1: "slides w1 log now"
    using slides_prune(1)[OF assms(1,2)] by (simp add: w1_def)
  show ?thesis
  proof (cases "sl_buckets w1 \<noteq> [] \<and> fst (List.last (sl_buckets w1)) = now")
    case False
    then have "sliding_add now a w = w1\<lparr>sl_buckets := sl_buckets w1 @ [(now, a)]\<rparr>"
      unfolding sliding_add_def Let_def w1_def[symmetric] by auto
    with False slides_append[OF s1, of a] show ?thesis
      by auto
  next
    case True
    then obtain front c where bs: "sl_buckets w1 = front @ [(now, c)]"
      by (metis append_butlast_last_id prod.collapse)
    have "sum_list (map snd (sl_buckets w1)) \<le> sum_list (map snd log)"
    proof -
      have "sum_list (map snd (sl_buckets w1)) = window_sum (sl_buckets w1) (now - sl_window_secs w1)"
        using slides_prune(2)[OF assms(1,2)]
        by (intro window_sum_all[symmetric]) (simp add: w1_def sliding_prune_def)
      also have "\<dots> = window_sum log (now - sl_window_secs w1)"
        using s1 by (simp add: slides_def)
      finally show ?thesis
        using window_sum_le[of log] by simp
    qed
    then have "add64 c a = c + a"
      using assms(3) bs by simp
    then show ?thesis
      using s1 True unfolding sliding_add_def Let_def w1_def[symmetric]
      by (auto simp: bs slides_def sorted_wrt_append)
  qed
qed

subsection \<open>The table and the log it stands for\<close>

text \<open>
  The abstract gate keeps every admitted request and every observed body of every session for ever,
  and answers by counting.
\<close>

record spend_log =
  lg_seen :: "string list"
  lg_reqs :: "string \<Rightarrow> (int \<times> nat) list"
  lg_bytes :: "string \<Rightarrow> (int \<times> nat) list"

definition log_empty :: spend_log where
  "log_empty = \<lparr>lg_seen = [], lg_reqs = (\<lambda>_. []), lg_bytes = (\<lambda>_. [])\<rparr>"

datatype budget_event = Ask string int u64 u64 | Sent string int u64

fun event_time :: "budget_event \<Rightarrow> int" where
  "event_time (Ask k now rps bpm) = now"
| "event_time (Sent k now b) = now"

fun event_key :: "budget_event \<Rightarrow> string" where
  "event_key (Ask k now rps bpm) = k"
| "event_key (Sent k now b) = k"

fun event_bytes :: "budget_event \<Rightarrow> nat" where
  "event_bytes (Ask k now rps bpm) = 1"
| "event_bytes (Sent k now b) = b"

fun log_step :: "budget_event \<Rightarrow> spend_log \<Rightarrow> (reason + unit) \<times> spend_log" where
  "log_step (Ask k now rps bpm) lg =
     (let lg1 = lg\<lparr>lg_seen := List.insert k (lg_seen lg)\<rparr>
      in if window_sum (lg_reqs lg k) (now - 1) + 1 > rps then (Inl SessionRateExceeded, lg1)
         else if window_sum (lg_bytes lg k) (now - 60) \<ge> bpm then (Inl SessionBytesExceeded, lg1)
         else (Inr (), lg1\<lparr>lg_reqs := (lg_reqs lg)(k := (now, 1) # lg_reqs lg k)\<rparr>))"
| "log_step (Sent k now b) lg =
     (Inr (), if k \<in> set (lg_seen lg) \<and> b \<noteq> 0 then lg\<lparr>lg_bytes := (lg_bytes lg)(k := (now, b) # lg_bytes lg k)\<rparr> else lg)"

fun table_step :: "budget_event \<Rightarrow> session_table \<Rightarrow> (reason + unit) \<times> session_table" where
  "table_step (Ask k now rps bpm) tbl = table_admit k now rps bpm tbl"
| "table_step (Sent k now b) tbl = (Inr (), table_observe k now b tbl)"

fun answers :: "('e \<Rightarrow> 's \<Rightarrow> 'r \<times> 's) \<Rightarrow> 'e list \<Rightarrow> 's \<Rightarrow> 'r list" where
  "answers step [] s = []"
| "answers step (e # es) s = (case step e s of (r, s') \<Rightarrow> r # answers step es s')"

definition log_size :: "spend_log \<Rightarrow> string \<Rightarrow> nat" where
  "log_size lg k = sum_list (map snd (lg_reqs lg k)) + sum_list (map snd (lg_bytes lg k))"

definition stands_for :: "session_table \<Rightarrow> spend_log \<Rightarrow> int \<Rightarrow> nat \<Rightarrow> bool" where
  "stands_for tbl lg T B \<longleftrightarrow> hm_wf tbl \<and> distinct (lg_seen lg) \<and> set (map fst tbl) = set (lg_seen lg)
     \<and> (\<forall>k s. map_of tbl k = Some s \<longrightarrow>
          sl_window_secs (sb_requests s) = 1 \<and> sl_window_secs (sb_bytes s) = 60
          \<and> slides (sb_requests s) (lg_reqs lg k) T \<and> slides (sb_bytes s) (lg_bytes lg k) T)
     \<and> (\<forall>k. k \<notin> set (lg_seen lg) \<longrightarrow> lg_reqs lg k = [] \<and> lg_bytes lg k = [])
     \<and> (\<forall>k. log_size lg k \<le> B)"

lemma stands_for_size: "stands_for tbl lg T B \<Longrightarrow> length tbl = length (lg_seen lg)"
  unfolding stands_for_def hm_wf_def by (metis distinct_card length_map)

lemma hm_put_keys: "set (map fst (hm_put k v m)) = insert k (set (map fst m))"
  by (auto simp: hm_put_def hm_del_def)

lemma table_admit_no_sweep:
  assumes "length tbl < SESSION_TABLE_CAP"
  shows "sweep_sessions now tbl = tbl"
  using assms by (simp add: sweep_sessions_def)

lemma stands_for_later:
  assumes "stands_for tbl lg T B" "T \<le> now" "B \<le> B'"
  shows "stands_for tbl lg now B'"
  using assms slides_later[OF _ assms(2)] unfolding stands_for_def by (meson le_trans)

lemma stands_for_put:
  assumes "stands_for tbl lg T B" "T \<le> now" "B \<le> B'"
    and "sl_window_secs (sb_requests s) = 1" "sl_window_secs (sb_bytes s) = 60"
    and "slides (sb_requests s) reqs now" "slides (sb_bytes s) byts now"
    and "sum_list (map snd reqs) + sum_list (map snd byts) \<le> B'"
  shows "stands_for (hm_put k s tbl)
     (lg\<lparr>lg_seen := List.insert k (lg_seen lg), lg_reqs := (lg_reqs lg)(k := reqs), lg_bytes := (lg_bytes lg)(k := byts)\<rparr>) now B'"
proof -
  have "set (map fst (hm_put k s tbl)) = set (List.insert k (lg_seen lg))" if "set (map fst tbl) = set (lg_seen lg)"
    using that unfolding hm_put_keys by simp
  then show ?thesis
    using stands_for_later[OF assms(1-3)] assms(4-8) unfolding stands_for_def
    by (simp add: log_size_def hm_wf_put del: set_map)
qed

definition fresh_budget :: "int \<Rightarrow> session_budget" where
  "fresh_budget now = \<lparr>sb_requests = sliding_new 1, sb_bytes = sliding_new 60, sb_last_seen = now\<rparr>"

lemma stands_for_entry:
  assumes "stands_for tbl lg T B" "s = (case map_of tbl k of Some s \<Rightarrow> s | None \<Rightarrow> fresh_budget now)"
  shows "sl_window_secs (sb_requests s) = 1" "sl_window_secs (sb_bytes s) = 60"
    and "slides (sb_requests s) (lg_reqs lg k) T" "slides (sb_bytes s) (lg_bytes lg k) T"
    and "sum_list (map snd (lg_reqs lg k)) + sum_list (map snd (lg_bytes lg k)) \<le> B"
proof -
  have "lg_reqs lg k = [] \<and> lg_bytes lg k = []" if "map_of tbl k = None"
    using assms(1) that unfolding stands_for_def by (simp add: map_of_eq_None_iff)
  then show "sl_window_secs (sb_requests s) = 1" "sl_window_secs (sb_bytes s) = 60"
    "slides (sb_requests s) (lg_reqs lg k) T" "slides (sb_bytes s) (lg_bytes lg k) T"
    using assms slides_new[of 1 T] slides_new[of 60 T]
    by (cases "map_of tbl k"; simp add: stands_for_def fresh_budget_def; simp add: sliding_new_def)+
  show "sum_list (map snd (lg_reqs lg k)) + sum_list (map snd (lg_bytes lg k)) \<le> B"
    using assms(1) by (simp add: stands_for_def log_size_def)
qed

lemma sliding_used_secs [simp]: "sl_window_secs (snd (sliding_used now w)) = sl_window_secs w"
  by (simp add: sliding_used_def sliding_prune_def Let_def)

lemma sliding_add_secs [simp]: "sl_window_secs (sliding_add now a w) = sl_window_secs w"
  by (simp add: sliding_add_def sliding_prune_def Let_def)

lemma stands_for_ask:
  assumes rep: "stands_for tbl lg T B" and now: "T \<le> now" and small: "B + 1 < 2 ^ 64"
    and room: "length tbl < SESSION_TABLE_CAP"
  shows "fst (table_admit k now rps bpm tbl) = fst (log_step (Ask k now rps bpm) lg)"
    and "stands_for (snd (table_admit k now rps bpm tbl)) (snd (log_step (Ask k now rps bpm) lg)) now (B + 1)"
proof -
  define s where "s = (case map_of tbl k of Some s \<Rightarrow> s | None \<Rightarrow> fresh_budget now)"
  note e = stands_for_entry[OF rep s_def]
  obtain req reqs where r: "sliding_used now (sb_requests s) = (req, reqs)"
    by (cases "sliding_used now (sb_requests s)")
  obtain spent byts where b: "sliding_used now (sb_bytes s) = (spent, byts)"
    by (cases "sliding_used now (sb_bytes s)")
  have lt: "sum_list (map snd (lg_reqs lg k)) < 2 ^ 64" "sum_list (map snd (lg_bytes lg k)) < 2 ^ 64"
    "sum_list (map snd (lg_reqs lg k)) + 1 < 2 ^ 64"
    using e(5) small by simp_all
  have req: "req = window_sum (lg_reqs lg k) (now - 1)" and reqs: "slides reqs (lg_reqs lg k) now" "sl_window_secs reqs = 1"
    using sliding_used_log[OF e(3) now lt(1)] sliding_used_secs[of now "sb_requests s"] e(1) r by simp_all
  have spent: "spent = window_sum (lg_bytes lg k) (now - 60)" and byts: "slides byts (lg_bytes lg k) now" "sl_window_secs byts = 60"
    using sliding_used_log[OF e(4) now lt(2)] sliding_used_secs[of now "sb_bytes s"] e(2) b by simp_all
  let ?s1 = "s\<lparr>sb_last_seen := now, sb_requests := reqs\<rparr>"
  let ?s2 = "s\<lparr>sb_last_seen := now, sb_requests := reqs, sb_bytes := byts\<rparr>"
  let ?s3 = "s\<lparr>sb_last_seen := now, sb_bytes := byts, sb_requests := sliding_add now 1 reqs\<rparr>"
  have entry: "(case map_of tbl k of Some s \<Rightarrow> s
      | None \<Rightarrow> \<lparr>sb_requests = sliding_new 1, sb_bytes = sliding_new 60, sb_last_seen = now\<rparr>) = s"
    by (simp add: s_def fresh_budget_def split: option.split)
  have step: "table_admit k now rps bpm tbl =
      (if req + 1 > rps then (Inl SessionRateExceeded, hm_put k ?s1 tbl)
       else if spent \<ge> bpm then (Inl SessionBytesExceeded, hm_put k ?s2 tbl)
       else (Inr (), hm_put k ?s3 tbl))"
    unfolding table_admit_def table_admit_no_sweep[OF room] entry Let_def by (simp add: r b)
  show "fst (table_admit k now rps bpm tbl) = fst (log_step (Ask k now rps bpm) lg)"
    by (simp add: step req spent Let_def)
  have old: "slides (sb_bytes s) (lg_bytes lg k) now"
    using slides_later[OF e(4) now] .
  have "stands_for (hm_put k ?s1 tbl) (lg\<lparr>lg_seen := List.insert k (lg_seen lg)\<rparr>) now (B + 1)"
    using stands_for_put[OF rep now, of "B + 1" ?s1 "lg_reqs lg k" "lg_bytes lg k" k] e reqs old by simp
  moreover have "stands_for (hm_put k ?s2 tbl) (lg\<lparr>lg_seen := List.insert k (lg_seen lg)\<rparr>) now (B + 1)"
    using stands_for_put[OF rep now, of "B + 1" ?s2 "lg_reqs lg k" "lg_bytes lg k" k] e reqs byts by simp
  moreover have "stands_for (hm_put k ?s3 tbl) (lg\<lparr>lg_seen := List.insert k (lg_seen lg),
      lg_reqs := (lg_reqs lg)(k := (now, 1) # lg_reqs lg k)\<rparr>) now (B + 1)"
    using stands_for_put[OF rep now, of "B + 1" ?s3 "(now, 1) # lg_reqs lg k" "lg_bytes lg k" k]
      e reqs byts slides_add[OF reqs(1) order_refl, of 1] lt(3) by simp
  ultimately show "stands_for (snd (table_admit k now rps bpm tbl)) (snd (log_step (Ask k now rps bpm) lg)) now (B + 1)"
    by (simp add: step req spent Let_def)
qed

lemma stands_for_sent:
  assumes rep: "stands_for tbl lg T B" and now: "T \<le> now" and small: "B + b < 2 ^ 64"
  shows "stands_for (table_observe k now b tbl) (snd (log_step (Sent k now b) lg)) now (B + b)"
proof (cases "map_of tbl k = None \<or> b = 0")
  case True
  moreover have "map_of tbl k = None \<longleftrightarrow> k \<notin> set (lg_seen lg)"
    using rep by (simp add: stands_for_def map_of_eq_None_iff)
  ultimately have "table_observe k now b tbl = tbl" "snd (log_step (Sent k now b) lg) = lg"
    by (auto simp: table_observe_def)
  moreover have "stands_for tbl lg now (B + b)"
    by (rule stands_for_later[OF rep now]) simp
  ultimately show ?thesis
    by simp
next
  case False
  then obtain s where s: "map_of tbl k = Some s"
    by auto
  then have seen: "k \<in> set (lg_seen lg)"
    using rep map_of_SomeD[OF s] unfolding stands_for_def by force
  note e = stands_for_entry[OF rep, where s = s and k = k and now = now, unfolded s, simplified]
  have "slides (sliding_add now b (sb_bytes s)) ((now, b) # lg_bytes lg k) now"
    using slides_add[OF e(4) now] e(5) small by simp
  then have "stands_for (hm_put k (s\<lparr>sb_last_seen := now, sb_bytes := sliding_add now b (sb_bytes s)\<rparr>) tbl)
      (lg\<lparr>lg_seen := List.insert k (lg_seen lg), lg_reqs := (lg_reqs lg)(k := lg_reqs lg k),
          lg_bytes := (lg_bytes lg)(k := (now, b) # lg_bytes lg k)\<rparr>) now (B + b)"
    using stands_for_put[OF rep now, of "B + b" "s\<lparr>sb_last_seen := now, sb_bytes := sliding_add now b (sb_bytes s)\<rparr>"
        "lg_reqs lg k" "(now, b) # lg_bytes lg k" k] slides_later[OF e(3) now] e by simp
  then show ?thesis
    using False s seen by (simp add: table_observe_def)
qed

lemma log_step_seen:
  "set (lg_seen (snd (log_step e lg))) \<subseteq> insert (event_key e) (set (lg_seen lg))"
  by (cases e) (auto simp: Let_def)

lemma stands_for_step:
  assumes rep: "stands_for tbl lg T B" and now: "T \<le> event_time e" and small: "B + event_bytes e < 2 ^ 64"
    and room: "card (set (lg_seen lg)) < SESSION_TABLE_CAP"
  shows "fst (table_step e tbl) = fst (log_step e lg)"
    and "stands_for (snd (table_step e tbl)) (snd (log_step e lg)) (event_time e) (B + event_bytes e)"
proof -
  have size: "length tbl < SESSION_TABLE_CAP"
    using room stands_for_size[OF rep] rep by (simp add: stands_for_def distinct_card)
  show "fst (table_step e tbl) = fst (log_step e lg)"
    using stands_for_ask(1)[OF rep _ _ size] now small by (cases e) simp_all
  show "stands_for (snd (table_step e tbl)) (snd (log_step e lg)) (event_time e) (B + event_bytes e)"
    using stands_for_ask(2)[OF rep _ _ size] stands_for_sent[OF rep] now small
    by (cases e) (simp_all del: log_step.simps)
qed

lemma answers_agree:
  assumes "stands_for tbl lg T B" "sorted (map event_time es)" "\<forall>e\<in>set es. T \<le> event_time e"
    and "B + (\<Sum>e\<leftarrow>es. event_bytes e) < 2 ^ 64" "card (set (lg_seen lg) \<union> event_key ` set es) < SESSION_TABLE_CAP"
  shows "answers table_step es tbl = answers log_step es lg"
  using assms
proof (induction es arbitrary: tbl lg T B)
  case (Cons e es)
  obtain r lg' where l: "log_step e lg = (r, lg')"
    by (cases "log_step e lg")
  obtain r' tbl' where t: "table_step e tbl = (r', tbl')"
    by (cases "table_step e tbl")
  have room: "card (set (lg_seen lg)) < SESSION_TABLE_CAP"
    using Cons.prems(5) by (rule le_less_trans[rotated]) (auto intro: card_mono)
  have now: "T \<le> event_time e" and small: "B + event_bytes e < 2 ^ 64"
    using Cons.prems(3,4) by simp_all
  note step = stands_for_step[OF Cons.prems(1) now small room, unfolded l t, simplified]
  have "set (lg_seen lg') \<union> event_key ` set es \<subseteq> set (lg_seen lg) \<union> event_key ` set (e # es)"
    using log_step_seen[of e lg] l by auto
  then have "card (set (lg_seen lg') \<union> event_key ` set es) < SESSION_TABLE_CAP"
    using Cons.prems(5) by (rule le_less_trans[OF card_mono, rotated]) simp
  with Cons.IH[OF step(2)] Cons.prems(2,4) have "answers table_step es tbl' = answers log_step es lg'"
    by simp
  then show ?case
    using step(1) by (simp add: l t)
qed simp

text \<open>
  C33: the budgets are the ones the configuration states. The gate's table of bucketed windows
  refines a log that forgets nothing: over any sequence of asks and observed bodies in time order,
  from an empty table and with fewer sessions than the table holds, every answer is the one counted
  from the whole log, a request admitted exactly while fewer than \<open>rps\<close> have been admitted in the
  last second and fewer than the budget's bytes observed in the last sixty.
\<close>

theorem budgets_refine_log:
  assumes "sorted (map event_time es)" "(\<Sum>e\<leftarrow>es. event_bytes e) < 2 ^ 64"
    and "card (event_key ` set es) < SESSION_TABLE_CAP"
  shows "answers table_step es [] = answers log_step es log_empty"
proof (cases es)
  case (Cons e rest)
  have "stands_for [] log_empty (event_time e) 0"
    by (simp add: stands_for_def log_empty_def log_size_def)
  then show ?thesis
    using assms Cons by (intro answers_agree[where T = "event_time e" and B = 0]) (auto simp: log_empty_def)
qed simp

theorem budgets_refine_log_witness:
  "answers table_step [Ask ''a'' 10 1 100, Ask ''a'' 10 1 100, Sent ''a'' 11 200, Ask ''a'' 12 1 100, Ask ''a'' 71 1 100] []
     = [Inr (), Inl SessionRateExceeded, Inr (), Inl SessionBytesExceeded, Inr ()]"
proof -
  have "answers table_step [Ask ''a'' 10 1 100, Ask ''a'' 10 1 100, Sent ''a'' 11 200, Ask ''a'' 12 1 100, Ask ''a'' 71 1 100] []
      = answers log_step [Ask ''a'' 10 1 100, Ask ''a'' 10 1 100, Sent ''a'' 11 200, Ask ''a'' 12 1 100, Ask ''a'' 71 1 100] log_empty"
    by (rule budgets_refine_log) (simp_all add: SESSION_TABLE_CAP_def)
  also have "\<dots> = [Inr (), Inl SessionRateExceeded, Inr (), Inl SessionBytesExceeded, Inr ()]"
    by (simp add: log_empty_def)
  finally show ?thesis .
qed

subsection \<open>What an admitted read proves\<close>

definition raw_path_of :: "content_request \<Rightarrow> string" where
  "raw_path_of request = (case split_once CHR ''?'' (rq_path_and_query request) of
     Some (p, q) \<Rightarrow> p | None \<Rightarrow> rq_path_and_query request)"

definition query_of :: "content_request \<Rightarrow> string" where
  "query_of request = (case split_once CHR ''?'' (rq_path_and_query request) of
     Some (p, q) \<Rightarrow> q | None \<Rightarrow> [])"

definition gate_input :: "url_lib \<Rightarrow> content_request \<Rightarrow> verify_req" where
  "gate_input lib request =
     verify_input (rq_method request) (ul_decode_lossy lib (raw_path_of request)) (raw_path_of request)
       (take (MAX_QUERY_PAIRS + 1) (ul_form_parse lib (query_of request))) (rq_host request) None"

lemma gate_judge_passed:
  assumes "gate_judge cr lib g request now = Inr (v, session, e)"
  shows "verify_presigned cr (cg_store g) (gate_input lib request) now = Inr v"
    and "valid_session session" and "map_of (vi_query_pairs (gate_input lib request)) SESSION = Some session"
    and "vr_expires_secs v \<le> cg_max_expiry_secs g"
    and "store_lookup (cg_store g) (vr_access_key_id v) = Some e"
    and "ce_prefix e = Some p \<Longrightarrow> \<exists>key. ul_decode_lossy lib (raw_path_of request) = ''/'' @ key \<and> starts_with key p"
proof -
  have split: "(case split_once CHR ''?'' (rq_path_and_query request) of Some pq \<Rightarrow> pq | None \<Rightarrow> (rq_path_and_query request, []))
      = (raw_path_of request, query_of request)"
    by (auto simp: raw_path_of_def query_of_def split: option.split)
  have pairs: "vi_query_pairs (gate_input lib request) = take (MAX_QUERY_PAIRS + 1) (ul_form_parse lib (query_of request))"
    by (simp add: gate_input_def verify_input_def)
  note judged = assms[unfolded gate_judge_def split Let_def prod.case guard_that_Inr gate_input_def[symmetric]]
  then obtain w where w: "verify_optional cr (Some (cg_store g)) (gate_input lib request) now = Verified w"
    by (auto split: verify_outcome.splits)
  have "vi_authorization (gate_input lib request) = None"
    by (simp add: gate_input_def verify_input_def)
  then have "verify_presigned cr (cg_store g) (gate_input lib request) now = Inr w"
    using w by (auto simp: verify_optional_def outcome_of_def split: if_splits sum.splits)
  with judged show "verify_presigned cr (cg_store g) (gate_input lib request) now = Inr v"
    by (simp add: w checks_passed)
  show "valid_session session" "vr_expires_secs v \<le> cg_max_expiry_secs g"
    "store_lookup (cg_store g) (vr_access_key_id v) = Some e"
    using judged by (auto simp: w checks_passed)
  show "map_of (vi_query_pairs (gate_input lib request)) SESSION = Some session"
    using judged by (simp add: w checks_passed pairs)
  show "\<exists>key. ul_decode_lossy lib (raw_path_of request) = ''/'' @ key \<and> starts_with key p" if "ce_prefix e = Some p"
    using judged that by (auto simp: w checks_passed strip_prefix_def starts_with_iff split: option.splits if_splits)
qed

lemma admitted_read_spec:
  assumes "gate_admit cr lib g request now tbl = (Allow tenant session, tbl')"
  shows "\<exists>e date t region rest signature expires s.
      store_lookup (cg_store g) tenant = Some e
      \<and> signature_for cr (ce_secret e) (gate_input lib request)
          (canonical_query (vi_query_pairs (gate_input lib request)) True @ [NL] @ rest) date region signature
      \<and> map_of (vi_query_pairs (gate_input lib request)) SIGNATURE = Some signature
      \<and> to_unix date = Some t \<and> t - 900 \<le> now \<and> now \<le> t + int expires \<and> expires \<le> cg_max_expiry_secs g
      \<and> session = Some s \<and> valid_session s \<and> map_of (vi_query_pairs (gate_input lib request)) SESSION = Some s
      \<and> (\<forall>p key rk. ce_prefix e = Some p \<and> ul_decode_lossy lib (raw_path_of request) = ''/'' @ key
            \<and> resolve_key key routes buckets = Some (Inr rk) \<longrightarrow>
          starts_with (cache_key rk) p \<and> ''..'' \<notin> set (split_on CHR ''/'' (cache_key rk))
          \<and> (\<exists>d. percent_decode (cache_key rk) = Inr d \<and> ''..'' \<notin> set (split_on CHR ''/'' d)))"
proof -
  obtain v s e where judged: "gate_judge cr lib g request now = Inr (v, s, e)"
    and tenant: "tenant = vr_access_key_id v" "session = Some s"
    using assms by (auto simp: gate_admit_def split: sum.splits prod.splits)
  note j = gate_judge_passed[OF judged]
  obtain e' date t region signature rest where p:
    "store_lookup (cg_store g) (vr_access_key_id v) = Some e'" "to_unix date = Some t"
    "map_of (vi_query_pairs (gate_input lib request)) SIGNATURE = Some signature"
    "signature_for cr (ce_secret e') (gate_input lib request)
       (canonical_query (vi_query_pairs (gate_input lib request)) True @ [NL] @ rest) date region signature"
    "t - 900 \<le> now" "now \<le> t + int (vr_expires_secs v)"
    using verify_presigned_passed[OF j(1)] by (metis append.assoc)
  have key: "starts_with (cache_key rk) p \<and> ''..'' \<notin> set (split_on CHR ''/'' (cache_key rk))
      \<and> (\<exists>d. percent_decode (cache_key rk) = Inr d \<and> ''..'' \<notin> set (split_on CHR ''/'' d))"
    if prefix: "ce_prefix e = Some p" and path: "ul_decode_lossy lib (raw_path_of request) = ''/'' @ key"
      and resolved: "resolve_key key routes buckets = Some (Inr rk)" for p key rk
  proof -
    have ck: "cache_key rk = key" "validate_key key = Inr key"
      using resolve_key_InrD[OF resolved] by simp_all
    obtain d where "percent_decode key = Inr d" "''..'' \<notin> set (split_on CHR ''/'' key)" "''..'' \<notin> set (split_on CHR ''/'' d)"
      using ck(2) by (rule validate_key_InrD) blast
    moreover have "starts_with key p"
      using j(6)[OF prefix] path by auto
    ultimately show ?thesis
      by (simp add: ck)
  qed
  show ?thesis
    using p j(2-5) key tenant
    by (intro exI[of _ e] exI[of _ date] exI[of _ t] exI[of _ region] exI[of _ rest] exI[of _ signature]
        exI[of _ "vr_expires_secs v"] exI[of _ s]) auto
qed

definition toy_gate :: content_gate where
  "toy_gate = gate_new [(''AKID'', toy_entry\<lparr>ce_prefix := Some ''film''\<rparr>)] 21600 30 1024"

definition toy_lib :: url_lib where
  "toy_lib = \<lparr>ul_form_parse = (\<lambda>_. presign_pairs toy_crypto ''GET'' ''AKID'' ''secret'' ''20130524T000000Z'' 3600 ''/film.mkv''
       [(SESSION, ''s1'')]), ul_decode_lossy = (\<lambda>p. p)\<rparr>"

definition toy_read :: content_request where
  "toy_read = \<lparr>rq_method = ''GET'', rq_path_and_query = ''/film.mkv?q'', rq_host = Some ''cdn.example''\<rparr>"

lemma toy_gate_input:
  "gate_input toy_lib toy_read = toy_input\<lparr>vi_query_pairs :=
     presign_pairs toy_crypto ''GET'' ''AKID'' ''secret'' ''20130524T000000Z'' 3600 ''/film.mkv'' [(SESSION, ''s1'')]\<rparr>"
  by (simp add: gate_input_def toy_lib_def toy_read_def raw_path_of_def query_of_def verify_input_def toy_input_def
      MAX_QUERY_PAIRS_def presign_pairs_def Let_def)

lemma toy_read_verified:
  "verify_presigned toy_crypto (cg_store toy_gate) (gate_input toy_lib toy_read) 1369353600
     = Inr \<lparr>vr_access_key_id = ''AKID'', vr_expires_secs = 3600\<rparr>"
proof -
  have "verify_presigned toy_crypto (cg_store toy_gate) (gate_input toy_lib toy_read) 1369353600 =
     (if 1369353600 < 1369353600 - (900 :: int) then Inl RequestDateInFuture
      else if 1369353600 + int 3600 < 1369353600 then Inl RequestExpired
      else Inr \<lparr>vr_access_key_id = ''AKID'', vr_expires_secs = 3600\<rparr>)"
    by (rule presigned_ticket[OF _ _ _ toy_date, where extra = "[(SESSION, ''s1'')]" and path = "''/film.mkv''"
          and meth = "''GET''" and e = "toy_entry\<lparr>ce_prefix := Some ''film''\<rparr>"])
      (simp_all add: toy_gate_input toy_crypto_def to_unix_def days_from_civil_def PROTOCOL_MAX_EXPIRES_SECS_def
        store_lookup_def toy_input_def toy_entry_def toy_gate_def gate_new_def SESSION_def SIGNATURE_def)
  then show ?thesis
    by simp
qed

lemma toy_read_judged:
  "gate_judge toy_crypto toy_lib toy_gate toy_read 1369353600
     = Inr (\<lparr>vr_access_key_id = ''AKID'', vr_expires_secs = 3600\<rparr>, ''s1'', toy_entry\<lparr>ce_prefix := Some ''film''\<rparr>)"
proof -
  let ?pairs = "presign_pairs toy_crypto ''GET'' ''AKID'' ''secret'' ''20130524T000000Z'' 3600 ''/film.mkv'' [(SESSION, ''s1'')]"
  have input: "verify_input ''GET'' ''/film.mkv'' ''/film.mkv'' ?pairs (Some ''cdn.example'') None = gate_input toy_lib toy_read"
    by (simp add: toy_gate_input verify_input_def toy_input_def)
  have "verify_optional toy_crypto (Some (cg_store toy_gate)) (gate_input toy_lib toy_read) 1369353600
      = Verified \<lparr>vr_access_key_id = ''AKID'', vr_expires_secs = 3600\<rparr>"
    using toy_read_verified
    by (simp add: verify_optional_def outcome_of_def toy_gate_input presign_pairs_def Let_def SIGNATURE_def)
  moreover have "length ?pairs = 7" "map_of ?pairs SESSION = Some ''s1''"
    by (simp_all add: presign_pairs_def Let_def SESSION_def)
  ultimately show ?thesis
    by (simp add: gate_judge_def Let_def toy_read_def MAX_QUERY_BYTES_def MAX_QUERY_PAIRS_def
        toy_lib_def[THEN arg_cong[of _ _ ul_form_parse]] toy_lib_def[THEN arg_cong[of _ _ ul_decode_lossy]] input
        valid_session_def SESSION_MAX_LEN_def toy_gate_def gate_new_def PROTOCOL_MAX_EXPIRES_SECS_def store_lookup_def
        strip_prefix_def starts_with_def)
qed

end
