(* ===== verification/Mime.thy ===== *)
theory Mime
  imports Net
begin

text \<open>
  The content type of a response: \<^verbatim>\<open>src/mime.rs\<close>. The extension table is the \<^verbatim>\<open>mime_guess\<close>
  crate, the argument \<open>guess\<close>.
\<close>

definition GENERIC_MIME :: string where
  "GENERIC_MIME = ''application/octet-stream''"

definition generic :: "string \<Rightarrow> bool" where
  "generic m = (to_ascii_lowercase m = to_ascii_lowercase GENERIC_MIME)"

definition mime_fallback :: "string \<Rightarrow> string option" where
  "mime_fallback key =
     (let ext = to_ascii_lowercase (List.last (split_on CHR ''.'' key))
      in if ext = ''lrc'' then Some ''text/plain''
         else if ext = ''flac'' then Some ''audio/flac''
         else if ext = ''jxl'' then Some ''image/jxl''
         else None)"

definition mime_resolve :: "(string \<Rightarrow> string option) \<Rightarrow> string \<Rightarrow> string option \<Rightarrow> string option" where
  "mime_resolve guess key hint =
     (case hint of
        Some h \<Rightarrow>
          if h \<noteq> [] \<and> \<not> generic h then Some h
          else (case guess key of
                  Some g \<Rightarrow> if \<not> generic g then Some g else mime_fallback key
                | None \<Rightarrow> mime_fallback key)
      | None \<Rightarrow>
          (case guess key of
             Some g \<Rightarrow> if \<not> generic g then Some g else mime_fallback key
           | None \<Rightarrow> mime_fallback key))"

lemma mime_resolve_specific:
  assumes "mime_resolve guess key hint = Some m"
  shows "\<not> generic m"
proof -
  have "\<not> generic ''text/plain''" "\<not> generic ''audio/flac''" "\<not> generic ''image/jxl''"
    by code_simp+
  then show ?thesis
    using assms by (auto simp: mime_resolve_def mime_fallback_def Let_def split: option.splits if_splits)
qed

end
