(* ===== verification/Cache.thy ===== *)
theory Cache
  imports Session Mime Keys Boot
begin

text \<open>
  The serve path, \<^verbatim>\<open>src/cache/cache.rs\<close>: which of the four ways answers a request, what each
  reads and writes, the cold pull behind a miss, the startup and the tick.

  One \<open>cache_world\<close> holds the state that \<^verbatim>\<open>Cache\<close> owns; the directory the magazine and the
  staging share is the magazine's. What one request sees of the outside (the provider's answers,
  the clock, the disk's free space, whether commits and permits succeed) is its \<open>serve_env\<close>. A
  response's body is a plan, evaluated against the directory that the reader finds.
\<close>

subsection \<open>Responses\<close>

datatype cache_outcome = Hit | Miss | Negative | Stale | Revalidated

definition outcome_label :: "cache_outcome \<Rightarrow> string" where
  "outcome_label oc =
     (case oc of Hit \<Rightarrow> ''Hit'' | Miss \<Rightarrow> ''Miss'' | Negative \<Rightarrow> ''Negative'' | Stale \<Rightarrow> ''Stale''
      | Revalidated \<Rightarrow> ''Revalidated'')"

record hit_meta =
  ht_size :: u64
  ht_etag :: "string option"
  ht_content_type :: "string option"
  ht_last_modified :: "string option"

definition resolve_range :: "byte_range option \<Rightarrow> u64 \<Rightarrow> backend_error + (u64 \<times> u64)" where
  "resolve_range rng tot = (case resolve_byte_range rng tot of Some se \<Rightarrow> Inr se | None \<Rightarrow> Inl RangeNotSatisfiable)"

definition hit_meta_remote :: "(string \<Rightarrow> string option) \<Rightarrow> string \<Rightarrow> object_meta \<Rightarrow> hit_meta" where
  "hit_meta_remote guess key m =
     \<lparr>ht_size = om_size_bytes m, ht_etag = om_etag m, ht_content_type = mime_resolve guess key (om_mime_hint m),
      ht_last_modified = om_last_modified m\<rparr>"

record entry_headers =
  eh_size_bytes :: u64
  eh_etag :: "string option"
  eh_last_modified :: "string option"
  eh_content_type :: "string option"
  eh_negative :: bool

definition hit_meta_entry :: "(string \<Rightarrow> string option) \<Rightarrow> string \<Rightarrow> entry_headers \<Rightarrow> hit_meta" where
  "hit_meta_entry guess key m =
     \<lparr>ht_size = eh_size_bytes m, ht_etag = eh_etag m, ht_content_type = mime_resolve guess key (eh_content_type m),
      ht_last_modified = eh_last_modified m\<rparr>"

datatype body_source = Disk | Stage | Upstream

definition source_label :: "body_source \<Rightarrow> string" where
  "source_label s = (case s of Disk \<Rightarrow> ''disk'' | Stage \<Rightarrow> ''stage'' | Upstream \<Rightarrow> ''upstream'')"

text \<open>Where the bytes behind the local pieces come from.\<close>

datatype tail =
    No_tail
  | Open_tail "src_event list" "u64 option" "stage_sink option"
  | Run_tail nat u64 u64

datatype body_plan =
    File_plan string u64 u64
  | Piece_plan "(string \<times> u64 \<times> u64) list" tail
  | Growing_plan nat u64 "u64 option"

text \<open>
  What a plan yields when it is read from the directory \<open>st_dir st\<close>, for the plans that are
  one body: the plans that follow a writer are read in steps (\<^verbatim>\<open>Reader\<close>).
\<close>

definition plan_body ::
  "config \<Rightarrow> (seg_meta \<Rightarrow> stored_file option) \<Rightarrow> millis \<Rightarrow> (nat \<Rightarrow> bool) \<Rightarrow> staging \<Rightarrow> body_plan \<Rightarrow> body option" where
  "plan_body cfg encode now write_ok st b =
     (case b of
        File_plan p off len \<Rightarrow> Some (file_body (st_dir st) p off len)
      | Growing_plan f off want \<Rightarrow> None
      | Piece_plan ps t \<Rightarrow>
          (case t of
             No_tail \<Rightarrow> Some (staged_body (st_dir st) ps)
           | Run_tail i a e \<Rightarrow> None
           | Open_tail evs want sink \<Rightarrow>
               Some (pieces_then (st_dir st) ps (fst (upstream_body cfg encode now write_ok evs want sink st)))))"

record cache_hit =
  ch_outcome :: cache_outcome
  ch_meta :: hit_meta
  ch_content_range :: "content_range option"
  ch_content_length :: "u64 option"
  ch_body :: body_plan
  ch_source :: body_source

record passthrough_hit =
  ph_meta :: hit_meta
  ph_etag :: "string option"
  ph_total :: u64
  ph_content_range :: "content_range option"
  ph_content_length :: "u64 option"
  ph_body :: body_plan
  ph_source :: body_source

definition into_cache_hit :: "cache_outcome \<Rightarrow> passthrough_hit \<Rightarrow> cache_hit" where
  "into_cache_hit oc h =
     \<lparr>ch_outcome = oc, ch_meta = ph_meta h, ch_content_range = ph_content_range h,
      ch_content_length = ph_content_length h, ch_body = ph_body h, ch_source = Upstream\<rparr>"

record stream_plan_rec =
  pl_status :: nat
  pl_meta :: hit_meta
  pl_content_range :: "content_range option"
  pl_content_length :: "u64 option"
  pl_body :: body_plan
  pl_stale :: bool
  pl_source :: body_source

definition stream_plan ::
  "hit_meta \<Rightarrow> content_range option \<Rightarrow> u64 option \<Rightarrow> body_plan \<Rightarrow> bool \<Rightarrow> body_source \<Rightarrow> stream_plan_rec" where
  "stream_plan meta cr len body stale src =
     \<lparr>pl_status = (if cr \<noteq> None then 206 else 200), pl_meta = meta, pl_content_range = cr, pl_content_length = len,
      pl_body = body, pl_stale = stale, pl_source = src\<rparr>"

definition served_span :: "stream_plan_rec \<Rightarrow> u64 \<times> u64" where
  "served_span p =
     (case pl_content_range p of
        Some cr \<Rightarrow> (cr_first cr, sat_add (cr_last cr) 1)
      | None \<Rightarrow> (0, case pl_content_length p of Some l \<Rightarrow> l | None \<Rightarrow> 0))"

datatype serve_outcome = Redirect_to string | Stream stream_plan_rec

subsection \<open>The access clock\<close>

definition ACCESS_SHARDS :: nat where
  "ACCESS_SHARDS = 16"

record access_clock =
  ac_shards :: "(string \<times> millis) list list"
  ac_pending :: nat

definition access_new :: access_clock where
  "access_new = \<lparr>ac_shards = replicate ACCESS_SHARDS [], ac_pending = 0\<rparr>"

text \<open>\<open>shard_of\<close> is the standard library's hash of the key, modulo the number of shards.\<close>

definition access_touch :: "(string \<Rightarrow> nat) \<Rightarrow> string \<Rightarrow> millis \<Rightarrow> access_clock \<Rightarrow> access_clock" where
  "access_touch shard_of key now ac =
     (let i = shard_of key mod ACCESS_SHARDS; s = hm_put key now (ac_shards ac ! i)
      in \<lparr>ac_shards = (ac_shards ac)[i := s], ac_pending = length s\<rparr>)"

definition access_drain :: "access_clock \<Rightarrow> (string \<times> millis) list \<times> access_clock" where
  "access_drain ac = (concat (ac_shards ac), \<lparr>ac_shards = map (\<lambda>_. []) (ac_shards ac), ac_pending = 0\<rparr>)"

subsection \<open>State and surroundings\<close>

record cache_world =
  cw_mag :: magazine
  cw_ledger :: ledger
  cw_prot :: protection
  cw_sess :: sessions
  cw_flights :: flights
  cw_access :: access_clock

record serve_env =
  ev_backends :: "string list"
  ev_now :: millis
  ev_stat :: "string \<Rightarrow> backend_error + object_meta"
  ev_open :: "string \<Rightarrow> byte_range option \<Rightarrow> backend_error + stream_source"
  ev_link :: "string option"
  ev_header_ok :: "string \<Rightarrow> bool"
  ev_free :: "dir \<Rightarrow> u64 option"
  ev_insert_commits :: bool
  ev_delete_commits :: bool
  ev_permit :: bool
  ev_guess :: "string \<Rightarrow> string option"
  ev_shard :: "string \<Rightarrow> nat"

definition cw_dir :: "cache_world \<Rightarrow> dir" where
  "cw_dir w = mg_dir (cw_mag w)"

definition cw_entries :: "cache_world \<Rightarrow> (string \<times> entry_meta) list" where
  "cw_entries w = cs_entries (mg_state (cw_mag w))"

definition cw_staging :: "cache_world \<Rightarrow> staging" where
  "cw_staging w = \<lparr>st_ledger = cw_ledger w, st_dir = cw_dir w\<rparr>"

definition put_staging :: "staging \<Rightarrow> cache_world \<Rightarrow> cache_world" where
  "put_staging st w = w\<lparr>cw_ledger := st_ledger st, cw_mag := (cw_mag w)\<lparr>mg_dir := st_dir st\<rparr>\<rparr>"

definition bump_last_access :: "serve_env \<Rightarrow> string \<Rightarrow> cache_world \<Rightarrow> cache_world" where
  "bump_last_access ev key w = w\<lparr>cw_access := access_touch (ev_shard ev) key (ev_now ev) (cw_access w)\<rparr>"

definition entry_exists :: "string \<Rightarrow> cache_world \<Rightarrow> bool" where
  "entry_exists key w = (map_of (cw_entries w) key \<noteq> None)"

definition entry_headers_of :: "string \<Rightarrow> cache_world \<Rightarrow> entry_headers option" where
  "entry_headers_of key w =
     map_option (\<lambda>m. \<lparr>eh_size_bytes = em_size_bytes m, eh_etag = em_etag m, eh_last_modified = em_last_modified m,
                      eh_content_type = em_content_type m, eh_negative = (em_negative_until_millis m \<noteq> None)\<rparr>)
       (map_of (cw_entries w) key)"

definition memory_size :: "string \<Rightarrow> cache_world \<Rightarrow> u64 option" where
  "memory_size raw w =
     (case validate_key raw of
        Inl _ \<Rightarrow> None
      | Inr key \<Rightarrow>
          (case map_of (cw_entries w) key of
             None \<Rightarrow> None
           | Some m \<Rightarrow> if em_negative_until_millis m \<noteq> None then None else Some (em_size_bytes m)))"

definition memory_hit_fresh :: "config \<Rightarrow> serve_env \<Rightarrow> string \<Rightarrow> cache_world \<Rightarrow> bool" where
  "memory_hit_fresh cfg ev raw w =
     (case validate_key raw of
        Inl _ \<Rightarrow> False
      | Inr key \<Rightarrow>
          (case map_of (cw_entries w) key of
             Some m \<Rightarrow> em_negative_until_millis m = None \<and> \<not> revalidate_due m (ev_now ev) (revalidate_ttl_secs cfg)
           | None \<Rightarrow> False))"

definition lookup_backend :: "serve_env \<Rightarrow> string \<Rightarrow> backend_error + unit" where
  "lookup_backend ev uid =
     (if uid \<in> set (ev_backends ev) then Inr () else Inl (BackendOther (''unknown upstream '' @ uid)))"

definition tombstone :: "config \<Rightarrow> serve_env \<Rightarrow> resolved_key \<Rightarrow> cache_world \<Rightarrow> cache_world" where
  "tombstone cfg ev rk w =
     w\<lparr>cw_mag := install_negative cfg (ev_insert_commits ev) (cache_key rk) (upstream_id rk) (ev_now ev) (cw_mag w)\<rparr>"

definition after_stat ::
  "config \<Rightarrow> serve_env \<Rightarrow> resolved_key \<Rightarrow> cache_world \<Rightarrow> (object_meta \<Rightarrow> (backend_error + 'a) \<times> cache_world)
     \<Rightarrow> (backend_error + 'a) \<times> cache_world" where
  "after_stat cfg ev rk w k =
     (case ev_stat ev (backend_key rk) of
        Inr m \<Rightarrow> k m
      | Inl e \<Rightarrow> (Inl e, if e = NotFound then tombstone cfg ev rk w else w))"

definition after_open ::
  "config \<Rightarrow> serve_env \<Rightarrow> resolved_key \<Rightarrow> byte_range option \<Rightarrow> cache_world
     \<Rightarrow> (stream_source \<Rightarrow> (backend_error + 'a) \<times> cache_world) \<Rightarrow> (backend_error + 'a) \<times> cache_world" where
  "after_open cfg ev rk rng w k =
     (case ev_open ev (backend_key rk) rng of
        Inr src \<Rightarrow> k src
      | Inl e \<Rightarrow> (Inl e, if e = NotFound then tombstone cfg ev rk w else w))"

definition stream_permit :: "serve_env \<Rightarrow> backend_error + unit" where
  "stream_permit ev = (if ev_permit ev then Inr () else Inl (BackendOther ''upstream stream gate is closed''))"

subsection \<open>HEAD\<close>

definition head_resolved ::
  "config \<Rightarrow> serve_env \<Rightarrow> resolved_key \<Rightarrow> cache_world \<Rightarrow> (backend_error + hit_meta) \<times> cache_world" where
  "head_resolved cfg ev rk w =
     (let key = cache_key rk;
          remote = (case lookup_backend ev (upstream_id rk) of
              Inl e \<Rightarrow> (Inl e, w)
            | Inr _ \<Rightarrow>
                after_stat cfg ev rk w (\<lambda>m. (Inr (hit_meta_remote (ev_guess ev) key m), bump_last_access ev key w)))
      in if ep_nocache (cache_profile cfg (upstream_id rk)) then
           (case lookup_backend ev (upstream_id rk) of
              Inl e \<Rightarrow> (Inl e, w)
            | Inr _ \<Rightarrow>
                (case ev_stat ev (backend_key rk) of
                   Inl e \<Rightarrow> (Inl e, w)
                 | Inr m \<Rightarrow> (Inr (hit_meta_remote (ev_guess ev) key m), w)))
         else
           (case map_of (cw_entries w) key of
              Some m \<Rightarrow>
                if is_negative m (ev_now ev) then (Inl NotFound, w)
                else if em_negative_until_millis m = None \<and> \<not> revalidate_due m (ev_now ev) (revalidate_ttl_secs cfg)
                then (Inr (hit_meta_entry (ev_guess ev) key
                             \<lparr>eh_size_bytes = em_size_bytes m, eh_etag = em_etag m, eh_last_modified = em_last_modified m,
                              eh_content_type = em_content_type m, eh_negative = False\<rparr>),
                      bump_last_access ev key w)
                else remote
            | None \<Rightarrow> remote))"

subsection \<open>The ranged path\<close>

definition upstream_tail :: "stream_source \<Rightarrow> tail" where
  "upstream_tail src = Open_tail (ss_stream src) None None"

definition serve_upstream_range ::
  "serve_env \<Rightarrow> resolved_key \<Rightarrow> byte_range option \<Rightarrow> object_meta \<Rightarrow> cache_world
     \<Rightarrow> (backend_error + passthrough_hit) \<times> cache_world" where
  "serve_upstream_range ev rk rng meta w =
     (res_bind (resolve_range rng (om_size_bytes meta)) (\<lambda>(s, e).
      res_bind (stream_permit ev) (\<lambda>_.
      res_bind (ev_open ev (backend_key rk) rng) (\<lambda>src.
      Inr \<lparr>ph_meta = hit_meta_remote (ev_guess ev) (cache_key rk) meta, ph_etag = om_etag meta,
           ph_total = om_size_bytes meta, ph_content_range = for_span (om_size_bytes meta) s e (rng \<noteq> None),
           ph_content_length = Some (e - s), ph_body = Piece_plan [] (upstream_tail src), ph_source = Upstream\<rparr>))), w)"

definition serve_nocache ::
  "serve_env \<Rightarrow> resolved_key \<Rightarrow> byte_range option \<Rightarrow> cache_world \<Rightarrow> (backend_error + passthrough_hit) \<times> cache_world" where
  "serve_nocache ev rk rng w =
     (case lookup_backend ev (upstream_id rk) of
        Inl e \<Rightarrow> (Inl e, w)
      | Inr _ \<Rightarrow>
          (case ev_stat ev (backend_key rk) of
             Inl e \<Rightarrow> (Inl e, w)
           | Inr m \<Rightarrow> serve_upstream_range ev rk rng m w))"

definition serve_staged_prefix_and_tail ::
  "config \<Rightarrow> serve_env \<Rightarrow> resolved_key \<Rightarrow> u64 \<Rightarrow> u64 \<Rightarrow> bool \<Rightarrow> object_meta \<Rightarrow> staged_plan \<Rightarrow> cache_world
     \<Rightarrow> (backend_error + passthrough_hit) \<times> cache_world" where
  "serve_staged_prefix_and_tail cfg ev rk s e had_range meta plan w =
     (case stream_permit ev of
        Inl er \<Rightarrow> (Inl er, w)
      | Inr _ \<Rightarrow>
          after_open cfg ev rk (Some (bounded (sp_frontier plan) (e - sp_frontier plan))) w (\<lambda>src.
            (Inr \<lparr>ph_meta = hit_meta_remote (ev_guess ev) (cache_key rk) meta, ph_etag = om_etag meta,
                  ph_total = om_size_bytes meta, ph_content_range = for_span (om_size_bytes meta) s e had_range,
                  ph_content_length = Some (e - s), ph_body = Piece_plan (sp_pieces plan) (upstream_tail src),
                  ph_source = Stage\<rparr>, w)))"

definition version_changed :: "string option \<Rightarrow> string option \<Rightarrow> bool" where
  "version_changed known current = (case (known, current) of (Some a, Some b) \<Rightarrow> a \<noteq> b | _ \<Rightarrow> False)"

text \<open>The remainder behind the pieces, once a run is affordable: a run's watermark, or one exact open.\<close>

definition ranged_hit ::
  "serve_env \<Rightarrow> resolved_key \<Rightarrow> byte_range option \<Rightarrow> object_meta \<Rightarrow> u64 \<Rightarrow> u64 \<Rightarrow> body_plan \<Rightarrow> body_source \<Rightarrow> passthrough_hit" where
  "ranged_hit ev rk rng meta s e body src =
     \<lparr>ph_meta = hit_meta_remote (ev_guess ev) (cache_key rk) meta, ph_etag = om_etag meta, ph_total = om_size_bytes meta,
      ph_content_range = for_span (om_size_bytes meta) s e (rng \<noteq> None), ph_content_length = Some (e - s),
      ph_body = body, ph_source = src\<rparr>"

definition run_for ::
  "config \<Rightarrow> serve_env \<Rightarrow> resolved_key \<Rightarrow> object_meta \<Rightarrow> u64 \<Rightarrow> u64 \<Rightarrow> sessions \<Rightarrow> nat option \<times> sessions" where
  "run_for cfg ev rk meta fr e ss =
     (case covering (cache_key rk) fr e ss of
        Some i \<Rightarrow> (Some i, ss)
      | None \<Rightarrow> session_start cfg (ev_permit ev)
          \<lparr>sr_key = cache_key rk, sr_upstream_id = upstream_id rk, sr_etag = om_etag meta, sr_total = om_size_bytes meta,
           sr_start = fr, sr_need = e - fr, sr_playhead_seed = None\<rparr> ss)"

definition serve_remainder ::
  "config \<Rightarrow> serve_env \<Rightarrow> resolved_key \<Rightarrow> byte_range option \<Rightarrow> object_meta \<Rightarrow> u64 \<Rightarrow> u64 \<Rightarrow> staged_plan \<Rightarrow> cache_world
     \<Rightarrow> (backend_error + passthrough_hit) \<times> cache_world" where
  "serve_remainder cfg ev rk rng meta s e plan w =
     (let fr = sp_frontier plan; (chosen, ss) = run_for cfg ev rk meta fr e (cw_sess w); w' = w\<lparr>cw_sess := ss\<rparr>
      in case chosen of
           Some i \<Rightarrow> (Inr (ranged_hit ev rk rng meta s e (Piece_plan (sp_pieces plan) (Run_tail i fr e)) Stage),
                      w'\<lparr>cw_sess := run_attach i ss\<rparr>)
         | None \<Rightarrow>
             (case stream_permit ev of
                Inl er \<Rightarrow> (Inl er, w')
              | Inr _ \<Rightarrow>
                  after_open cfg ev rk (Some (bounded fr (e - fr))) w' (\<lambda>src.
                    (Inr (ranged_hit ev rk rng meta s e
                            (Piece_plan (sp_pieces plan) (Open_tail (ss_stream src) (Some (e - fr))
                               (Some \<lparr>sk_segpart = segpart_path (cache_key rk) fr e, sk_key = cache_key rk,
                                      sk_upstream_id = upstream_id rk, sk_etag = om_etag meta,
                                      sk_total = om_size_bytes meta, sk_start = fr\<rparr>)))
                            (if sp_pieces plan \<noteq> [] then Stage else Upstream)), w'))))"

text \<open>The answer once the version gate is passed: local pieces first, then what admission allows.\<close>

definition serve_planned ::
  "config \<Rightarrow> serve_env \<Rightarrow> resolved_key \<Rightarrow> byte_range option \<Rightarrow> object_meta \<Rightarrow> u64 \<Rightarrow> u64 \<Rightarrow> cache_world
     \<Rightarrow> (backend_error + passthrough_hit) \<times> cache_world" where
  "serve_planned cfg ev rk rng meta s e w =
     (let key = cache_key rk; tot = om_size_bytes meta;
          plan = plan_staged (segments_for_key (cw_dir w) key) s e;
          fr = sp_frontier plan
      in if fr \<ge> e then
           (Inr (ranged_hit ev rk rng meta s e (Piece_plan (sp_pieces plan) No_tail) Stage),
            put_staging (add_read key s e (staging_touch key (ev_now ev) (cw_staging w))) w)
         else
           let w1 = (if sp_pieces plan \<noteq> [] then put_staging (add_read key s fr (cw_staging w)) w else w);
               run_len = worst_case_bytes (e - fr) (tot - fr) (session_window_bytes cfg)
           in if \<not> run_admits run_len (max_size_bytes cfg) (ev_free ev (cw_dir w1)) DISK_RESERVE_BYTES then
                (if sp_pieces plan = [] then serve_upstream_range ev rk rng meta w1
                 else serve_staged_prefix_and_tail cfg ev rk s e (rng \<noteq> None) meta plan w1)
              else serve_remainder cfg ev rk rng meta s e plan w1)"

definition serve_passthrough ::
  "config \<Rightarrow> serve_env \<Rightarrow> resolved_key \<Rightarrow> byte_range option \<Rightarrow> u64 \<Rightarrow> cache_world
     \<Rightarrow> (backend_error + passthrough_hit) \<times> cache_world" where
  "serve_passthrough cfg ev rk rng min_file_size w =
     (case lookup_backend ev (upstream_id rk) of
        Inl e \<Rightarrow> (Inl e, w)
      | Inr _ \<Rightarrow>
          if (case map_of (cw_entries w) (cache_key rk) of Some m \<Rightarrow> is_negative m (ev_now ev) | None \<Rightarrow> False)
          then (Inl NotFound, w)
          else after_stat cfg ev rk w (\<lambda>meta.
            if om_size_bytes meta < min_file_size then (Inl (BackendOther ''below min_file_size''), w)
            else case resolve_range rng (om_size_bytes meta) of
                   Inl er \<Rightarrow> (Inl er, w)
                 | Inr (s, e) \<Rightarrow>
                     if version_changed (known_etag (cw_staging w) (cache_key rk)) (om_etag meta) then
                       (if in_use (cw_prot w) (cache_key rk) (ev_now ev) then serve_upstream_range ev rk rng meta w
                        else serve_planned cfg ev rk rng meta s e (put_staging (reset (cache_key rk) (cw_staging w)) w))
                     else serve_planned cfg ev rk rng meta s e w))"

text \<open>
  The watcher detached beside the last answer: once the part file has stopped growing at \<open>sz\<close>
  bytes it seals what is there, unless the stream has.
\<close>

definition disconnect_watcher ::
  "config \<Rightarrow> (seg_meta \<Rightarrow> stored_file option) \<Rightarrow> millis \<Rightarrow> stage_sink \<Rightarrow> u64 \<Rightarrow> nat \<Rightarrow> staging \<Rightarrow> staging" where
  "disconnect_watcher cfg encode now sk e sz st =
     (let seg = seg_path (sk_key sk) (sk_start sk) e
      in if sz = 0 \<or> file_exists (st_dir st) seg then st
         else snd (seal_renamed cfg encode (sk_segpart sk) seg
                \<lparr>fs_key = sk_key sk, fs_upstream_id = sk_upstream_id sk, fs_etag = sk_etag sk, fs_total = sk_total sk,
                 fs_start = sk_start sk, fs_end = sk_start sk + sz, fs_bytes = sz, fs_now_millis = now\<rparr> st))"

subsection \<open>The cached path\<close>

definition serve_from_disk ::
  "serve_env \<Rightarrow> string \<Rightarrow> cache_outcome \<Rightarrow> byte_range option \<Rightarrow> cache_world \<Rightarrow> backend_error + cache_hit option" where
  "serve_from_disk ev key oc rng w =
     (case entry_headers_of key w of
        None \<Rightarrow> Inr None
      | Some m \<Rightarrow>
          if eh_negative m \<or> \<not> file_exists (cw_dir w) (file_path key) then Inr None
          else res_bind (resolve_range rng (eh_size_bytes m)) (\<lambda>(off, e).
            Inr (Some \<lparr>ch_outcome = oc, ch_meta = hit_meta_entry (ev_guess ev) key m,
                       ch_content_range = for_span (eh_size_bytes m) off e (rng \<noteq> None),
                       ch_content_length = Some (e - off), ch_body = File_plan (file_path key) off (e - off),
                       ch_source = Disk\<rparr>)))"

text \<open>
  What the wait for a flight ends with: the states the channel shows one after the other, and the
  error when nothing more is shown. \<open>w\<close> is the world at that moment.
\<close>

datatype wait_end = Ended | Stalled_out

fun await_flight ::
  "config \<Rightarrow> serve_env \<Rightarrow> nat \<Rightarrow> resolved_key \<Rightarrow> byte_range option \<Rightarrow> flight_progress list \<Rightarrow> wait_end \<Rightarrow> cache_world
     \<Rightarrow> (backend_error + cache_hit) \<times> cache_world" where
  "await_flight cfg ev f rk rng [] we w =
     (Inl (BackendOther (case we of Ended \<Rightarrow> ''flight ended without metadata''
                                  | Stalled_out \<Rightarrow> ''flight stalled before metadata'')), w)"
| "await_flight cfg ev f rk rng (Meta m # ps) we w =
     (let w1 = bump_last_access ev (cache_key rk) w;
          meta = hit_meta_remote (ev_guess ev) (cache_key rk) m
      in case rng of
           None \<Rightarrow> (Inr \<lparr>ch_outcome = Miss, ch_meta = meta, ch_content_range = None,
                       ch_content_length = Some (om_size_bytes m), ch_body = Growing_plan f 0 None, ch_source = Upstream\<rparr>, w1)
         | Some r \<Rightarrow>
             (res_bind (resolve_range (Some r) (om_size_bytes m)) (\<lambda>(s, e).
                Inr \<lparr>ch_outcome = Miss, ch_meta = meta,
                     ch_content_range = for_span (om_size_bytes m) s (s + (e - s)) True,
                     ch_content_length = Some (e - s), ch_body = Growing_plan f s (Some (e - s)), ch_source = Upstream\<rparr>), w1))"
| "await_flight cfg ev f rk rng (Done # ps) we w =
     (res_bind (serve_from_disk ev (cache_key rk) Miss rng w) (\<lambda>h.
        ok_or h (BackendOther ''flight done but entry missing'')), w)"
| "await_flight cfg ev f rk rng (Failed e # ps) we w =
     (case serve_from_disk ev (cache_key rk) Stale rng w of
        Inl er \<Rightarrow> (Inl er, w)
      | Inr (Some h) \<Rightarrow> (Inr h, w)
      | Inr None \<Rightarrow> (Inl e, if e = NotFound then tombstone cfg ev rk w else w))"
| "await_flight cfg ev f rk rng (Pending # ps) we w = await_flight cfg ev f rk rng ps we w"
| "await_flight cfg ev f rk rng (Growing n # ps) we w = await_flight cfg ev f rk rng ps we w"

text \<open>A cold pull the request has left to a driver: which flight, started by whom, and how large.\<close>

record cold_pull =
  cu_flight :: nat
  cu_key :: resolved_key
  cu_meta :: object_meta
  cu_oversize :: bool

definition attach_or_start :: "string \<Rightarrow> cache_world \<Rightarrow> nat \<times> cache_world" where
  "attach_or_start key w = (let (f, fl) = join_or_start key (cw_flights w) in (f, w\<lparr>cw_flights := fl\<rparr>))"

definition forced_fetch :: "cache_world \<Rightarrow> nat \<times> cache_world" where
  "forced_fetch w = (let (f, fl) = spawn_solo (cw_flights w) in (f, w\<lparr>cw_flights := fl\<rparr>))"

text \<open>The cached path up to its answer, or up to the flight it will wait for.\<close>

datatype get_step = Answer "backend_error + cache_hit" | Await cold_pull

definition pull_or_pass ::
  "config \<Rightarrow> serve_env \<Rightarrow> resolved_key \<Rightarrow> byte_range option \<Rightarrow> (cache_world \<Rightarrow> nat \<times> cache_world) \<Rightarrow> object_meta
     \<Rightarrow> cache_world \<Rightarrow> get_step \<times> cache_world" where
  "pull_or_pass cfg ev rk rng start_flight meta w =
     (let (ok, mg) = make_room cfg (ev_free ev) (ev_delete_commits ev) (om_size_bytes meta) (cw_mag w);
          w1 = w\<lparr>cw_mag := mg\<rparr>
      in if \<not> ok then
           (let (r, w2) = serve_upstream_range ev rk rng meta w1
            in (Answer (res_bind r (\<lambda>h. Inr (into_cache_hit Miss h))), w2))
         else (let (f, w2) = start_flight w1
               in (Await \<lparr>cu_flight = f, cu_key = rk, cu_meta = meta,
                          cu_oversize = \<not> fits_magazine (om_size_bytes meta) cfg\<rparr>, w2)))"

definition cold_miss_path ::
  "config \<Rightarrow> serve_env \<Rightarrow> resolved_key \<Rightarrow> byte_range option \<Rightarrow> cache_world \<Rightarrow> get_step \<times> cache_world" where
  "cold_miss_path cfg ev rk rng w =
     (case ev_stat ev (backend_key rk) of
        Inl e \<Rightarrow> (Answer (Inl e), if e = NotFound then tombstone cfg ev rk w else w)
      | Inr meta \<Rightarrow> pull_or_pass cfg ev rk rng (attach_or_start (cache_key rk)) meta w)"

definition get_resolved_inner ::
  "config \<Rightarrow> serve_env \<Rightarrow> resolved_key \<Rightarrow> byte_range option \<Rightarrow> cache_world \<Rightarrow> get_step \<times> cache_world" where
  "get_resolved_inner cfg ev rk rng w =
     (let key = cache_key rk; row = map_of (cw_entries w) key
      in case lookup_backend ev (upstream_id rk) of
           Inl e \<Rightarrow> (Answer (Inl e), w)
         | Inr _ \<Rightarrow>
             if (case row of Some m \<Rightarrow> is_negative m (ev_now ev) | None \<Rightarrow> False) then (Answer (Inl NotFound), w)
             else
               (let (needs_revalidate, cached_etag) = (case row of
                      Some m \<Rightarrow> if em_negative_until_millis m \<noteq> None then (False, None)
                                else (revalidate_due m (ev_now ev) (revalidate_ttl_secs cfg), em_etag m)
                    | None \<Rightarrow> (False, None))
                in if \<not> needs_revalidate then
                     (case serve_from_disk ev key Hit rng w of
                        Inl e \<Rightarrow> (Answer (Inl e), w)
                      | Inr (Some h) \<Rightarrow> (Answer (Inr h), bump_last_access ev key w)
                      | Inr None \<Rightarrow> cold_miss_path cfg ev rk rng w)
                   else
                     (case ev_stat ev (backend_key rk) of
                        Inr m \<Rightarrow>
                          if cached_etag \<noteq> None \<and> cached_etag = om_etag m then
                            (let w1 = bump_last_access ev key w
                             in case serve_from_disk ev key Revalidated rng w1 of
                                  Inl e \<Rightarrow> (Answer (Inl e), w1)
                                | Inr (Some h) \<Rightarrow> (Answer (Inr h), w1)
                                | Inr None \<Rightarrow> cold_miss_path cfg ev rk rng w1)
                          else pull_or_pass cfg ev rk rng forced_fetch m w
                      | Inl e \<Rightarrow>
                          if e = NotFound then (Answer (Inl NotFound), tombstone cfg ev rk w)
                          else (case serve_from_disk ev key Stale rng w of
                                  Inl er \<Rightarrow> (Answer (Inl er), w)
                                | Inr (Some h) \<Rightarrow> (Answer (Inr h), w)
                                | Inr None \<Rightarrow> (Answer (Inl e), w)))))"

subsection \<open>The cold pull\<close>

text \<open>
  One driver from its permit to its last word: the states it publishes, and the world it leaves.
  \<open>tmp\<close> is the flight's own part name.
\<close>

definition drive_flight ::
  "config \<Rightarrow> serve_env \<Rightarrow> pump_io \<Rightarrow> string \<Rightarrow> cold_pull \<Rightarrow> cache_world \<Rightarrow> flight_progress list \<times> cache_world" where
  "drive_flight cfg ev io tmp cu w =
     (let key = cache_key (cu_key cu); m = cu_meta cu
      in if \<not> has_room_for (ev_free ev (cw_dir w)) (om_size_bytes m) DISK_RESERVE_BYTES
         then ([Failed (ServerError ''insufficient disk space'')], w)
         else case ev_open ev (backend_key (cu_key cu)) None of
                Inl e \<Rightarrow> ([Meta m, Failed e], w)
              | Inr src \<Rightarrow>
                  (case pump_and_seal io (Some (ev_now ev)) src tmp (file_path key) (cw_dir w) of
                     (Inl e, pubs, d) \<Rightarrow>
                       (Meta m # map Growing pubs @ [Failed e], w\<lparr>cw_mag := (cw_mag w)\<lparr>mg_dir := d\<rparr>\<rparr>)
                   | (Inr _, pubs, d) \<Rightarrow>
                       (let (mg, p) = install cfg (ev_insert_commits ev) (ev_delete_commits ev) (cw_prot w) key
                              (upstream_id (cu_key cu)) m (ev_now ev) (cu_oversize cu) ((cw_mag w)\<lparr>mg_dir := d\<rparr>)
                        in (Meta m # map Growing pubs @ [Done], w\<lparr>cw_mag := mg, cw_prot := p\<rparr>))))"

text \<open>The background fill: the cached path with nobody waiting, or nothing for a nocache upstream.\<close>

definition prefetch :: "config \<Rightarrow> serve_env \<Rightarrow> resolved_key \<Rightarrow> cache_world \<Rightarrow> get_step option \<times> cache_world" where
  "prefetch cfg ev rk w =
     (if ep_nocache (cache_profile cfg (upstream_id rk)) then (None, w)
      else (let (g, w') = get_resolved_inner cfg ev rk None w in (Some g, w')))"

subsection \<open>Serve\<close>

definition protect :: "serve_env \<Rightarrow> resolved_key \<Rightarrow> stream_plan_rec \<Rightarrow> cache_world \<Rightarrow> cache_world" where
  "protect ev rk plan w =
     w\<lparr>cw_prot := \<lparr>p_leases = lease_acquire (cache_key rk) (p_leases (cw_prot w)),
                  p_watches = snd (watch_acquire (cache_key rk) (served_span plan) (ev_now ev) (p_watches (cw_prot w)))\<rparr>\<rparr>"

definition plan_of_passthrough :: "body_source \<Rightarrow> passthrough_hit \<Rightarrow> stream_plan_rec" where
  "plan_of_passthrough src h = stream_plan (ph_meta h) (ph_content_range h) (ph_content_length h) (ph_body h) False src"

definition plan_of_hit :: "cache_hit \<Rightarrow> stream_plan_rec" where
  "plan_of_hit h = stream_plan (ch_meta h) (ch_content_range h) (ch_content_length h) (ch_body h) (ch_outcome h = Stale) (ch_source h)"

definition finish_get ::
  "serve_env \<Rightarrow> resolved_key \<Rightarrow> backend_error + cache_hit \<Rightarrow> cache_world \<Rightarrow> (backend_error + serve_outcome) \<times> cache_world" where
  "finish_get ev rk r w =
     (case r of
        Inl e \<Rightarrow> (Inl e, w)
      | Inr h \<Rightarrow> (Inr (Stream (plan_of_hit h)), protect ev rk (plan_of_hit h) w))"

datatype serve_step = Served "backend_error + serve_outcome" | Waits cold_pull

definition redirect_capable :: "config \<Rightarrow> string \<Rightarrow> bool" where
  "redirect_capable cfg uid = (case config_upstream cfg uid of Some u \<Rightarrow> u_cold_miss u = Redirect | None \<Rightarrow> False)"

definition relief_link :: "config \<Rightarrow> serve_env \<Rightarrow> resolved_key \<Rightarrow> cache_world \<Rightarrow> string option" where
  "relief_link cfg ev rk w =
     (if redirect_capable cfg (upstream_id rk) \<and> \<not> memory_hit_fresh cfg ev (cache_key rk) w \<and> upstream_id rk \<in> set (ev_backends ev)
      then case ev_link ev of
             Some url \<Rightarrow> if redirect_target_allowed url \<and> ev_header_ok ev url then Some url else None
           | None \<Rightarrow> None
      else None)"

definition serve_cached :: "config \<Rightarrow> serve_env \<Rightarrow> resolved_key \<Rightarrow> byte_range option \<Rightarrow> cache_world \<Rightarrow> serve_step \<times> cache_world" where
  "serve_cached cfg ev rk rng w =
     (case get_resolved_inner cfg ev rk rng w of
        (Answer r, w') \<Rightarrow> (let (out, w'') = finish_get ev rk r w' in (Served out, w''))
      | (Await cu, w') \<Rightarrow> (Waits cu, w'))"

text \<open>The whole decision; the second component is the fill it spawns.\<close>

definition serve ::
  "config \<Rightarrow> serve_env \<Rightarrow> resolved_key \<Rightarrow> byte_range option \<Rightarrow> cache_world \<Rightarrow> serve_step \<times> resolved_key option \<times> cache_world" where
  "serve cfg ev rk rng w =
     (let prof = cache_profile cfg (upstream_id rk)
      in case relief_link cfg ev rk w of
           Some url \<Rightarrow> (Served (Inr (Redirect_to url)), Some rk, w)
         | None \<Rightarrow>
             if ep_nocache prof then
               (case serve_nocache ev rk rng w of
                  (Inl e, w') \<Rightarrow> (Served (Inl e), None, w')
                | (Inr h, w') \<Rightarrow>
                    (let p = plan_of_passthrough Upstream h
                     in (Served (Inr (Stream p)), None, protect ev rk p w')))
             else
               let cached = (\<lambda>w'. let (out, w'') = serve_cached cfg ev rk rng w' in (out, None, w''))
               in if rng \<noteq> None \<and> \<not> entry_exists (cache_key rk) w then
                    (case serve_passthrough cfg ev rk rng (ep_min_file_size prof) w of
                       (Inr h, w') \<Rightarrow>
                         (let p = plan_of_passthrough (ph_source h) h
                          in (Served (Inr (Stream p)), None, protect ev rk p w'))
                     | (Inl _, w') \<Rightarrow> cached w')
                  else cached w)"

text \<open>
  The request to its end. When it waits for a flight, \<open>meanwhile\<close> is what everybody else does,
  \<open>ps\<close> the states the channel shows and \<open>ev'\<close> the surroundings at that time.
\<close>

definition serve_answer ::
  "config \<Rightarrow> serve_env \<Rightarrow> serve_env \<Rightarrow> resolved_key \<Rightarrow> byte_range option \<Rightarrow> (cache_world \<Rightarrow> cache_world)
     \<Rightarrow> flight_progress list \<Rightarrow> wait_end \<Rightarrow> cache_world \<Rightarrow> (backend_error + serve_outcome) \<times> cache_world" where
  "serve_answer cfg ev ev' rk rng meanwhile ps we w =
     (case serve cfg ev rk rng w of
        (Served r, _, w') \<Rightarrow> (r, w')
      | (Waits cu, _, w') \<Rightarrow>
          (let (r, w'') = await_flight cfg ev' (cu_flight cu) rk rng ps we (meanwhile w') in finish_get ev' rk r w''))"

subsection \<open>Startup, flush and tick\<close>

definition row_survives :: "dir \<Rightarrow> entry_meta \<Rightarrow> bool" where
  "row_survives d m = (\<not> is_reserved_key (em_key m) \<and> file_exists d (file_path (em_key m)))"

definition rebuilt_row :: "config \<Rightarrow> millis \<Rightarrow> string \<times> u64 \<Rightarrow> entry_meta" where
  "rebuilt_row cfg now file =
     (let (key, sz) = file
      in \<lparr>em_version = 1, em_upstream_id = (case route_resolve (routes cfg) key of Some u \<Rightarrow> u | None \<Rightarrow> []),
          em_key = key, em_size_bytes = sz, em_etag = None, em_last_modified = None, em_content_type = None,
          em_created_at_millis = now, em_last_access_millis = now, em_last_revalidated_millis = None,
          em_negative_until_millis = None, em_oversize = \<not> fits_magazine sz cfg\<rparr>)"

text \<open>\<open>persisted\<close> is what the metadata store's rows decode to, or \<open>None\<close> when they cannot be loaded.\<close>

definition load_and_start ::
  "config \<Rightarrow> (byte list \<Rightarrow> seg_meta option) \<Rightarrow> bool \<Rightarrow> millis \<Rightarrow> entry_meta list option \<Rightarrow> cache_world \<Rightarrow> cache_world" where
  "load_and_start cfg decode commits now persisted w =
     (let d1 = snd (cleanup_tmps (cw_dir w));
          (lg, d2) = adopt_all decode d1 now (cw_ledger w);
          rows = (case persisted of Some rs \<Rightarrow> rs | None \<Rightarrow> []);
          lost = map em_key (filter (\<lambda>m. \<not> row_survives d2 m) rows);
          meta1 = (if lost \<noteq> [] then remove_batch commits lost (mg_meta (cw_mag w)) else mg_meta (cw_mag w));
          st1 = fold (\<lambda>m st. st\<lparr>cs_total_bytes := cs_total_bytes st + em_size_bytes m,
                               cs_entries := hm_put (em_key m) m (cs_entries st)\<rparr>)
                  (filter (row_survives d2) rows) (mg_state (cw_mag w));
          mg1 = (cw_mag w)\<lparr>mg_state := st1, mg_meta := meta1, mg_dir := d2\<rparr>;
          found = scan_object_files d2;
          mg2 = (if cs_entries st1 = [] \<and> found \<noteq> [] then rebuild commits (map (rebuilt_row cfg now) found) mg1 else mg1)
      in w\<lparr>cw_mag := mg2, cw_ledger := lg\<rparr>)"

definition flush_access :: "cache_world \<Rightarrow> cache_world" where
  "flush_access w =
     (let (batch, ac) = access_drain (cw_access w); mg = cw_mag w
      in if batch = [] then w\<lparr>cw_access := ac\<rparr>
         else w\<lparr>cw_access := ac,
                cw_mag := mg\<lparr>mg_state := (mg_state mg)\<lparr>cs_entries :=
                       map (\<lambda>(k, m). (k, case map_of (rev batch) k of Some t \<Rightarrow> m\<lparr>em_last_access_millis := t\<rparr> | None \<Rightarrow> m))
                         (cs_entries (mg_state mg))\<rparr>,
                     mg_meta := bump_last_access_batch batch (mg_meta mg)\<rparr>\<rparr>)"

fun sweep_keys :: "dir \<Rightarrow> string list \<Rightarrow> dir \<Rightarrow> (string \<times> u64) list \<times> dir" where
  "sweep_keys d0 [] d = ([], d)"
| "sweep_keys d0 (key # keys) d =
     (let paths = segment_index d0 key;
          bytes = (\<Sum>p\<leftarrow>paths. file_len d p);
          (out, d') = sweep_keys d0 keys (remove_file (segmeta_path key) (remove_files paths d))
      in ((key, bytes) # out, d'))"

definition cache_tick :: "config \<Rightarrow> serve_env \<Rightarrow> cache_world \<Rightarrow> cache_world" where
  "cache_tick cfg ev w =
     (let now = ev_now ev; commits = ev_delete_commits ev; ttl = inactive_ttl_secs cfg * 1000;
          do_sweep = (now - cs_segment_sweep_at_millis (mg_state (cw_mag w)) \<ge> ttl);
          (victims, p1) = (if do_sweep then expired ttl now (cw_prot w) (cw_staging w) else ([], cw_prot w));
          overrun = staged_overrun cfg (total_staged (cw_ledger w)) (cw_mag w);
          st1 = snd (evict_staged cfg p1 overrun now (cw_staging w));
          (swept, d1) = sweep_keys (st_dir st1) victims (st_dir st1);
          d2 = (if do_sweep then sweep_orphan_metas (snd (sweep_segparts ttl now d1)) else d1);
          d3 = snd (cleanup_stale_tmps ttl now d2);
          (mg1, p2) = reap commits ttl now p1 ((cw_mag w)\<lparr>mg_dir := d3\<rparr>);
          mg2 = (if do_sweep then mg1\<lparr>mg_state := (mg_state mg1)\<lparr>cs_segment_sweep_at_millis := now\<rparr>\<rparr> else mg1);
          lg = foldl (\<lambda>l (k, n). forget k n l) (st_ledger st1) swept;
          (mg3, p3) = evict_budget cfg commits now p2 mg2;
          mg4 = reclaim_under_pressure cfg (ev_free ev) commits mg3
      in w\<lparr>cw_mag := mg4, cw_ledger := lg, cw_prot := p3\<rparr>)"

subsection \<open>Construction and the operator's view\<close>

text \<open>A cache as \<^verbatim>\<open>Cache::new\<close> leaves it, over the directory and the rows the metadata store opened with.\<close>

definition cache_new :: "config \<Rightarrow> meta_store \<Rightarrow> dir \<Rightarrow> cache_world" where
  "cache_new cfg db d =
     \<lparr>cw_mag = \<lparr>mg_state = \<lparr>cs_entries = [], cs_total_bytes = 0, cs_segment_sweep_at_millis = 0\<rparr>, mg_meta = db, mg_dir = d\<rparr>,
      cw_ledger = ledger_new,
      cw_prot = \<lparr>p_leases = leases_new (sat_mul (read_grace_secs cfg) 1000),
                 p_watches = watches_new (sat_mul (watch_idle_secs cfg) 1000) (watch_pin_bytes cfg)\<rparr>,
      cw_sess = sessions_new, cw_flights = flights_new, cw_access = access_new\<rparr>"

record key_state =
  ks_installed :: bool
  ks_tombstone :: bool
  ks_entry_bytes :: "u64 option"
  ks_last_access_millis :: "millis option"
  ks_oversize :: bool
  ks_staged_spans :: "(u64 \<times> u64) list"
  ks_staged_bytes :: u64
  ks_ledger_spans :: "span_reads list"
  ks_ledger_total :: "u64 option"
  ks_ledger_etag :: "string option"
  ks_ledger_last_touch_millis :: "millis option"
  ks_pin :: "(u64 \<times> u64 \<times> u64) option"
  ks_leased :: bool

definition inspect :: "string \<Rightarrow> millis \<Rightarrow> cache_world \<Rightarrow> key_state" where
  "inspect key now w =
     (let row = map_of (cw_entries w) key;
          spans = map (\<lambda>(s, e, _). (s, e)) (segments_for_key (cw_dir w) key);
          v = view (cw_ledger w) key
      in \<lparr>ks_installed = (row \<noteq> None),
          ks_tombstone = (case row of Some m \<Rightarrow> is_negative m now | None \<Rightarrow> False),
          ks_entry_bytes = map_option em_size_bytes row,
          ks_last_access_millis = map_option em_last_access_millis row,
          ks_oversize = (case row of Some m \<Rightarrow> em_oversize m | None \<Rightarrow> False),
          ks_staged_spans = spans,
          ks_staged_bytes = (\<Sum>(s, e)\<leftarrow>spans. e - s),
          ks_ledger_spans = (case v of Some r \<Rightarrow> rv_spans r | None \<Rightarrow> []),
          ks_ledger_total = map_option rv_total v,
          ks_ledger_etag = Option.bind v rv_etag,
          ks_ledger_last_touch_millis = map_option rv_last_touch_millis v,
          ks_pin = map_option (\<lambda>p. (pin_start p, pin_end p, pin_anchor p)) (watch_pin (p_watches (cw_prot w)) key now),
          ks_leased = is_protected (p_leases (cw_prot w)) key now\<rparr>)"

record cache_snapshot =
  sn_entries :: nat
  sn_total_bytes :: u64
  sn_segment_bytes :: u64
  sn_stray_bytes :: u64
  sn_flights_active :: nat
  sn_dirty_access_pending :: nat
  sn_coverage_keys :: nat
  sn_coverage_intervals :: nat
  sn_disk_free_bytes :: "u64 option"
  sn_disk_reserve_bytes :: u64

definition cache_snapshot_of :: "serve_env \<Rightarrow> cache_world \<Rightarrow> cache_snapshot" where
  "cache_snapshot_of ev w =
     (let (keys, intervals) = summary (cw_ledger w)
      in \<lparr>sn_entries = length (cw_entries w),
          sn_total_bytes = cs_total_bytes (mg_state (cw_mag w)),
          sn_segment_bytes = total_staged (cw_ledger w),
          sn_stray_bytes = strays_bytes (mg_state (cw_mag w)),
          sn_flights_active = flights_active (cw_flights w),
          sn_dirty_access_pending = ac_pending (cw_access w),
          sn_coverage_keys = keys, sn_coverage_intervals = intervals,
          sn_disk_free_bytes = ev_free ev (cw_dir w),
          sn_disk_reserve_bytes = DISK_RESERVE_BYTES\<rparr>)"

end
