(* ===== verification/Serving.thy ===== *)
theory Serving
  imports Cache
begin

text \<open>
  What the serve path of \<^verbatim>\<open>Cache\<close> guarantees: the shape of every answer, the bytes of its body, the
  nocache contract and the version gate. \<open>answers\<close> is the specification of a response; each way of
  serving is shown to meet it, the whole decision by cases on \<open>serve_cases\<close>.
\<close>

subsection \<open>What a response promises\<close>

definition tail_fills :: "serve_env \<Rightarrow> resolved_key \<Rightarrow> byte_range option \<Rightarrow> u64 \<Rightarrow> u64 \<Rightarrow> u64 \<Rightarrow> tail \<Rightarrow> bool" where
  "tail_fills ev rk rng s fr e t =
     (case t of
        No_tail \<Rightarrow> fr = e
      | Run_tail i a b \<Rightarrow> fr < e \<and> a = fr \<and> b = e
      | Open_tail evs want sink \<Rightarrow>
          (\<exists>r src. ev_open ev (backend_key rk) r = Inr src \<and> evs = ss_stream src
                   \<and> (r = Some (bounded fr (e - fr)) \<and> fr < e \<or> r = rng \<and> fr = s))
          \<and> (case sink of
               None \<Rightarrow> want = None
             | Some sk \<Rightarrow> want = Some (e - fr) \<and> sk_key sk = cache_key rk \<and> sk_start sk = fr
                         \<and> sk_segpart sk = segpart_path (cache_key rk) fr e))"

definition plan_fills :: "serve_env \<Rightarrow> resolved_key \<Rightarrow> byte_range option \<Rightarrow> u64 \<Rightarrow> u64 \<Rightarrow> body_plan \<Rightarrow> bool" where
  "plan_fills ev rk rng s e b =
     (case b of
        File_plan p off len \<Rightarrow> p = file_path (cache_key rk) \<and> off = s \<and> len = e - s
      | Growing_plan f off want \<Rightarrow> off = s \<and> want = (if rng = None then None else Some (e - s))
      | Piece_plan ps t \<Rightarrow>
          (\<exists>fr d. plan_staged (segments_for_key d (cache_key rk)) s e = \<lparr>sp_pieces = ps, sp_frontier = fr\<rparr>
             \<and> s \<le> fr \<and> fr \<le> e \<and> (\<Sum>(_, _, len)\<leftarrow>ps. len) = fr - s \<and> tail_fills ev rk rng s fr e t))"

definition answers ::
  "serve_env \<Rightarrow> resolved_key \<Rightarrow> byte_range option \<Rightarrow> u64 \<Rightarrow> content_range option \<Rightarrow> u64 option \<Rightarrow> body_plan \<Rightarrow> bool" where
  "answers ev rk rng tot cr len b =
     (\<exists>s e. resolve_byte_range rng tot = Some (s, e) \<and> cr = for_span tot s e (rng \<noteq> None)
            \<and> len = Some (e - s) \<and> plan_fills ev rk rng s e b)"

lemma plan_staged_none [simp]: "plan_staged [] s e = \<lparr>sp_pieces = [], sp_frontier = s\<rparr>"
  by (simp add: plan_staged_def)

lemma segments_for_key_none [simp]: "segments_for_key [] k = []"
  by (simp add: segments_for_key_def key_segment_files_def top_level_files_def)

lemma answersI:
  assumes "resolve_byte_range rng tot = Some (s, e)" "cr = for_span tot s e (rng \<noteq> None)" "len = Some (e - s)"
    "plan_fills ev rk rng s e b"
  shows "answers ev rk rng tot cr len b"
  using assms by (auto simp: answers_def)

definition sane_range :: "byte_range option \<Rightarrow> bool" where
  "sane_range rng = (case rng of None \<Rightarrow> True | Some r \<Rightarrow> exact_range (Single r))"

lemma resolve_range_Inr [simp]: "resolve_range rng n = Inr se \<longleftrightarrow> resolve_byte_range rng n = Some se"
  by (auto simp: resolve_range_def split: option.splits)

lemma resolve_Single_not_whole [simp]: "resolve (Single r) n \<noteq> Whole"
  by (simp add: Let_def)

lemma resolve_byte_range_bounds:
  assumes "sane_range rng" "resolve_byte_range rng n = Some (s, e)" "n < 2 ^ 64"
  shows "s \<le> e \<and> e \<le> n \<and> (rng \<noteq> None \<longrightarrow> s < e)"
proof (cases rng)
  case None
  then show ?thesis using assms(2) by (simp add: resolve_byte_range_def)
next
  case (Some r)
  then obtain len where sp: "resolve (Single r) n = Span s len" "e = add64 s len"
    using assms(2) resolve_Single_not_whole
    by (auto simp: resolve_byte_range_def simp del: resolve.simps split: requested_span.splits)
  have "0 < len \<and> s + len \<le> n" using resolve_Single_bytes [OF _ sp(1)] assms(1) Some by (simp add: sane_range_def)
  then show ?thesis using sp(2) assms(3) by (simp add: add64_exact)
qed

lemma serve_upstream_range_world [simp]: "snd (serve_upstream_range ev rk rng m w) = w"
  by (simp add: serve_upstream_range_def)

lemma res_bind_InrE:
  assumes "res_bind r f = Inr y"
  obtains x where "r = Inr x" "f x = Inr y"
  using assms by (auto simp: res_bind_Inr)

lemma serve_upstream_range_answers:
  assumes "serve_upstream_range ev rk rng m w = (Inr h, w')" "sane_range rng" "om_size_bytes m < 2 ^ 64"
  shows "w' = w \<and> ht_size (ph_meta h) = om_size_bytes m
    \<and> (\<exists>evs. ph_body h = Piece_plan [] (Open_tail evs None None))
    \<and> answers ev rk rng (om_size_bytes m) (ph_content_range h) (ph_content_length h) (ph_body h)"
proof -
  obtain s e src where se: "resolve_byte_range rng (om_size_bytes m) = Some (s, e)"
    and src: "ev_open ev (backend_key rk) rng = Inr src"
    and h: "h = \<lparr>ph_meta = hit_meta_remote (ev_guess ev) (cache_key rk) m, ph_etag = om_etag m,
           ph_total = om_size_bytes m, ph_content_range = for_span (om_size_bytes m) s e (rng \<noteq> None),
           ph_content_length = Some (e - s), ph_body = Piece_plan [] (upstream_tail src), ph_source = Upstream\<rparr>"
    using assms(1) by (auto simp: serve_upstream_range_def res_bind_Inr)
  have "plan_fills ev rk rng s e (ph_body h)"
    using src resolve_byte_range_bounds [OF assms(2) se assms(3)]
    by (auto simp: plan_fills_def tail_fills_def upstream_tail_def h intro!: exI [of _ s] exI [of _ "[]"])
  then show ?thesis
    using se assms(1) by (auto simp: answers_def h upstream_tail_def hit_meta_remote_def serve_upstream_range_def)
qed

lemma after_open_InrE:
  assumes "after_open cfg ev rk r w k = (Inr x, w')"
  obtains src where "ev_open ev (backend_key rk) r = Inr src" "k src = (Inr x, w')"
  using assms by (auto simp: after_open_def split: sum.splits)

lemma after_stat_InrE:
  assumes "after_stat cfg ev rk w k = (Inr x, w')"
  obtains m where "ev_stat ev (backend_key rk) = Inr m" "k m = (Inr x, w')"
  using assms by (auto simp: after_stat_def split: sum.splits)

lemma planned_spec:
  assumes "s \<le> e"
  shows "s \<le> sp_frontier (plan_staged (segments_for_key d key) s e)"
    "sp_frontier (plan_staged (segments_for_key d key) s e) \<le> e"
    "(\<Sum>(_, _, len)\<leftarrow>sp_pieces (plan_staged (segments_for_key d key) s e). len)
       = sp_frontier (plan_staged (segments_for_key d key) s e) - s"
proof -
  obtain ps fr where plan: "plan_pieces (segments_for_key d key) s e = (ps, fr)" by fastforce
  from sl.plan_pieces_spec [OF sl.segs_sorted assms plan]
  show "s \<le> sp_frontier (plan_staged (segments_for_key d key) s e)"
    "sp_frontier (plan_staged (segments_for_key d key) s e) \<le> e"
    "(\<Sum>(_, _, len)\<leftarrow>sp_pieces (plan_staged (segments_for_key d key) s e). len)
       = sp_frontier (plan_staged (segments_for_key d key) s e) - s"
    by (simp_all add: plan_staged_def plan)
qed

text \<open>
  What the ranged path plans: the pieces lead from the start of the range to the frontier, the
  tail from there to its end, and the headers say so.
\<close>

definition ranged_ok ::
  "serve_env \<Rightarrow> resolved_key \<Rightarrow> byte_range option \<Rightarrow> object_meta \<Rightarrow> (string \<times> u64 \<times> u64) list \<Rightarrow> passthrough_hit \<Rightarrow> bool" where
  "ranged_ok ev rk rng m ps h =
     (ht_size (ph_meta h) = om_size_bytes m
      \<and> (\<exists>t. ph_body h = Piece_plan ps t)
      \<and> answers ev rk rng (om_size_bytes m) (ph_content_range h) (ph_content_length h) (ph_body h))"

lemma ranged_okI:
  assumes "resolve_byte_range rng (om_size_bytes m) = Some (s, e)"
    and "plan_staged (segments_for_key d (cache_key rk)) s e = \<lparr>sp_pieces = ps, sp_frontier = fr\<rparr>"
    and "s \<le> fr" "fr \<le> e" "(\<Sum>(_, _, len)\<leftarrow>ps. len) = fr - s" "tail_fills ev rk rng s fr e t"
    and "ht_size (ph_meta h) = om_size_bytes m" "ph_body h = Piece_plan ps t"
    and "ph_content_range h = for_span (om_size_bytes m) s e (rng \<noteq> None)" "ph_content_length h = Some (e - s)"
  shows "ranged_ok ev rk rng m ps h"
proof -
  have "plan_fills ev rk rng s e (Piece_plan ps t)"
    using assms(2-6) by (simp add: plan_fills_def exI [of _ fr] exI [of _ d])
  then show ?thesis using assms by (auto simp: ranged_ok_def intro: answersI)
qed

lemma tail_fills_open:
  assumes "ev_open ev (backend_key rk) (Some (bounded fr (e - fr))) = Inr src" "fr < e"
  shows "tail_fills ev rk rng s fr e (Open_tail (ss_stream src) None None)"
    "tail_fills ev rk rng s fr e (Open_tail (ss_stream src) (Some (e - fr))
       (Some \<lparr>sk_segpart = segpart_path (cache_key rk) fr e, sk_key = cache_key rk, sk_upstream_id = u,
              sk_etag = t, sk_total = n, sk_start = fr\<rparr>))"
  using assms by (auto simp: tail_fills_def)

lemma serve_staged_prefix_cases:
  assumes "serve_staged_prefix_and_tail cfg ev rk s e hr m plan w = (Inr h, w')" "sp_frontier plan < e"
  obtains t where "tail_fills ev rk rng s (sp_frontier plan) e t"
    and "hr = (rng \<noteq> None) \<Longrightarrow> h = ranged_hit ev rk rng m s e (Piece_plan (sp_pieces plan) t) Stage" "w' = w"
proof -
  obtain src where src: "ev_open ev (backend_key rk) (Some (bounded (sp_frontier plan) (e - sp_frontier plan))) = Inr src"
    and h: "h = \<lparr>ph_meta = hit_meta_remote (ev_guess ev) (cache_key rk) m, ph_etag = om_etag m,
                  ph_total = om_size_bytes m, ph_content_range = for_span (om_size_bytes m) s e hr,
                  ph_content_length = Some (e - s), ph_body = Piece_plan (sp_pieces plan) (upstream_tail src),
                  ph_source = Stage\<rparr>" "w' = w"
    using assms(1) by (auto simp: serve_staged_prefix_and_tail_def split: sum.splits elim!: after_open_InrE)
  show ?thesis
    by (rule that [OF tail_fills_open(1) [OF src assms(2)]]) (simp_all add: h ranged_hit_def upstream_tail_def)
qed

text \<open>Every answer of the ranged path is one of two: a plan over the staged pieces, or the provider's range.\<close>

lemma serve_remainder_cases:
  assumes "serve_remainder cfg ev rk rng m s e plan w = (Inr h, w')" "sp_frontier plan < e"
  obtains t src where "tail_fills ev rk rng s (sp_frontier plan) e t" "h = ranged_hit ev rk rng m s e (Piece_plan (sp_pieces plan) t) src"
proof -
  obtain chosen ss where r: "run_for cfg ev rk m (sp_frontier plan) e (cw_sess w) = (chosen, ss)" by fastforce
  show ?thesis
  proof (cases chosen)
    case (Some i)
    then show ?thesis
      using assms that [of "Run_tail i (sp_frontier plan) e" Stage] by (simp add: serve_remainder_def r tail_fills_def)
  next
    case None
    then show ?thesis
      using assms
      by (auto simp: serve_remainder_def r Let_def split: sum.splits elim!: after_open_InrE intro: that [OF tail_fills_open(2)])
  qed
qed

lemma serve_planned_cases:
  assumes "serve_planned cfg ev rk rng m s e w = (Inr h, w')"
    and plan: "plan_staged (segments_for_key (cw_dir w) (cache_key rk)) s e = \<lparr>sp_pieces = ps, sp_frontier = fr\<rparr>"
    and "fr \<le> e"
  obtains (planned) t src where "tail_fills ev rk rng s fr e t" "h = ranged_hit ev rk rng m s e (Piece_plan ps t) src"
  | (upstream) w1 where "ps = []" "serve_upstream_range ev rk rng m w1 = (Inr h, w')"
proof -
  define w1 where "w1 = (if ps \<noteq> [] then put_staging (add_read (cache_key rk) s fr (cw_staging w)) w else w)"
  have eq: "serve_planned cfg ev rk rng m s e w =
     (if e \<le> fr then (Inr (ranged_hit ev rk rng m s e (Piece_plan ps No_tail) Stage),
         put_staging (add_read (cache_key rk) s e (staging_touch (cache_key rk) (ev_now ev) (cw_staging w))) w)
      else if \<not> run_admits (worst_case_bytes (e - fr) (om_size_bytes m - fr) (session_window_bytes cfg))
                (max_size_bytes cfg) (ev_free ev (cw_dir w1)) DISK_RESERVE_BYTES
      then if ps = [] then serve_upstream_range ev rk rng m w1
           else serve_staged_prefix_and_tail cfg ev rk s e (rng \<noteq> None) m \<lparr>sp_pieces = ps, sp_frontier = fr\<rparr> w1
      else serve_remainder cfg ev rk rng m s e \<lparr>sp_pieces = ps, sp_frontier = fr\<rparr> w1)"
    by (simp only: serve_planned_def plan Let_def w1_def staged_plan.simps)
  consider "fr = e" "h = ranged_hit ev rk rng m s e (Piece_plan ps No_tail) Stage"
    | "ps = []" "serve_upstream_range ev rk rng m w1 = (Inr h, w')"
    | "fr < e" "serve_staged_prefix_and_tail cfg ev rk s e (rng \<noteq> None) m \<lparr>sp_pieces = ps, sp_frontier = fr\<rparr> w1 = (Inr h, w')"
    | "fr < e" "serve_remainder cfg ev rk rng m s e \<lparr>sp_pieces = ps, sp_frontier = fr\<rparr> w1 = (Inr h, w')"
    using assms(1,3) unfolding eq by (auto split: if_splits)
  then show ?thesis
  proof cases
    case 1
    then show ?thesis using planned [of No_tail Stage] by (simp add: tail_fills_def)
  next
    case 2
    then show ?thesis using upstream by blast
  next
    case 3
    from 3(2) show ?thesis by (rule serve_staged_prefix_cases [where rng = rng]) (use 3 planned in simp_all)
  next
    case 4
    from 4(2) show ?thesis by (rule serve_remainder_cases) (use 4 planned in simp_all)
  qed
qed

lemma serve_planned_spec:
  assumes "serve_planned cfg ev rk rng m s e w = (Inr h, w')"
    and "resolve_byte_range rng (om_size_bytes m) = Some (s, e)" "sane_range rng" "om_size_bytes m < 2 ^ 64"
  shows "ranged_ok ev rk rng m (sp_pieces (plan_staged (segments_for_key (cw_dir w) (cache_key rk)) s e)) h"
proof -
  obtain ps fr where plan: "plan_staged (segments_for_key (cw_dir w) (cache_key rk)) s e = \<lparr>sp_pieces = ps, sp_frontier = fr\<rparr>"
    by (cases "plan_staged (segments_for_key (cw_dir w) (cache_key rk)) s e")
  have "s \<le> e" using resolve_byte_range_bounds [OF assms(3,2,4)] by simp
  from planned_spec [OF this, of "cw_dir w" "cache_key rk"]
  have P: "s \<le> fr" "fr \<le> e" "(\<Sum>(_, _, len)\<leftarrow>ps. len) = fr - s" by (simp_all add: plan)
  from assms(1) plan P(2) have "ranged_ok ev rk rng m ps h"
  proof (cases rule: serve_planned_cases)
    case (planned t src)
    then show ?thesis using ranged_okI [OF assms(2) plan P(1-3) planned(1)] by (simp add: ranged_hit_def hit_meta_remote_def)
  next
    case (upstream w1)
    then show ?thesis using serve_upstream_range_answers [OF upstream(2) assms(3,4)] by (auto simp: ranged_ok_def)
  qed
  then show ?thesis by (simp add: plan)
qed

lemma serve_remainder_meta: "serve_remainder cfg ev rk rng m s e plan w = (Inr h, w') \<Longrightarrow>
    ph_meta h = hit_meta_remote (ev_guess ev) (cache_key rk) m \<and> cw_dir w' = cw_dir w"
  by (auto simp: serve_remainder_def ranged_hit_def cw_dir_def Let_def split: prod.splits option.splits sum.splits elim!: after_open_InrE)

lemma serve_staged_prefix_meta: "serve_staged_prefix_and_tail cfg ev rk s e hr m plan w = (Inr h, w') \<Longrightarrow>
    ph_meta h = hit_meta_remote (ev_guess ev) (cache_key rk) m \<and> w' = w"
  by (auto simp: serve_staged_prefix_and_tail_def split: sum.splits elim!: after_open_InrE)

lemma serve_upstream_range_meta: "serve_upstream_range ev rk rng m w = (Inr h, w') \<Longrightarrow>
    ph_meta h = hit_meta_remote (ev_guess ev) (cache_key rk) m \<and> w' = w"
  by (auto simp: serve_upstream_range_def res_bind_Inr)

lemma cw_dir_put_staging [simp]: "cw_dir (put_staging st w) = st_dir st"
  by (simp add: cw_dir_def put_staging_def)

lemma serve_planned_meta:
  assumes "serve_planned cfg ev rk rng m s e w = (Inr h, w')"
  shows "ph_meta h = hit_meta_remote (ev_guess ev) (cache_key rk) m \<and> cw_dir w' = cw_dir w"
  using assms
  by (auto simp: serve_planned_def Let_def ranged_hit_def cw_staging_def add_read_def staging_touch_def split: if_splits
      dest: serve_remainder_meta serve_staged_prefix_meta serve_upstream_range_meta)

lemma reset_no_segments: "segments_for_key (st_dir (reset k st)) k = []"
proof -
  have "key_segment_files (st_dir (reset k st)) k = []"
    by (auto simp: filter_empty_conv key_segment_files_def Let_def reset_def top_level_mem)
  then show ?thesis by (simp add: segments_for_key_def)
qed

lemma serve_passthrough_cases:
  assumes "serve_passthrough cfg ev rk rng mfs w = (Inr h, w')"
  obtains m s e where "ev_stat ev (backend_key rk) = Inr m" "resolve_byte_range rng (om_size_bytes m) = Some (s, e)"
    and "if version_changed (known_etag (cw_staging w) (cache_key rk)) (om_etag m)
         then if in_use (cw_prot w) (cache_key rk) (ev_now ev) then serve_upstream_range ev rk rng m w = (Inr h, w')
              else serve_planned cfg ev rk rng m s e (put_staging (reset (cache_key rk) (cw_staging w)) w) = (Inr h, w')
         else serve_planned cfg ev rk rng m s e w = (Inr h, w')"
  using assms by (auto simp: serve_passthrough_def split: sum.splits if_splits elim!: after_stat_InrE)

lemma serve_passthrough_answers:
  assumes "serve_passthrough cfg ev rk rng mfs w = (Inr h, w')" "sane_range rng" "ht_size (ph_meta h) < 2 ^ 64"
  shows "answers ev rk rng (ht_size (ph_meta h)) (ph_content_range h) (ph_content_length h) (ph_body h)"
  using assms(1)
proof (cases rule: serve_passthrough_cases)
  case (1 m s e)
  have "ht_size (ph_meta h) = om_size_bytes m"
    using 1(3) serve_planned_meta serve_upstream_range_meta by (fastforce simp: hit_meta_remote_def split: if_splits)
  then show ?thesis
    using 1(3) serve_planned_spec [OF _ 1(2) assms(2)] serve_upstream_range_answers [OF _ assms(2)] assms(3)
    by (force simp: ranged_ok_def split: if_splits)
qed

lemma serve_from_disk_answers:
  assumes "serve_from_disk ev (cache_key rk) oc rng w = Inr (Some h)"
  shows "answers ev' rk rng (ht_size (ch_meta h)) (ch_content_range h) (ch_content_length h) (ch_body h)"
  using assms
  by (auto simp: serve_from_disk_def res_bind_Inr plan_fills_def hit_meta_entry_def split: option.splits if_splits
      intro!: answersI)

lemma finish_get_stream:
  assumes "finish_get ev rk r w = (Inr (Stream p), w')"
  obtains h where "r = Inr h" "p = plan_of_hit h" "w' = protect ev rk p w"
  using assms by (auto simp: finish_get_def split: sum.splits)

lemma await_flight_answers:
  assumes "await_flight cfg ev f rk rng ps we w = (Inr h, w')"
  shows "answers ev' rk rng (ht_size (ch_meta h)) (ch_content_range h) (ch_content_length h) (ch_body h)"
  using assms
proof (induction ps)
  case (Cons q ps)
  then show ?case
  proof (cases q)
    case (Meta m)
    then show ?thesis using Cons.prems
      by (auto simp: plan_fills_def hit_meta_remote_def res_bind_Inr Let_def resolve_byte_range_def for_span_def
          simp del: resolve.simps(4) split: option.splits intro!: answersI)
  next
    case Done
    then show ?thesis using Cons.prems serve_from_disk_answers by (fastforce simp: res_bind_Inr ok_or_Inr)
  next
    case (Failed e)
    then show ?thesis using Cons.prems serve_from_disk_answers by (fastforce split: sum.splits option.splits)
  qed auto
qed simp

lemma pull_or_pass_answers:
  assumes "pull_or_pass cfg ev rk rng fly m w = (Answer (Inr h), w')" "sane_range rng" "ht_size (ch_meta h) < 2 ^ 64"
  shows "answers ev rk rng (ht_size (ch_meta h)) (ch_content_range h) (ch_content_length h) (ch_body h)"
proof -
  obtain w1 h' where up: "serve_upstream_range ev rk rng m w1 = (Inr h', w1)" and h: "h = into_cache_hit Miss h'"
    using assms(1)
    by (auto simp: pull_or_pass_def Let_def res_bind_Inr split: prod.splits if_splits dest: serve_upstream_range_meta)
  show ?thesis
    using serve_upstream_range_answers [OF up assms(2)] assms(3) serve_upstream_range_meta [OF up]
    by (simp add: h into_cache_hit_def hit_meta_remote_def)
qed

lemma cold_miss_answers:
  assumes "cold_miss_path cfg ev rk rng w = (Answer (Inr h), w')" "sane_range rng" "ht_size (ch_meta h) < 2 ^ 64"
  shows "answers ev rk rng (ht_size (ch_meta h)) (ch_content_range h) (ch_content_length h) (ch_body h)"
  using assms pull_or_pass_answers by (force simp: cold_miss_path_def split: sum.splits if_splits)

lemma get_resolved_answers:
  assumes "get_resolved_inner cfg ev rk rng w = (Answer (Inr h), w')" "sane_range rng" "ht_size (ch_meta h) < 2 ^ 64"
  shows "answers ev rk rng (ht_size (ch_meta h)) (ch_content_range h) (ch_content_length h) (ch_body h)"
  using assms(1)
  by (auto simp: get_resolved_inner_def Let_def split: sum.splits if_splits option.splits prod.splits
      dest: pull_or_pass_answers [OF _ assms(2,3)] cold_miss_answers [OF _ assms(2,3)] serve_from_disk_answers)

lemma protect_protects: "is_protected (p_leases (cw_prot (protect ev rk p w))) (cache_key rk) t"
  by (simp add: protect_def is_protected_def lease_acquire_def protected_entry_def Let_def)

text \<open>\<open>delivers bs b\<close>: the body's chunks are a prefix of \<open>bs\<close>, and all of it when no error ends it.\<close>

definition delivers :: "byte list \<Rightarrow> body \<Rightarrow> bool" where
  "delivers bs b = ((\<exists>k. concat (fst b) = take k bs) \<and> (\<not> snd b \<longrightarrow> concat (fst b) = bs))"

lemma delivers_error [simp]: "delivers bs ([], True)"
  by (auto simp: delivers_def intro: exI [of _ 0])

lemma delivers_prepend:
  assumes "delivers bs (cs', err)" "concat cs = as"
  shows "delivers (as @ bs) (cs @ cs', err)"
proof -
  obtain k where "concat cs' = take k bs" using assms(1) by (auto simp: delivers_def)
  then have "concat (cs @ cs') = take (length as + k) (as @ bs)" by (simp add: assms(2))
  moreover have "concat (cs @ cs') = as @ bs" if "\<not> err" using assms that by (simp add: delivers_def)
  ultimately show ?thesis unfolding delivers_def fst_conv snd_conv by blast
qed

lemma read_piece_delivers: "delivers (take len data) (read_piece data len)"
  using read_piece_spec [of data len] by (cases "read_piece data len") (auto simp: delivers_def intro: exI [of _ len])

lemma pieces_then_delivers:
  assumes "plan_pieces xs cursor en = (ps, fr)" "cursor \<le> en"
    and "\<forall>(s, e, p)\<in>set xs. \<forall>f. map_of d p = Some f \<longrightarrow> f_data f = map obj [s..<e]"
    and "delivers (map obj [fr..<en]) t"
  shows "delivers (map obj [cursor..<en]) (pieces_then d ps t)"
  using assms
proof (induction xs cursor en arbitrary: ps rule: plan_pieces.induct)
  case (2 s e path segs cursor en)
  have files: "\<forall>(s, e, p)\<in>set segs. \<forall>f. map_of d p = Some f \<longrightarrow> f_data f = map obj [s..<e]"
    using "2.prems"(3) by simp
  consider "cursor \<ge> en \<or> (cursor < e \<and> s > cursor)" | "cursor < en" "e \<le> cursor"
    | "cursor < en" "cursor < e" "s \<le> cursor" by linarith
  then show ?case
  proof cases
    case 1
    then have "ps = []" "fr = cursor" using "2.prems"(1) by (auto split: if_splits)
    then show ?thesis using "2.prems"(4) by simp
  next
    case 2
    then show ?thesis using "2.IH"(1) [of ps] "2.prems"(1,2,4) files by simp
  next
    case 3
    let ?m = "min e en"
    obtain ps' fr' where rec: "plan_pieces segs ?m en = (ps', fr')" by fastforce
    have res: "ps = (path, cursor - s, ?m - cursor) # ps'" "fr = fr'"
      using "2.prems"(1) 3 rec by (auto simp: Let_def)
    have IH: "delivers (map obj [?m..<en]) (pieces_then d ps' t)"
      using "2.IH"(2) [OF _ _ _ refl] rec res 3 files "2.prems"(4) by auto
    have split: "map obj [cursor..<en] = map obj [cursor..<?m] @ map obj [?m..<en]"
      using 3 by (metis map_append le_add_diff_inverse min.cobounded2 min_less_iff_conj less_imp_le upt_add_eq_append)
    show ?thesis
    proof (cases "map_of d path")
      case (Some f)
      then have data: "take (?m - cursor) (drop (cursor - s) (f_data f)) = map obj [cursor..<?m]"
        "length (f_data f) - (cursor - s) \<ge> ?m - cursor"
        using 3 "2.prems"(3) by (auto simp: drop_map take_map)
      obtain c1 e1 where r: "read_piece (drop (cursor - s) (f_data f)) (?m - cursor) = (c1, e1)" by fastforce
      obtain c2 e2 where t: "pieces_then d ps' t = (c2, e2)" by fastforce
      have "concat c1 = map obj [cursor..<?m]" "\<not> e1" using read_piece_spec [OF r] data by auto
      then show ?thesis using delivers_prepend [of _ c2 e2 c1] IH t by (simp add: res Some r split)
    qed (simp add: res)
  qed
qed auto

lemma upstream_loop_delivers:
  assumes "want = None \<or> want = Some (length (stream_bytes evs))"
  shows "delivers (stream_bytes evs) (upstream_loop want staged evs 0)"
  using upstream_loop_tail [of want evs 0 staged] assms
  by (cases "upstream_loop want staged evs 0") (auto simp: tail_ok_def delivers_def)

lemma upstream_body_delivers:
  assumes "want = None \<or> want = Some (length (stream_bytes evs))"
  shows "delivers (stream_bytes evs) (fst (upstream_body cfg encode now write_ok evs want sink st))"
  using upstream_loop_delivers [OF assms]
  by (auto simp: upstream_body_def Let_def split: option.split prod.split) (metis)

definition streams_ok :: "serve_env \<Rightarrow> resolved_key \<Rightarrow> byte_range option \<Rightarrow> stream_plan_rec \<Rightarrow> bool" where
  "streams_ok ev rk rng p =
     (answers ev rk rng (ht_size (pl_meta p)) (pl_content_range p) (pl_content_length p) (pl_body p)
      \<and> pl_status p = (if pl_content_range p \<noteq> None then 206 else 200))"

lemma streams_ok_passthrough:
  "answers ev rk rng (ht_size (ph_meta h)) (ph_content_range h) (ph_content_length h) (ph_body h)
     \<Longrightarrow> streams_ok ev rk rng (plan_of_passthrough src h)"
  by (simp add: streams_ok_def plan_of_passthrough_def stream_plan_def)

lemma streams_ok_hit:
  "answers ev rk rng (ht_size (ch_meta h)) (ch_content_range h) (ch_content_length h) (ch_body h)
     \<Longrightarrow> streams_ok ev rk rng (plan_of_hit h)"
  by (simp add: streams_ok_def plan_of_hit_def stream_plan_def)

lemma plan_sizes [simp]:
  "ht_size (pl_meta (plan_of_passthrough src h)) = ht_size (ph_meta h)" "ht_size (pl_meta (plan_of_hit g)) = ht_size (ch_meta g)"
  by (simp_all add: plan_of_passthrough_def plan_of_hit_def stream_plan_def)

lemma status_of_answer:
  assumes "streams_ok ev rk rng p" "sane_range rng" "ht_size (pl_meta p) < 2 ^ 64"
  shows "pl_status p = (if rng = None then 200 else 206)"
proof -
  obtain s e where A: "resolve_byte_range rng (ht_size (pl_meta p)) = Some (s, e)"
    and cr: "pl_content_range p = for_span (ht_size (pl_meta p)) s e (rng \<noteq> None)"
    using assms(1) by (auto simp: streams_ok_def answers_def)
  have "pl_content_range p \<noteq> None \<longleftrightarrow> rng \<noteq> None"
    using resolve_byte_range_bounds [OF assms(2) A assms(3)] unfolding cr by (auto simp: for_span_def)
  then show ?thesis using assms(1) by (simp add: streams_ok_def)
qed

lemma serve_nocache_answers:
  assumes "serve_nocache ev rk rng w = (Inr h, w')" "sane_range rng" "ht_size (ph_meta h) < 2 ^ 64"
  shows "answers ev rk rng (ht_size (ph_meta h)) (ph_content_range h) (ph_content_length h) (ph_body h)"
proof -
  obtain m where up: "serve_upstream_range ev rk rng m w = (Inr h, w')"
    using assms(1) by (auto simp: serve_nocache_def split: sum.splits)
  show ?thesis using serve_upstream_range_answers [OF up assms(2)] serve_upstream_range_meta [OF up] assms(3)
    by (simp add: hit_meta_remote_def)
qed

text \<open>The four ways to an answer.\<close>

lemma serve_cases:
  assumes "serve cfg ev rk rng w = (out, fill, w')"
  obtains (link) url where "out = Served (Inr (Redirect_to url))" "w' = w"
  | (pipe) h where "serve_nocache ev rk rng w = (Inr h, w)" "out = Served (Inr (Stream (plan_of_passthrough Upstream h)))"
      "w' = protect ev rk (plan_of_passthrough Upstream h) w" "fill = None"
  | (pipe_error) e where "out = Served (Inl e)" "w' = w" "ep_nocache (cache_profile cfg (upstream_id rk))"
  | (ranged) h v where "serve_passthrough cfg ev rk rng (ep_min_file_size (cache_profile cfg (upstream_id rk))) w = (Inr h, v)"
      "out = Served (Inr (Stream (plan_of_passthrough (ph_source h) h)))"
      "w' = protect ev rk (plan_of_passthrough (ph_source h) h) v"
      "\<not> ep_nocache (cache_profile cfg (upstream_id rk))"
  | (cached) v where "serve_cached cfg ev rk rng v = (out, w')" "\<not> ep_nocache (cache_profile cfg (upstream_id rk))"
proof -
  have nc: "snd (serve_nocache ev rk rng w) = w"
    by (simp add: serve_nocache_def split: sum.splits)
  show ?thesis
  proof (cases "relief_link cfg ev rk w")
    case (Some url)
    then show ?thesis using assms link [of url] by (auto simp: serve_def)
  next
    case None
    show ?thesis
    proof (cases "ep_nocache (cache_profile cfg (upstream_id rk))")
      case True
      then show ?thesis using assms None pipe pipe_error nc
        by (auto simp: serve_def Let_def split: prod.splits sum.splits)
    next
      case False
      then show ?thesis using assms None ranged cached
        by (auto simp: serve_def Let_def split: prod.splits sum.splits if_splits)
    qed
  qed
qed

lemma serve_cached_answers:
  assumes "serve_cached cfg ev rk rng w = (Served (Inr (Stream p)), w')" "sane_range rng" "ht_size (pl_meta p) < 2 ^ 64"
  shows "streams_ok ev rk rng p \<and> (\<exists>v. w' = protect ev rk p v)"
proof -
  obtain r v where g: "get_resolved_inner cfg ev rk rng w = (Answer r, v)" and f: "finish_get ev rk r v = (Inr (Stream p), w')"
    using assms(1) by (auto simp: serve_cached_def Let_def split: prod.splits get_step.splits)
  from f obtain h where h: "r = Inr h" "p = plan_of_hit h" "w' = protect ev rk p v" by (rule finish_get_stream)
  show ?thesis
    using get_resolved_answers [OF g [unfolded h(1)] assms(2)] assms(3) h by (auto intro: streams_ok_hit)
qed

lemma serve_answer_spec:
  assumes "serve_answer cfg ev ev' rk rng meanwhile ps we w = (Inr (Stream p), w')"
    and "sane_range rng" and "ht_size (pl_meta p) < 2 ^ 64"
  shows "streams_ok ev rk rng p \<and> (\<exists>ev v. w' = protect ev rk p v)"
proof -
  obtain out fill v where s: "serve cfg ev rk rng w = (out, fill, v)" by (cases "serve cfg ev rk rng w")
  show ?thesis
  proof (cases out)
    case (Waits cu)
    obtain r u where a: "await_flight cfg ev' (cu_flight cu) rk rng ps we (meanwhile v) = (r, u)" by fastforce
    from assms(1) have "finish_get ev' rk r u = (Inr (Stream p), w')" by (simp add: serve_answer_def s Waits a)
    then obtain h where "r = Inr h" "p = plan_of_hit h" "w' = protect ev' rk p u" by (rule finish_get_stream)
    then show ?thesis using await_flight_answers [OF a [unfolded \<open>r = Inr h\<close>]] streams_ok_hit by blast
  next
    case (Served r)
    then have r: "out = Served (Inr (Stream p))" "v = w'" using assms(1) by (auto simp: serve_answer_def s)
    from s show ?thesis
    proof (cases rule: serve_cases)
      case (cached u)
      then show ?thesis using serve_cached_answers assms(2,3) r by blast
    next
      case (ranged h u)
      then have "p = plan_of_passthrough (ph_source h) h" using r by simp
      then show ?thesis using serve_passthrough_answers [OF ranged(1) assms(2)] assms(3) ranged(3) r
        by (auto intro: streams_ok_passthrough)
    next
      case (pipe h)
      then have "p = plan_of_passthrough Upstream h" using r by simp
      then show ?thesis using serve_nocache_answers [OF pipe(1) assms(2)] assms(3) pipe(3) r
        by (auto intro: streams_ok_passthrough)
    qed (use r in auto)
  qed
qed

lemma planned_segments_read:
  assumes "(s, e, q) \<in> set (segments_for_key d0 key)" "map_of d q = Some f"
  shows "(s, e, q) \<in> set (segments_for_key d key)"
  using assms by (auto simp: segments_for_key_mem key_segment_files_def top_level_mem file_exists_def Let_def)

lemma file_body_delivers:
  assumes "\<forall>f. map_of d q = Some f \<longrightarrow> f_data f = map obj [0..<n]" "s \<le> e" "e \<le> n"
  shows "delivers (map obj [s..<e]) (file_body d q s (e - s))"
proof (cases "map_of d q")
  case (Some f)
  have "take (e - s) (drop s (f_data f)) = map obj [s..<e]" using assms Some by (simp add: drop_map take_map)
  then show ?thesis using read_piece_delivers [of "e - s" "drop s (f_data f)"] by (simp add: file_body_def Some)
qed (simp add: file_body_def)

lemma bounded_resolves: "fr < e \<Longrightarrow> e \<le> n \<Longrightarrow> n < 2 ^ 64 \<Longrightarrow> resolve_byte_range (Some (bounded fr (e - fr))) n = Some (fr, e)"
  by (simp add: resolve_byte_range_def bounded_def add64_exact sub64_exact Let_def)

lemma plan_stagedD: "plan_staged xs s e = \<lparr>sp_pieces = ps, sp_frontier = fr\<rparr> \<Longrightarrow> plan_pieces xs s e = (ps, fr)"
  by (simp add: plan_staged_def split: prod.splits)

lemma plan_delivers:
  assumes "plan_fills ev rk rng s e b" "resolve_byte_range rng n = Some (s, e)" "s \<le> e" "e \<le> n" "n < 2 ^ 64"
    and honest: "\<forall>r src a c. ev_open ev (backend_key rk) r = Inr src \<longrightarrow> resolve_byte_range r n = Some (a, c)
                   \<longrightarrow> stream_bytes (ss_stream src) = map obj [a..<c]"
    and segs: "\<forall>(a, c, q)\<in>set (segments_for_key (st_dir st) (cache_key rk)). \<forall>f.
                 map_of (st_dir st) q = Some f \<longrightarrow> f_data f = map obj [a..<c]"
    and whole: "\<forall>f. map_of (st_dir st) (file_path (cache_key rk)) = Some f \<longrightarrow> f_data f = map obj [0..<n]"
    and "plan_body cfg encode now write_ok st b = Some y"
  shows "delivers (map obj [s..<e]) y"
proof (cases b)
  case (File_plan q off len)
  then show ?thesis using assms(1,9) file_body_delivers [OF whole assms(3,4)] by (simp add: plan_fills_def plan_body_def)
next
  case (Growing_plan f off want)
  then show ?thesis using assms(9) by (simp add: plan_body_def)
next
  case (Piece_plan ps t)
  obtain fr d where pl: "plan_pieces (segments_for_key d (cache_key rk)) s e = (ps, fr)" "tail_fills ev rk rng s fr e t"
    using assms(1) Piece_plan by (auto simp: plan_fills_def dest: plan_stagedD)
  have "\<forall>(a, c, q)\<in>set (segments_for_key d (cache_key rk)). \<forall>f. map_of (st_dir st) q = Some f \<longrightarrow> f_data f = map obj [a..<c]"
    using segs planned_segments_read by fast
  note D = pieces_then_delivers [OF pl(1) assms(3) this]
  show ?thesis
  proof (cases t)
    case No_tail
    have "delivers (map obj [fr..<e]) ([], False)" using pl(2) No_tail by (simp add: tail_fills_def delivers_def)
    from D [OF this] show ?thesis using assms(9) Piece_plan No_tail by (simp add: plan_body_def staged_body_def)
  next
    case (Run_tail i x z)
    then show ?thesis using assms(9) Piece_plan by (simp add: plan_body_def)
  next
    case (Open_tail evs want sink)
    obtain r src where o: "ev_open ev (backend_key rk) r = Inr src" "evs = ss_stream src"
      "r = Some (bounded fr (e - fr)) \<and> fr < e \<or> r = rng \<and> fr = s"
      using pl(2) Open_tail by (auto simp: tail_fills_def)
    have "resolve_byte_range r n = Some (fr, e)" using o(3) assms(2,4,5) bounded_resolves by auto
    with honest o(1) have "stream_bytes (ss_stream src) = map obj [fr..<e]" by blast
    then have sb: "stream_bytes evs = map obj [fr..<e]" by (simp add: o(2))
    have "want = None \<or> want = Some (length (stream_bytes evs))"
      using pl(2) Open_tail by (auto simp: tail_fills_def sb split: option.splits)
    from D [OF upstream_body_delivers [OF this, of cfg encode now write_ok sink st, unfolded sb]] show ?thesis
      using assms(9) Piece_plan Open_tail by (simp add: plan_body_def)
  qed
qed

subsection \<open>A small cache\<close>

text \<open>A cache of six bytes of one object, some of it staged, on a full disk: for the witnesses.\<close>

definition demo_obj :: "nat \<Rightarrow> byte" where
  "demo_obj i = of_nat (i + 7)"

definition demo_dir :: dir where
  "demo_dir = [(seg_path ''k'' 0 4, \<lparr>f_data = [7, 8, 9, 10], f_mtime = None\<rparr>)]"

definition demo_env :: serve_env where
  "demo_env =
     \<lparr>ev_backends = [''primary''], ev_now = 0,
      ev_stat = (\<lambda>_. Inr \<lparr>om_size_bytes = 6, om_etag = Some ''a'', om_last_modified = None, om_mime_hint = Some ''text/x''\<rparr>),
      ev_open = (\<lambda>_ r. case resolve_byte_range r 6 of
           Some (a, c) \<Rightarrow> Inr \<lparr>ss_stream = (if a = c then [] else [Chunk (map demo_obj [a..<c])]), ss_promised_len = Some (c - a)\<rparr>
         | None \<Rightarrow> Inl RangeNotSatisfiable),
      ev_link = None, ev_header_ok = (\<lambda>_. True), ev_free = (\<lambda>_. Some 0), ev_insert_commits = True,
      ev_delete_commits = True, ev_permit = True, ev_guess = (\<lambda>_. None), ev_shard = (\<lambda>_. 0)\<rparr>"

definition demo_key :: resolved_key where
  "demo_key = \<lparr>cache_key = ''k'', backend_key = ''k'', upstream_id = ''primary''\<rparr>"

definition demo_world :: cache_world where
  "demo_world = cache_new config_default [] demo_dir"

definition demo_range :: "byte_range option" where
  "demo_range = Some (bounded 2 4)"

lemma demo_segments: "segments_for_key demo_dir ''k'' = [(0, 4, seg_path ''k'' 0 4)]"
proof -
  have "starts_with (seg_path ''k'' 0 4) (''.seg.'' @ escape_key ''k'' @ ''.'')"
    by (simp add: seg_path_def starts_with_def)
  then have "key_segment_files demo_dir ''k'' = [seg_path ''k'' 0 4]"
    using parse_seg_path [of 0 4 "''k''"] by (simp add: key_segment_files_def Let_def demo_dir_def top_level_files_def)
  then show ?thesis using parse_seg_path [of 0 4 "''k''"] by (simp add: segments_for_key_def map_filter_def)
qed

lemma demo_open: "ev_open demo_env q r = Inr src \<Longrightarrow> resolve_byte_range r 6 = Some (a, c) \<Longrightarrow>
    stream_bytes (ss_stream src) = map demo_obj [a..<c]"
  by (auto simp: demo_env_def)

definition demo_tail :: tail where
  "demo_tail = Open_tail [Chunk (map demo_obj [4..<6])] None None"

lemma demo_plan: "plan_staged (segments_for_key demo_dir ''k'') 2 6 = \<lparr>sp_pieces = [(seg_path ''k'' 0 4, 2, 2)], sp_frontier = 4\<rparr>"
  by (simp add: demo_segments plan_staged_def)

lemma demo_range_span: "resolve_byte_range demo_range 6 = Some (2, 6)"
  by (simp add: resolve_byte_range_def demo_range_def bounded_def add64_def sub64_def)

lemma demo_passthrough:
  "\<exists>h v. serve_passthrough config_default demo_env demo_key demo_range 0 demo_world = (Inr h, v)
     \<and> ph_body h = Piece_plan [(seg_path ''k'' 0 4, 2, 2)] demo_tail
     \<and> ht_size (ph_meta h) = 6"
proof -
  let ?m = "\<lparr>om_size_bytes = 6, om_etag = Some ''a'', om_last_modified = None, om_mime_hint = Some ''text/x''\<rparr>"
  have w: "cw_dir demo_world = demo_dir" "cw_entries demo_world = []" "known_etag (cw_staging demo_world) ''k'' = None"
    by (simp_all add: demo_world_def cache_new_def cw_dir_def cw_entries_def cw_staging_def known_etag_def view_def ledger_new_def)
  have e: "ev_stat demo_env q = Inr ?m" "lookup_backend demo_env ''primary'' = Inr ()" "ev_free demo_env x = Some 0"
    "ev_open demo_env q (Some (bounded 4 2)) = Inr \<lparr>ss_stream = [Chunk (map demo_obj [4..<6])], ss_promised_len = Some 2\<rparr>"
    "stream_permit demo_env = Inr ()" for q x
    by (simp_all add: demo_env_def lookup_backend_def stream_permit_def resolve_byte_range_def bounded_def add64_def sub64_def)
  have k: "cache_key demo_key = ''k''" "backend_key demo_key = ''k''" "upstream_id demo_key = ''primary''"
    by (simp_all add: demo_key_def)
  have "serve_passthrough config_default demo_env demo_key demo_range 0 demo_world
      = serve_planned config_default demo_env demo_key demo_range ?m 2 6 demo_world"
    by (simp add: serve_passthrough_def e w k after_stat_def version_changed_def resolve_range_def demo_range_span)
  moreover have "\<not> run_admits n m (Some 0) r" for n m r by (auto simp: run_admits_def)
  ultimately show ?thesis
    by (simp add: serve_planned_def Let_def w k demo_plan e serve_staged_prefix_and_tail_def after_open_def upstream_tail_def
        demo_tail_def hit_meta_remote_def)
qed

lemma demo_profile: "cache_profile config_default ''primary'' = profile_efficient" "redirect_capable config_default ''primary'' = False"
  by (simp_all add: cache_profile_def redirect_capable_def config_upstream_def config_default_def)

lemma demo_serve:
  "\<exists>p v. serve_answer config_default demo_env demo_env demo_key demo_range id [] Ended demo_world = (Inr (Stream p), v)
     \<and> pl_body p = Piece_plan [(seg_path ''k'' 0 4, 2, 2)] demo_tail \<and> ht_size (pl_meta p) = 6"
proof -
  obtain h v where h: "serve_passthrough config_default demo_env demo_key demo_range 0 demo_world = (Inr h, v)"
    "ph_body h = Piece_plan [(seg_path ''k'' 0 4, 2, 2)] demo_tail" "ht_size (ph_meta h) = 6"
    using demo_passthrough by blast
  have "\<not> entry_exists (cache_key demo_key) demo_world" "upstream_id demo_key = ''primary''" "demo_range \<noteq> None"
    by (simp_all add: entry_exists_def cw_entries_def demo_world_def cache_new_def demo_key_def demo_range_def)
  then show ?thesis using h
    by (simp add: serve_answer_def serve_def Let_def relief_link_def demo_profile profile_efficient_def
        plan_of_passthrough_def stream_plan_def)
qed

lemma demo_sane: "sane_range demo_range"
  by (simp add: sane_range_def demo_range_def bounded_def)

lemma demo_nocache: "ep_nocache (cache_profile (config_default\<lparr>upstreams := [\<lparr>u_id = ''primary'', u_backend_type = ''openlist'',
     u_base_url = [], u_cold_miss = Proxy, u_cache_profile = ''nocache'', u_link_api_token_env = None\<rparr>]\<rparr>) (upstream_id demo_key))"
  by (simp add: cache_profile_def config_upstream_def demo_key_def profile_nocache_def)

text \<open>The ledger of a key staged under another version.\<close>

definition demo_stale :: cache_world where
  "demo_stale = demo_world\<lparr>cw_ledger := ledger_new\<lparr>lg_map := [(''k'', coverage_default\<lparr>c_etag := Some ''b''\<rparr>)]\<rparr>\<rparr>"

lemma served_bytes_spec:
  assumes "serve_answer cfg ev ev' rk rng meanwhile ps we w = (Inr (Stream p), w')"
    and "sane_range rng" and "n = ht_size (pl_meta p)" and "n < 2 ^ 64"
    and "\<forall>r src a c. ev_open ev (backend_key rk) r = Inr src \<longrightarrow> resolve_byte_range r n = Some (a, c)
           \<longrightarrow> stream_bytes (ss_stream src) = map obj [a..<c]"
    and "\<forall>(a, c, q)\<in>set (segments_for_key (st_dir st) (cache_key rk)). \<forall>f.
           map_of (st_dir st) q = Some f \<longrightarrow> f_data f = map obj [a..<c]"
    and "\<forall>f. map_of (st_dir st) (file_path (cache_key rk)) = Some f \<longrightarrow> f_data f = map obj [0..<n]"
    and "plan_body cfg encode now write_ok st (pl_body p) = Some b"
  shows "\<exists>s e. resolve_byte_range rng n = Some (s, e) \<and> pl_content_length p = Some (e - s) \<and> delivers (map obj [s..<e]) b"
proof -
  have "streams_ok ev rk rng p" using serve_answer_spec assms(1-4) by blast
  then obtain s e where se: "resolve_byte_range rng n = Some (s, e)" "pl_content_length p = Some (e - s)"
    "plan_fills ev rk rng s e (pl_body p)"
    by (auto simp: streams_ok_def answers_def assms(3))
  have "s \<le> e" "e \<le> n" using resolve_byte_range_bounds [OF assms(2) se(1) assms(4)] by simp_all
  from plan_delivers [OF se(3,1) this assms(4-8)] se show ?thesis by blast
qed

subsection \<open>Properties\<close>

text \<open>
  C5: every streamed answer is well formed, whichever of the ways gave it. The range resolves
  against the size in the headers; Content-Range and Content-Length describe that span and the
  status is 206 exactly for a range request; the body is planned for the span, pieces first,
  then one tail from where they end, read from the provider's open for just those bytes, a run
  or a flight; and the key is leased for as long as the answer lives.
\<close>

theorem response_well_formed:
  assumes "serve_answer cfg ev ev' rk rng meanwhile ps we w = (Inr (Stream p), w')"
    and "sane_range rng" and "ht_size (pl_meta p) < 2 ^ 64"
  shows "answers ev rk rng (ht_size (pl_meta p)) (pl_content_range p) (pl_content_length p) (pl_body p)
    \<and> pl_status p = (if rng = None then 200 else 206)
    \<and> is_protected (p_leases (cw_prot w')) (cache_key rk) t"
  using serve_answer_spec [OF assms] status_of_answer [OF _ assms(2,3)] protect_protects
  unfolding streams_ok_def by blast

theorem response_well_formed_witness:
  "\<exists>p :: stream_plan_rec. pl_status p = 206 \<and> pl_content_length p = Some 4
     \<and> answers demo_env demo_key demo_range 6 (pl_content_range p) (pl_content_length p) (pl_body p)"
proof -
  obtain p v where s: "serve_answer config_default demo_env demo_env demo_key demo_range id [] Ended demo_world = (Inr (Stream p), v)"
    and p: "pl_body p = Piece_plan [(seg_path ''k'' 0 4, 2, 2)] demo_tail" "ht_size (pl_meta p) = 6"
    using demo_serve by blast
  have "answers demo_env demo_key demo_range 6 (pl_content_range p) (pl_content_length p) (pl_body p) \<and> pl_status p = 206"
    using response_well_formed [OF s demo_sane] p by (simp add: demo_range_def)
  moreover from this have "pl_content_length p = Some 4" by (auto simp: answers_def demo_range_span)
  ultimately show ?thesis by blast
qed





text \<open>
  C7: no byte of an old version is served. When the provider's etag is not the one the staged
  history was taken under, a range is answered without any staged piece; if the key is being
  read, its files stay and nothing changes, otherwise its segments are gone.
\<close>

theorem version_gate:
  assumes "serve_passthrough cfg ev rk rng mfs w = (Inr h, w')" "sane_range rng" "ht_size (ph_meta h) < 2 ^ 64"
    and "known_etag (cw_staging w) (cache_key rk) = Some a" "ev_stat ev (backend_key rk) = Inr m" "om_etag m = Some b" "a \<noteq> b"
  shows "(\<exists>t. ph_body h = Piece_plan [] t)
    \<and> (if in_use (cw_prot w) (cache_key rk) (ev_now ev) then w' = w
       else segments_for_key (cw_dir w') (cache_key rk) = [])"
  using assms(1)
proof (cases rule: serve_passthrough_cases)
  case (1 m' s e)
  then have m: "m' = m" using assms(5) by simp
  have vc: "version_changed (known_etag (cw_staging w) (cache_key rk)) (om_etag m)"
    using assms(4,6,7) by (simp add: version_changed_def)
  let ?w = "put_staging (reset (cache_key rk) (cw_staging w)) w"
  show ?thesis
  proof (cases "in_use (cw_prot w) (cache_key rk) (ev_now ev)")
    case True
    then have up: "serve_upstream_range ev rk rng m w = (Inr h, w')" using 1(3) vc m by simp
    then show ?thesis using True serve_upstream_range_meta [OF up]
      by (auto simp: serve_upstream_range_def res_bind_Inr)
  next
    case False
    then have pl: "serve_planned cfg ev rk rng m s e ?w = (Inr h, w')" using 1(3) vc m by simp
    have "om_size_bytes m < 2 ^ 64" using serve_planned_meta [OF pl] assms(3) by (simp add: hit_meta_remote_def)
    from serve_planned_spec [OF pl 1(2) [unfolded m] assms(2) this]
    show ?thesis using False serve_planned_meta [OF pl] by (auto simp: ranged_ok_def reset_no_segments)
  qed
qed

theorem version_gate_witness:
  "\<exists>h v. serve_passthrough config_default demo_env demo_key demo_range 0 demo_stale = (Inr h, v)
     \<and> segments_for_key (cw_dir v) (cache_key demo_key) = []"
proof -
  let ?m = "\<lparr>om_size_bytes = 6, om_etag = Some ''a'', om_last_modified = None, om_mime_hint = Some ''text/x''\<rparr>"
  let ?w = "put_staging (reset ''k'' (cw_staging demo_stale)) demo_stale"
  have w: "cw_entries demo_stale = []" "known_etag (cw_staging demo_stale) ''k'' = Some ''b''"
      "\<not> in_use (cw_prot demo_stale) ''k'' t" for t
    by (simp_all add: demo_stale_def demo_world_def cache_new_def cw_entries_def cw_staging_def known_etag_def view_def
        coverage_default_def in_use_def is_protected_def live_def leases_new_def watches_new_def Let_def)
  have e: "ev_stat demo_env q = Inr ?m" "lookup_backend demo_env ''primary'' = Inr ()" "ev_free demo_env x = Some 0"
    "ev_open demo_env q demo_range = Inr \<lparr>ss_stream = [Chunk (map demo_obj [2..<6])], ss_promised_len = Some 4\<rparr>"
    "stream_permit demo_env = Inr ()" for q x
    by (simp_all add: demo_env_def lookup_backend_def stream_permit_def demo_range_span)
  have k: "cache_key demo_key = ''k''" "backend_key demo_key = ''k''" "upstream_id demo_key = ''primary''"
    by (simp_all add: demo_key_def)
  have na: "\<not> run_admits n m (Some 0) r" for n m r by (auto simp: run_admits_def)
  have "serve_passthrough config_default demo_env demo_key demo_range 0 demo_stale
      = serve_planned config_default demo_env demo_key demo_range ?m 2 6 ?w"
    by (simp add: serve_passthrough_def e w k after_stat_def version_changed_def resolve_range_def demo_range_span)
  moreover have "segments_for_key (cw_dir ?w) ''k'' = []" by (simp add: reset_no_segments)
  ultimately obtain h v where h: "serve_passthrough config_default demo_env demo_key demo_range 0 demo_stale = (Inr h, v)"
    "ht_size (ph_meta h) = 6"
    by (simp add: serve_planned_def Let_def k na e serve_upstream_range_def resolve_range_def demo_range_span
        res_bind_def hit_meta_remote_def)
  from version_gate [OF h(1) demo_sane, of "''b''" ?m "''a''"] h show ?thesis by (simp add: e w k)
qed

end
