(* ===== verification/Upkeep.thy ===== *)
theory Upkeep
  imports Serving
begin

text \<open>
  The cache over time (src/cache/cache.rs): what a cold pull installs, what the periodic tick may
  take away, what every operation keeps, and what a start makes of the directory it finds.
  \<open>cache_op\<close> lists the operations of the cache and \<open>cache_step\<close> runs one of them;
  \<open>world_sound\<close> is the invariant of their histories.
\<close>

subsection \<open>Names that requests may have\<close>

lemma spelled_names:
  assumes "\<not> is_reserved_key key"
  shows "tmp_path key r \<noteq> key" "\<not> is_meta_store_path key" "\<not> is_segment_name key" "\<not> starts_with key ''.''"
proof -
  have dot: "\<not> starts_with key ''.''"
    using assms by (cases key) (auto simp: is_reserved_key_def Let_def starts_with_def split: list.splits)
  then show "\<not> starts_with key ''.''" .
  show "tmp_path key r \<noteq> key" using dot artifact_names_dotted(4) [of key r] by auto
  show "\<not> is_meta_store_path key"
    using assms split_on_no_sep by (auto simp: is_meta_store_path_def is_reserved_key_def Let_def)
  show "\<not> is_segment_name key"
    using dot parse_seg_name_prefix [of key]
    by (cases key) (auto simp: is_segment_name_def starts_with_def)
qed

subsection \<open>The cold pull\<close>

lemma install_cases:
  assumes "account_ok (mg_state mg)" "install cfg ic dc p key uid om now ovs mg = (mg', p')" "\<not> is_meta_store_path key"
  shows "case map_of (cs_entries (mg_state mg')) key of
      Some row \<Rightarrow> row = new_entry key uid om now ovs (mg_state mg) \<and> map_of (mg_dir mg') key = map_of (mg_dir mg) key
    | None \<Rightarrow> map_of (mg_dir mg') key = None"
proof -
  let ?st = "(mg_state mg)\<lparr>cs_total_bytes := cs_total_bytes (mg_state mg)
      - (case map_of (cs_entries (mg_state mg)) key of Some m \<Rightarrow> em_size_bytes m | None \<Rightarrow> 0)
      + em_size_bytes (new_entry key uid om now ovs (mg_state mg)),
    cs_entries := hm_put key (new_entry key uid om now ovs (mg_state mg)) (cs_entries (mg_state mg))\<rparr>"
  have wf: "hm_wf (cs_entries ?st)" using assms(1) by (simp add: account_ok_def hm_wf_put)
  obtain vs st' where pick: "evict_pick cfg (fst (spared now p)) ?st = (vs, st')" by fastforce
  have mg': "mg_state mg' = st'" "map_of (mg_dir mg') key = (if key \<in> fst ` set vs then None else map_of (mg_dir mg) key)"
    using assms(3) pick arg_cong [OF assms(2), of fst, symmetric]
    by (simp_all add: install_def Let_def case_prod_unfold delete_victims_file)
  show ?thesis using ev.get_after [OF wf pick, of key] by (simp add: mg')
qed

lemma drive_flight_cases:
  assumes "drive_flight cfg ev io tmp cu w = (ps, w')"
  obtains (full) "ps = [Failed (ServerError ''insufficient disk space'')]" "w' = w"
    | (no_open) e where "ps = [Meta (cu_meta cu), Failed e]" "w' = w"
    | (broken) src e pubs d where
        "pump_and_seal io (Some (ev_now ev)) src tmp (cache_key (cu_key cu)) (cw_dir w) = (Inl e, pubs, d)"
        "ps = Meta (cu_meta cu) # map Growing pubs @ [Failed e]" "w' = w\<lparr>cw_mag := (cw_mag w)\<lparr>mg_dir := d\<rparr>\<rparr>"
    | (installed) src pubs d mg p where "ev_open ev (backend_key (cu_key cu)) None = Inr src"
        "pump_and_seal io (Some (ev_now ev)) src tmp (cache_key (cu_key cu)) (cw_dir w) = (Inr (), pubs, d)"
        "install cfg (ev_insert_commits ev) (ev_delete_commits ev) (cw_prot w) (cache_key (cu_key cu)) (upstream_id (cu_key cu))
           (cu_meta cu) (ev_now ev) (cu_oversize cu) ((cw_mag w)\<lparr>mg_dir := d\<rparr>) = (mg, p)"
        "ps = Meta (cu_meta cu) # map Growing pubs @ [Done]" "w' = w\<lparr>cw_mag := mg, cw_prot := p\<rparr>"
proof (cases "has_room_for (ev_free ev (cw_dir w)) (om_size_bytes (cu_meta cu)) DISK_RESERVE_BYTES")
  case False
  then show ?thesis using assms full by (simp add: drive_flight_def)
next
  case room: True
  show ?thesis
  proof (cases "ev_open ev (backend_key (cu_key cu)) None")
    case (Inl e)
    then show ?thesis using assms room no_open [of e] by (auto simp add: drive_flight_def)
  next
    case (Inr src)
    obtain r pubs d where p: "pump_and_seal io (Some (ev_now ev)) src tmp (cache_key (cu_key cu)) (cw_dir w) = (r, pubs, d)"
      by (metis prod_cases3)
    obtain mg q where i: "install cfg (ev_insert_commits ev) (ev_delete_commits ev) (cw_prot w) (cache_key (cu_key cu))
       (upstream_id (cu_key cu)) (cu_meta cu) (ev_now ev) (cu_oversize cu) ((cw_mag w)\<lparr>mg_dir := d\<rparr>) = (mg, q)" by fastforce
    show ?thesis
    proof (cases r)
      case (Inl e)
      then show ?thesis using assms room \<open>ev_open ev _ None = Inr src\<close> p broken [of src e pubs d] by (auto simp add: drive_flight_def file_path_def)
    next
      case (Inr u)
      then show ?thesis using assms room \<open>ev_open ev _ None = Inr src\<close> p i installed [of src pubs d mg q]
        by (auto simp add: drive_flight_def file_path_def)
    qed
  qed
qed

lemma cold_pull_spec:
  assumes "drive_flight cfg ev io (tmp_path (cache_key (cu_key cu)) r) cu w = (ps, w')"
    and "\<not> is_reserved_key (cache_key (cu_key cu))" and "account_ok (mg_state (cw_mag w))"
  shows "account_ok (mg_state (cw_mag w')) \<and> terminal (last ps) \<and> (\<forall>q\<in>set (butlast ps). \<not> terminal q)
    \<and> (if last ps = Done
       then \<exists>src bytes. ev_open ev (backend_key (cu_key cu)) None = Inr src
          \<and> (case ss_promised_len src of
               Some n \<Rightarrow> length bytes = n \<and> bytes = take n (stream_bytes (ss_stream src))
             | None \<Rightarrow> bytes = stream_bytes (ss_stream src) \<and> \<not> stream_fails (ss_stream src))
          \<and> (case map_of (cw_entries w') (cache_key (cu_key cu)) of
               Some row \<Rightarrow> row = new_entry (cache_key (cu_key cu)) (upstream_id (cu_key cu)) (cu_meta cu) (ev_now ev) (cu_oversize cu) (mg_state (cw_mag w))
                 \<and> map_of (cw_dir w') (file_path (cache_key (cu_key cu))) = Some \<lparr>f_data = bytes, f_mtime = Some (ev_now ev)\<rparr>
             | None \<Rightarrow> map_of (cw_dir w') (file_path (cache_key (cu_key cu))) = None)
       else cw_entries w' = cw_entries w \<and> cw_prot w' = cw_prot w
          \<and> (\<forall>q. q \<noteq> tmp_path (cache_key (cu_key cu)) r \<longrightarrow> map_of (cw_dir w') q = map_of (cw_dir w) q))"
proof -
  let ?key = "cache_key (cu_key cu)" and ?tmp = "tmp_path (cache_key (cu_key cu)) r"
  note ne = spelled_names(1) [OF assms(2), of r]
  consider "ps = [Failed (ServerError ''insufficient disk space'')]" "w' = w"
    | e where "ps = [Meta (cu_meta cu), Failed e]" "w' = w"
    | src e pubs d where "pump_and_seal io (Some (ev_now ev)) src ?tmp ?key (cw_dir w) = (Inl e, pubs, d)"
        "ps = Meta (cu_meta cu) # map Growing pubs @ [Failed e]" "w' = w\<lparr>cw_mag := (cw_mag w)\<lparr>mg_dir := d\<rparr>\<rparr>"
    | src pubs d mg p where "ev_open ev (backend_key (cu_key cu)) None = Inr src"
        "pump_and_seal io (Some (ev_now ev)) src ?tmp ?key (cw_dir w) = (Inr (), pubs, d)"
        "install cfg (ev_insert_commits ev) (ev_delete_commits ev) (cw_prot w) ?key (upstream_id (cu_key cu)) (cu_meta cu)
           (ev_now ev) (cu_oversize cu) ((cw_mag w)\<lparr>mg_dir := d\<rparr>) = (mg, p)"
        "ps = Meta (cu_meta cu) # map Growing pubs @ [Done]" "w' = w\<lparr>cw_mag := mg, cw_prot := p\<rparr>"
    by (rule drive_flight_cases [OF assms(1)])
  then show ?thesis
  proof cases
    case 3
    from 3(1) ne show ?thesis
    proof (cases rule: pump_and_seal_cases)
      case (failed e')
      then show ?thesis using 3 assms(3) by (auto simp: cw_entries_def cw_dir_def butlast_append)
    qed simp
  next
    case 4
    from 4(2) ne show ?thesis
    proof (cases rule: pump_and_seal_cases)
      case (sealed out published pubs0)
      have ok: "account_ok (mg_state mg)"
        using install_account [of "(cw_mag w)\<lparr>mg_dir := d\<rparr>"] 4(3) assms(3) by (metis fst_conv magazine.select_convs(1) magazine.update_convs(3) magazine.surjective)
      have "pumped_ok (ss_promised_len src) (ss_stream src) [] (None, out, published, pubs0)"
        using pump_from_scratch sealed(2) by metis
      then have bytes: "case ss_promised_len src of
               Some n \<Rightarrow> length out = n \<and> out = take n (stream_bytes (ss_stream src))
             | None \<Rightarrow> out = stream_bytes (ss_stream src) \<and> \<not> stream_fails (ss_stream src)"
        using sealed(3,4) sealed(2) pumped_promise by (auto simp: pumped_ok_def split: option.splits)
      have f: "map_of d ?key = Some \<lparr>f_data = out, f_mtime = Some (ev_now ev)\<rparr>" using sealed(5) by simp
      note I = install_cases [OF _ 4(3) spelled_names(2) [OF assms(2)]]
      show ?thesis
        using 4 ok bytes I assms(3) f
        by (auto simp: cw_entries_def cw_dir_def butlast_append file_path_def split: option.splits)
    qed simp
  qed (use assms(3) in auto)
qed

subsection \<open>The tick\<close>

lemma staged_bytes_sum:
  assumes "wf_dir d"
  shows "staged_bytes d = (\<Sum>p\<in>{p. file_exists d p \<and> is_segment_name p}. file_len d p)"
proof -
  have "(\<Sum>x\<leftarrow>d. if is_segment_name (fst x) then length (f_data (snd x)) else 0)
      = (\<Sum>p\<leftarrow>map fst d. if is_segment_name p then file_len d p else 0)"
    using assms by (auto simp: file_len_def wf_dir_def comp_def intro!: arg_cong [where f = sum_list] map_cong)
  also have "\<dots> = (\<Sum>p\<in>fst ` set d. if is_segment_name p then file_len d p else 0)"
    using assms sum_list_distinct_conv_sum_set [of "map fst d" "\<lambda>p. if is_segment_name p then file_len d p else 0"]
    by (simp add: wf_dir_def)
  also have "\<dots> = (\<Sum>p\<in>{p \<in> fst ` set d. is_segment_name p}. file_len d p)"
    by (simp add: sum.inter_filter)
  also have "{p \<in> fst ` set d. is_segment_name p} = {p. file_exists d p \<and> is_segment_name p}"
    by (auto simp: file_exists_def map_of_eq_None_iff)
  finally show ?thesis by (simp add: staged_bytes_def case_prod_unfold)
qed

lemma staged_bytes_cong:
  assumes "wf_dir d" "wf_dir d'" "\<And>q. is_segment_name q \<Longrightarrow> map_of d' q = map_of d q"
  shows "staged_bytes d' = staged_bytes d"
proof -
  have "{p. file_exists d' p \<and> is_segment_name p} = {p. file_exists d p \<and> is_segment_name p}"
    using assms(3) by (auto simp: file_exists_def)
  then show ?thesis using assms by (auto simp: staged_bytes_sum file_len_def intro!: sum.cong)
qed

lemma dotted: "starts_with q (CHR ''.'' # r) \<Longrightarrow> starts_with q ''.''"
  by (auto simp: starts_with_iff)

lemma sweep_keys_spec:
  assumes "wf_dir d0" "sweep_keys d0 keys d = (out, d')" "wf_dir d"
  shows "wf_dir d' \<and> staged_bytes d = (\<Sum>(_, n)\<leftarrow>out. n) + staged_bytes d'
    \<and> (\<forall>q. \<not> starts_with q ''.'' \<longrightarrow> map_of d' q = map_of d q)"
  using assms(2,3)
proof (induction keys arbitrary: d out)
  case (Cons key keys)
  let ?ps = "segment_index d0 key"
  let ?d = "remove_file (segmeta_path key) (remove_files ?ps d)"
  obtain out' where rec: "sweep_keys d0 keys ?d = (out', d')" and out: "out = (key, \<Sum>p\<leftarrow>?ps. file_len d p) # out'"
    using Cons.prems by (auto simp: Let_def split: prod.splits)
  have ps: "distinct ?ps" "\<forall>p\<in>set ?ps. is_segment_name p" "\<forall>p\<in>set ?ps. starts_with p ''.''"
    using top_level_distinct [OF assms(1)]
    by (auto simp: segment_index_def is_segment_name_def top_level_mem dotted split: option.splits)
  have wf: "wf_dir ?d" using Cons.prems by (simp add: wf_dir_remove_file wf_dir_remove_files)
  have "staged_bytes d = (\<Sum>p\<leftarrow>?ps. file_len d p) + staged_bytes ?d"
    using remove_files_account [OF Cons.prems(2) ps(1,2)] Cons.prems(2) by (simp add: staged_remove_other wf_dir_remove_files)
  moreover have "map_of ?d q = map_of d q" if "\<not> starts_with q ''.''" for q
    using ps(3) that artifact_names_dotted(3) [of key] by (auto simp: map_of_remove_files)
  ultimately show ?case using Cons.IH [OF rec wf] out by simp
qed simp

text \<open>What a magazine pass may do: rows leave, with their files and nothing else.\<close>

definition magazine_shrinks :: "magazine \<Rightarrow> magazine \<Rightarrow> bool" where
  "magazine_shrinks mg mg' =
     (account_ok (mg_state mg) \<longrightarrow>
        account_ok (mg_state mg')
      \<and> (\<forall>k. map_of (cs_entries (mg_state mg')) k \<in> {None, map_of (cs_entries (mg_state mg)) k})
      \<and> (\<forall>q. map_of (mg_dir mg') q = map_of (mg_dir mg) q
             \<or> map_of (cs_entries (mg_state mg)) q \<noteq> None \<and> map_of (cs_entries (mg_state mg')) q = None)
      \<and> (wf_dir (mg_dir mg) \<longrightarrow> wf_dir (mg_dir mg')))"

lemma magazine_shrinks_refl [simp]: "magazine_shrinks mg mg"
  by (simp add: magazine_shrinks_def)

lemma magazine_shrinks_trans: "magazine_shrinks a b \<Longrightarrow> magazine_shrinks b c \<Longrightarrow> magazine_shrinks a c"
  unfolding magazine_shrinks_def by (metis insert_iff singletonD)

context victim_pass
begin

lemma deleted_shrinks:
  assumes "pick (mg_state mg) = (vs, st')"
  shows "magazine_shrinks mg (delete_victims c vs (mg\<lparr>mg_state := st'\<rparr>))"
  unfolding magazine_shrinks_def
proof (intro impI conjI allI)
  assume a: "account_ok (mg_state mg)"
  then have wf: "hm_wf (cs_entries (mg_state mg))" by (simp add: account_ok_def)
  note G = get_after [OF wf assms]
  show "account_ok (mg_state (delete_victims c vs (mg\<lparr>mg_state := st'\<rparr>)))" using account_kept [OF a assms] by simp
  show "map_of (cs_entries (mg_state (delete_victims c vs (mg\<lparr>mg_state := st'\<rparr>)))) k \<in> {None, map_of (cs_entries (mg_state mg)) k}" for k
    by (simp add: G)
  show "map_of (mg_dir (delete_victims c vs (mg\<lparr>mg_state := st'\<rparr>))) q = map_of (mg_dir mg) q \<or>
      map_of (cs_entries (mg_state mg)) q \<noteq> None \<and> map_of (cs_entries (mg_state (delete_victims c vs (mg\<lparr>mg_state := st'\<rparr>)))) q = None" for q
  proof (cases "q \<in> fst ` set vs")
    case True
    then obtain sz where "(q, sz) \<in> set vs" by auto
    from pick_rows [OF wf assms this] show ?thesis using True by (auto simp: G)
  qed (simp add: delete_victims_file)
  show "wf_dir (mg_dir (delete_victims c vs (mg\<lparr>mg_state := st'\<rparr>)))" if "wf_dir (mg_dir mg)"
    using that by (simp add: delete_victims_def wf_dir_remove_files)
qed

end

lemma reap_shrinks: "magazine_shrinks mg (fst (reap c ttl now p mg))"
  unfolding reap_def Let_def case_prod_unfold fst_conv by (rule rp.deleted_shrinks) simp

lemma evict_budget_shrinks: "magazine_shrinks mg (fst (evict_budget cfg c now p mg))"
  unfolding evict_budget_def Let_def case_prod_unfold fst_conv by (rule ev.deleted_shrinks) simp

lemma pressure_shrinks: "magazine_shrinks mg (reclaim_under_pressure cfg free c mg)"
  unfolding reclaim_under_pressure_def reclaim_strays_def Let_def case_prod_unfold fst_conv snd_conv if_distrib
  by (auto intro: stray.deleted_shrinks)

text \<open>What a sweep may do: take the cache's own leftovers away, never a segment or an object.\<close>

definition sweeps :: "dir \<Rightarrow> dir \<Rightarrow> bool" where
  "sweeps d d' =
     ((wf_dir d \<longrightarrow> wf_dir d') \<and> shrinks (\<lambda>q. starts_with q ''.'' \<and> \<not> is_segment_name q) d d')"

lemma sweeps_refl [simp]: "sweeps d d"
  by (simp add: sweeps_def)

lemma sweeps_trans: "sweeps a b \<Longrightarrow> sweeps b c \<Longrightarrow> sweeps a c"
  by (auto simp: sweeps_def intro: shrinks_trans)

lemma sweeps_keeps:
  assumes "sweeps d d'"
  shows "is_segment_name q \<Longrightarrow> map_of d' q = map_of d q" "\<not> starts_with q ''.'' \<Longrightarrow> map_of d' q = map_of d q"
    "file_exists d' q \<Longrightarrow> file_exists d q"
  using assms unfolding sweeps_def shrinks_def file_exists_def by metis+

lemma sweeps_account: "sweeps d d' \<Longrightarrow> wf_dir d \<Longrightarrow> wf_dir d' \<and> staged_bytes d' = staged_bytes d"
  using staged_bytes_cong [of d d'] sweeps_keeps(1) [of d d'] by (simp add: sweeps_def)

lemma sweeps_remove_files:
  assumes "\<forall>p\<in>set ps. starts_with p ''.'' \<and> \<not> is_segment_name p"
  shows "sweeps d (remove_files ps d)"
  using assms by (auto simp: sweeps_def shrinks_def wf_dir_remove_files)

lemma segment_name_prefix: "is_segment_name p \<Longrightarrow> starts_with p ''.seg.''"
  using parse_seg_name_prefix [of p] by (auto simp: is_segment_name_def)

lemma not_segment_name:
  "starts_with p ''.tmp.'' \<Longrightarrow> \<not> is_segment_name p" "starts_with p ''.segpart.'' \<Longrightarrow> \<not> is_segment_name p"
  "starts_with p ''.segmeta.'' \<Longrightarrow> \<not> is_segment_name p"
  using segment_name_prefix [of p] by (auto simp: starts_with_iff)

lemma strip_prefix_starts: "strip_prefix q p = Some r \<Longrightarrow> starts_with p q"
  by (auto simp: strip_prefix_def split: if_splits)

lemma sweeps_cleanup_tmps: "sweeps d (snd (cleanup_tmps d))"
  by (auto simp: cleanup_tmps_def Let_def not_segment_name dotted intro!: sweeps_remove_files)

lemma sweeps_stale_tmps: "sweeps d (snd (cleanup_stale_tmps ttl now d))"
  by (auto simp: cleanup_stale_tmps_def Let_def not_segment_name dotted intro!: sweeps_remove_files)

lemma sweeps_segparts: "sweeps d (snd (sweep_segparts ttl now d))"
  by (auto simp: sweep_segparts_def Let_def not_segment_name dotted intro!: sweeps_remove_files)

lemma sweeps_orphan_metas: "sweeps d (sweep_orphan_metas d)"
  by (auto simp: sweep_orphan_metas_def Let_def not_segment_name dotted intro!: sweeps_remove_files
      dest!: strip_prefix_starts split: option.splits)

lemma sweeps_scan: "sweeps d (snd (scan_segment_files decode d))"
proof -
  have "starts_with p ''.'' \<and> \<not> is_segment_name p" if "is_seg_junk p" for p
    using that parse_seg_name_prefix [of p] by (auto simp: is_seg_junk_def is_segment_name_def dotted)
  then show ?thesis by (auto simp: scan_segment_files_def Let_def intro!: sweeps_remove_files)
qed

lemma forget_all_total: "lg_total_staged (foldl (\<lambda>l (k, n). forget k n l) lg out) = lg_total_staged lg - (\<Sum>(_, n)\<leftarrow>out. n)"
  by (induction out arbitrary: lg) (auto simp: forget_def)

lemma evict_staged_spares_objects:
  assumes "\<not> starts_with q ''.''"
  shows "map_of (st_dir (snd (evict_staged cfg p need now st))) q = map_of (st_dir st) q"
proof -
  let ?order = "map snd (rows_by_age (max_size_bytes cfg) (st_ledger st))"
  let ?p1 = "budget_pass cfg p False need now ?order ((0, 0), st)"
  let ?p2 = "budget_pass cfg p True need now ?order ?p1"
  have "\<not> evictable p now inside q" for inside
    using assms artifact_names_dotted by (auto simp: evictable_def trimmable_def)
  with budget_pass_shrinks [of p now False "((0, 0), st)" cfg need ?order]
    budget_pass_shrinks [of p now True ?p1 cfg need ?order] cap_pass_shrinks [of p now ?p2 cfg]
  show ?thesis unfolding evict_staged_def Let_def shrinks_def by (metis snd_conv)
qed

text \<open>The tick in its stages.\<close>

lemma cache_tick_stages:
  obtains st1 swept d1 d3 mg1 p1 p2 mg3 p3 where
    "st1 = snd (evict_staged cfg p1 (staged_overrun cfg (total_staged (cw_ledger w)) (cw_mag w)) (ev_now ev) (cw_staging w))"
    "\<exists>keys. sweep_keys (st_dir st1) keys (st_dir st1) = (swept, d1)"
    "sweeps d1 d3" "p1 = cw_prot w \<or> p1 = snd (spared (ev_now ev) (cw_prot w))"
    "reap (ev_delete_commits ev) (inactive_ttl_secs cfg * 1000) (ev_now ev) p1 ((cw_mag w)\<lparr>mg_dir := d3\<rparr>) = (mg1, p2)"
    "\<exists>t. evict_budget cfg (ev_delete_commits ev) (ev_now ev) p2 (mg1\<lparr>mg_state := (mg_state mg1)\<lparr>cs_segment_sweep_at_millis := t\<rparr>\<rparr>) = (mg3, p3)"
    "cache_tick cfg ev w = w\<lparr>cw_mag := reclaim_under_pressure cfg (ev_free ev) (ev_delete_commits ev) mg3,
        cw_ledger := foldl (\<lambda>l (k, n). forget k n l) (st_ledger st1) swept, cw_prot := p3\<rparr>"
proof -
  let ?now = "ev_now ev" and ?ttl = "inactive_ttl_secs cfg * 1000"
  define sweep where "sweep = (?now - cs_segment_sweep_at_millis (mg_state (cw_mag w)) \<ge> ?ttl)"
  obtain victims p1 where ex: "(if sweep then expired ?ttl ?now (cw_prot w) (cw_staging w) else ([], cw_prot w)) = (victims, p1)"
    by fastforce
  define st1 where "st1 = snd (evict_staged cfg p1 (staged_overrun cfg (total_staged (cw_ledger w)) (cw_mag w)) ?now (cw_staging w))"
  obtain swept d1 where sk: "sweep_keys (st_dir st1) victims (st_dir st1) = (swept, d1)" by fastforce
  define d3 where "d3 = snd (cleanup_stale_tmps ?ttl ?now (if sweep then sweep_orphan_metas (snd (sweep_segparts ?ttl ?now d1)) else d1))"
  obtain mg1 p2 where rp: "reap (ev_delete_commits ev) ?ttl ?now p1 ((cw_mag w)\<lparr>mg_dir := d3\<rparr>) = (mg1, p2)" by fastforce
  define mg2 where "mg2 = (if sweep then mg1\<lparr>mg_state := (mg_state mg1)\<lparr>cs_segment_sweep_at_millis := ?now\<rparr>\<rparr> else mg1)"
  obtain mg3 p3 where eb: "evict_budget cfg (ev_delete_commits ev) ?now p2 mg2 = (mg3, p3)" by fastforce
  show ?thesis
  proof (rule that [of st1 p1 swept d1 d3 mg1 p2 mg3 p3])
    show "st1 = snd (evict_staged cfg p1 (staged_overrun cfg (total_staged (cw_ledger w)) (cw_mag w)) ?now (cw_staging w))"
      by (rule st1_def)
    show "\<exists>keys. sweep_keys (st_dir st1) keys (st_dir st1) = (swept, d1)" using sk by blast
    show "sweeps d1 d3"
      unfolding d3_def using sweeps_trans [OF sweeps_trans [OF sweeps_segparts sweeps_orphan_metas] sweeps_stale_tmps] sweeps_stale_tmps
      by (cases sweep) simp_all
    show "p1 = cw_prot w \<or> p1 = snd (spared ?now (cw_prot w))"
      using ex by (auto simp: expired_def Let_def split: if_splits prod.splits)
    show "reap (ev_delete_commits ev) ?ttl ?now p1 ((cw_mag w)\<lparr>mg_dir := d3\<rparr>) = (mg1, p2)" by (rule rp)
    show "\<exists>t. evict_budget cfg (ev_delete_commits ev) ?now p2 (mg1\<lparr>mg_state := (mg_state mg1)\<lparr>cs_segment_sweep_at_millis := t\<rparr>\<rparr>) = (mg3, p3)"
      using eb by (cases sweep)
        (auto simp: mg2_def intro: exI [of _ ?now] exI [of _ "cs_segment_sweep_at_millis (mg_state mg1)"])
    show "cache_tick cfg ev w = w\<lparr>cw_mag := reclaim_under_pressure cfg (ev_free ev) (ev_delete_commits ev) mg3,
        cw_ledger := foldl (\<lambda>l (k, n). forget k n l) (st_ledger st1) swept, cw_prot := p3\<rparr>"
      unfolding cache_tick_def Let_def
      by (simp only: sweep_def [symmetric] ex prod.case st1_def [symmetric] sk d3_def [symmetric] rp mg2_def [symmetric] eb)
  qed
qed

lemma reap_dir_state: "reap c ttl now p mg = (mg1, p2) \<Longrightarrow> magazine_shrinks mg mg1"
  using reap_shrinks [of mg c ttl now p] by simp

lemma evict_budget_dir_state: "evict_budget cfg c now p mg = (mg1, p2) \<Longrightarrow> magazine_shrinks mg mg1"
  using evict_budget_shrinks [of mg cfg c now p] by simp

lemma magazine_shrinks_stamp: "magazine_shrinks mg (mg\<lparr>mg_state := (mg_state mg)\<lparr>cs_segment_sweep_at_millis := t\<rparr>\<rparr>)"
  by (simp add: magazine_shrinks_def account_ok_def entry_bytes_def)

text \<open>
  What every operation keeps: no file listed twice, both accounts exact, and no row under a name
  that is the cache's own.
\<close>

definition world_sound :: "cache_world \<Rightarrow> bool" where
  "world_sound w =
     (wf_dir (cw_dir w) \<and> account_exact (cw_staging w) \<and> account_ok (mg_state (cw_mag w))
      \<and> (\<forall>k. map_of (cw_entries w) k \<noteq> None \<longrightarrow> \<not> is_reserved_key k))"

lemma tick_account:
  assumes "world_sound w"
  shows "world_sound (cache_tick cfg ev w)
    \<and> (\<forall>k. map_of (cw_entries (cache_tick cfg ev w)) k \<in> {None, map_of (cw_entries w) k})
    \<and> (\<forall>k. \<not> is_reserved_key k \<longrightarrow> map_of (cw_dir (cache_tick cfg ev w)) k \<noteq> map_of (cw_dir w) k
         \<longrightarrow> map_of (cw_entries w) k \<noteq> None \<and> map_of (cw_entries (cache_tick cfg ev w)) k = None)"
proof (rule cache_tick_stages [of cfg w ev], goal_cases)
  case (1 st1 swept d1 d3 mg1 p1 p2 mg3 p3)
  note W = assms [unfolded world_sound_def]
  let ?mg0 = "(cw_mag w)\<lparr>mg_dir := d3\<rparr>" and ?mg4 = "reclaim_under_pressure cfg (ev_free ev) (ev_delete_commits ev) mg3"
  have st: "wf_dir (st_dir st1)" "account_exact st1"
    using gave_up_account [OF evict_staged_gave_up] W by (simp_all add: 1(1) cw_staging_def)
  obtain keys where keys: "sweep_keys (st_dir st1) keys (st_dir st1) = (swept, d1)" using 1(2) by blast
  note K = sweep_keys_spec [OF st(1) keys st(1)]
  have d3: "wf_dir d3" "staged_bytes d3 = staged_bytes d1" using sweeps_account [OF 1(3)] K by simp_all
  have sh: "magazine_shrinks ?mg0 ?mg4"
    using reap_dir_state [OF 1(5)] magazine_shrinks_stamp evict_budget_dir_state 1(6) pressure_shrinks magazine_shrinks_trans
    by metis
  have ok: "account_ok (mg_state ?mg0)" using W by simp
  have S: "account_ok (mg_state ?mg4)" "wf_dir d3 \<Longrightarrow> wf_dir (mg_dir ?mg4)"
    "map_of (cs_entries (mg_state ?mg4)) q \<in> {None, map_of (cw_entries w) q}"
    "map_of (mg_dir ?mg4) q = map_of d3 q
       \<or> map_of (cw_entries w) q \<noteq> None \<and> map_of (cs_entries (mg_state ?mg4)) q = None" for q
    using sh ok by (simp_all add: magazine_shrinks_def cw_entries_def)
  have eq: "cw_mag (cache_tick cfg ev w) = ?mg4" "lg_total_staged (cw_ledger (cache_tick cfg ev w))
      = lg_total_staged (st_ledger st1) - (\<Sum>(_, n)\<leftarrow>swept. n)"
    by (simp_all add: 1(7) forget_all_total)
  have "map_of (mg_dir ?mg4) q = map_of d3 q" if "is_segment_name q" for q
    using S(4) [of q] W that spelled_names(3) by blast
  then have "staged_bytes (mg_dir ?mg4) = staged_bytes d3"
    using S(2) d3 by (intro staged_bytes_cong) auto
  then have "account_exact (cw_staging (cache_tick cfg ev w))"
    using st(2) K d3 eq by (simp add: account_exact_def cw_staging_def cw_dir_def)
  moreover have "map_of (mg_dir ?mg4) k = map_of (cw_dir w) k
      \<or> map_of (cw_entries w) k \<noteq> None \<and> map_of (cs_entries (mg_state ?mg4)) k = None" if "\<not> is_reserved_key k" for k
  proof -
    have "\<not> starts_with k ''.''" using that by (rule spelled_names)
    then have "map_of d3 k = map_of (cw_dir w) k"
      using 1(1) sweeps_keeps(2) [OF 1(3)] K evict_staged_spares_objects by (simp add: cw_staging_def)
    then show ?thesis using S(4) [of k] by simp
  qed
  moreover have "map_of (cs_entries (mg_state ?mg4)) k \<noteq> None \<longrightarrow> \<not> is_reserved_key k" for k
    using S(3) [of k] W by force
  ultimately show ?case using S(1,2) S(3) [unfolded cw_entries_def] d3(1) eq(1)
    by (simp add: world_sound_def cw_entries_def cw_dir_def) blast
qed

subsection \<open>What every operation keeps\<close>

lemma sound_frames [simp]:
  "world_sound (w\<lparr>cw_sess := a\<rparr>) = world_sound w" "world_sound (w\<lparr>cw_flights := b\<rparr>) = world_sound w"
  "world_sound (w\<lparr>cw_access := c\<rparr>) = world_sound w" "world_sound (w\<lparr>cw_prot := d\<rparr>) = world_sound w"
  by (simp_all add: world_sound_def cw_dir_def cw_entries_def cw_staging_def)

lemma sound_magazine:
  assumes "world_sound w" "magazine_shrinks (cw_mag w) mg"
  shows "world_sound (w\<lparr>cw_mag := mg\<rparr>)"
proof -
  note W = assms(1) [unfolded world_sound_def cw_dir_def cw_entries_def]
  have S: "account_ok (mg_state mg)" "wf_dir (mg_dir mg)"
    "map_of (cs_entries (mg_state mg)) q \<in> {None, map_of (cs_entries (mg_state (cw_mag w))) q}"
    "map_of (mg_dir mg) q = map_of (mg_dir (cw_mag w)) q
       \<or> map_of (cs_entries (mg_state (cw_mag w))) q \<noteq> None \<and> map_of (cs_entries (mg_state mg)) q = None" for q
    using assms(2) W by (simp_all add: magazine_shrinks_def)
  have "map_of (mg_dir mg) q = map_of (mg_dir (cw_mag w)) q" if "is_segment_name q" for q
    using S(4) [of q] W that spelled_names(3) by blast
  then have "staged_bytes (mg_dir mg) = staged_bytes (mg_dir (cw_mag w))"
    using S(2) W by (intro staged_bytes_cong) auto
  moreover have "map_of (cs_entries (mg_state mg)) k \<noteq> None \<longrightarrow> \<not> is_reserved_key k" for k
    using S(3) [of k] W by force
  ultimately show ?thesis
    using S(1,2) W by (simp add: world_sound_def cw_dir_def cw_entries_def account_exact_def cw_staging_def)
qed

lemma sound_put_staging:
  assumes "world_sound w" "gave_up n (cw_staging w) st"
  shows "world_sound (put_staging st w)"
  using assms gave_up_account [OF assms(2)]
  by (simp add: world_sound_def put_staging_def cw_dir_def cw_entries_def cw_staging_def account_exact_def)

lemma sound_read [simp]:
  "world_sound w \<Longrightarrow> world_sound (put_staging (add_read key a b (staging_touch key now (cw_staging w))) w)"
  "world_sound w \<Longrightarrow> world_sound (put_staging (add_read key a b (cw_staging w)) w)"
  by (auto intro!: sound_put_staging [of _ 0] simp: gave_up_def add_read_def staging_touch_def)

lemma sound_reset: "world_sound w \<Longrightarrow> world_sound (put_staging (reset key (cw_staging w)) w)"
  using reset_gave_up [of "cw_staging w" key] sound_put_staging
  by (auto simp: world_sound_def cw_staging_def)

text \<open>A key that may be tombstoned: it is no reserved name, and its row, if it has one, has no bytes.\<close>

definition may_bury :: "string \<Rightarrow> cache_world \<Rightarrow> bool" where
  "may_bury key w =
     (\<not> is_reserved_key key \<and> (case map_of (cw_entries w) key of Some m \<Rightarrow> em_size_bytes m = 0 | None \<Rightarrow> True))"

lemma sound_tombstone:
  assumes "world_sound w" "may_bury (cache_key rk) w"
  shows "world_sound (tombstone cfg ev rk w)"
proof -
  let ?mg = "install_negative cfg (ev_insert_commits ev) (cache_key rk) (upstream_id rk) (ev_now ev) (cw_mag w)"
  have "account_ok (mg_state ?mg)"
    using magazine_step_account [of "cw_mag w" "Mg_install_negative (ev_insert_commits ev) (cache_key rk) (upstream_id rk) (ev_now ev)" cfg]
      assms by (simp add: world_sound_def may_bury_def cw_entries_def)
  moreover have "mg_dir ?mg = mg_dir (cw_mag w)" "map_of (cs_entries (mg_state ?mg)) k \<noteq> None \<Longrightarrow> \<not> is_reserved_key k" for k
    using assms by (auto simp: install_negative_def Let_def may_bury_def world_sound_def cw_entries_def split: if_splits)
  ultimately show ?thesis
    using assms(1) by (auto simp: tombstone_def world_sound_def cw_dir_def cw_entries_def cw_staging_def)
qed

lemma make_room_shrinks: "magazine_shrinks mg (snd (make_room cfg free c want mg))"
proof -
  have "magazine_shrinks mg (delete_victims c (fst (reclaim_strays cfg need mg)) (snd (reclaim_strays cfg need mg)))" for need
    unfolding reclaim_strays_def Let_def case_prod_unfold fst_conv snd_conv by (rule stray.deleted_shrinks) simp
  moreover have "(if vs \<noteq> [] then delete_victims c vs m else m) = delete_victims c vs m" for vs m
    by (simp add: delete_victims_def)
  ultimately show ?thesis by (simp add: make_room_def Let_def case_prod_unfold)
qed

definition calm :: "serve_env \<Rightarrow> resolved_key \<Rightarrow> cache_world \<Rightarrow> bool" where
  "calm ev rk w =
     (ev_stat ev (backend_key rk) = Inl NotFound \<or> (\<exists>r. ev_open ev (backend_key rk) r = Inl NotFound)
        \<longrightarrow> may_bury (cache_key rk) w)"

lemma calm_frames [simp]:
  "calm ev rk (w\<lparr>cw_sess := a\<rparr>) = calm ev rk w" "calm ev rk (w\<lparr>cw_flights := b\<rparr>) = calm ev rk w"
  "calm ev rk (w\<lparr>cw_access := c\<rparr>) = calm ev rk w" "calm ev rk (w\<lparr>cw_prot := d\<rparr>) = calm ev rk w"
  "calm ev rk (put_staging st w) = calm ev rk w"
  by (simp_all add: calm_def may_bury_def cw_entries_def put_staging_def)

lemma sound_protect [simp]: "world_sound (protect ev rk p w) = world_sound w"
  by (simp add: protect_def)

lemma sound_bump [simp]: "world_sound (bump_last_access ev key w) = world_sound w" "calm ev' rk (bump_last_access ev key w) = calm ev' rk w"
  by (simp_all add: bump_last_access_def)

lemma may_bury_tombstone: "may_bury (cache_key rk) w \<Longrightarrow> may_bury (cache_key rk) (tombstone cfg ev rk w)"
  by (simp add: may_bury_def tombstone_def install_negative_def Let_def cw_entries_def)

text \<open>A world in which the request for \<open>rk\<close> does no harm.\<close>

definition safe :: "serve_env \<Rightarrow> resolved_key \<Rightarrow> cache_world \<Rightarrow> bool" where
  "safe ev rk w = (world_sound w \<and> calm ev rk w)"

lemma safe_frames [simp]:
  "safe ev rk (w\<lparr>cw_sess := a\<rparr>) = safe ev rk w" "safe ev rk (w\<lparr>cw_flights := b\<rparr>) = safe ev rk w"
  "safe ev rk (protect ev' rk' p w) = safe ev rk w" "safe ev rk (bump_last_access ev' key w) = safe ev rk w"
  by (simp_all add: safe_def protect_def)

lemma safe_tombstone:
  assumes "safe ev rk w" "ev_stat ev (backend_key rk) = Inl NotFound \<or> ev_open ev (backend_key rk) r = Inl NotFound"
  shows "safe ev rk (tombstone cfg ev' rk w)"
  using assms sound_tombstone may_bury_tombstone by (auto simp: safe_def calm_def)

lemma safe_after_stat:
  assumes "safe ev rk w" "\<And>m. ev_stat ev (backend_key rk) = Inr m \<Longrightarrow> safe ev rk (snd (k m))"
  shows "safe ev rk (snd (after_stat cfg ev rk w k))"
  using assms by (auto simp: after_stat_def intro: safe_tombstone split: sum.splits)

lemma safe_after_open:
  assumes "safe ev rk w" "\<And>src. ev_open ev (backend_key rk) r = Inr src \<Longrightarrow> safe ev rk (snd (k src))"
  shows "safe ev rk (snd (after_open cfg ev rk r w k))"
  using assms by (auto simp: after_open_def intro: safe_tombstone split: sum.splits)

lemma safe_remainder:
  assumes "safe ev rk w"
  shows "safe ev rk (snd (serve_remainder cfg ev rk rng m s e plan w))"
  using assms by (auto simp: serve_remainder_def Let_def split: prod.split option.split sum.split intro!: safe_after_open)

lemma safe_planned:
  assumes "safe ev rk w"
  shows "safe ev rk (snd (serve_planned cfg ev rk rng m s e w))"
proof -
  have "safe ev rk (put_staging (add_read key a b (staging_touch key now (cw_staging w))) w)"
    "safe ev rk (put_staging (add_read key a b (cw_staging w)) w)" for key a b now
    using assms by (simp_all add: safe_def)
  then show ?thesis
    using assms
    by (auto simp: serve_planned_def Let_def serve_staged_prefix_and_tail_def split: sum.split
        intro!: safe_remainder safe_after_open)
qed

lemma safe_passthrough:
  assumes "safe ev rk w"
  shows "safe ev rk (snd (serve_passthrough cfg ev rk rng mfs w))"
proof -
  have "safe ev rk (put_staging (reset key (cw_staging w)) w)" for key
    using assms sound_reset by (simp add: safe_def)
  then show ?thesis
    using assms by (auto simp: serve_passthrough_def split: sum.split prod.split intro!: safe_after_stat safe_planned)
qed

lemma sound_starts [simp]: "world_sound (snd (attach_or_start key w)) = world_sound w" "world_sound (snd (forced_fetch w)) = world_sound w"
  by (simp_all add: attach_or_start_def forced_fetch_def case_prod_unfold Let_def)

lemma sound_pull_or_pass:
  assumes "world_sound w" "\<And>v. world_sound (snd (fly v)) = world_sound v"
  shows "world_sound (snd (pull_or_pass cfg ev rk rng fly m w))"
  using sound_magazine [OF assms(1) make_room_shrinks] assms(2)
  by (simp add: pull_or_pass_def Let_def case_prod_unfold)

lemma sound_buried: "safe ev rk w \<Longrightarrow> ev_stat ev (backend_key rk) = Inl NotFound \<Longrightarrow> world_sound (tombstone cfg ev rk w)"
  using safe_tombstone [of ev rk w] unfolding safe_def by blast

lemma sound_cold_miss:
  assumes "safe ev rk w"
  shows "world_sound (snd (cold_miss_path cfg ev rk rng w))"
proof -
  have "world_sound w" using assms by (simp add: safe_def)
  then show ?thesis using sound_buried [OF assms] sound_pull_or_pass [of w "attach_or_start (cache_key rk)"]
    by (auto simp: cold_miss_path_def split: sum.split)
qed

lemma sound_get_resolved:
  assumes "safe ev rk w"
  shows "world_sound (snd (get_resolved_inner cfg ev rk rng w))"
proof -
  have w: "world_sound w" "safe ev rk (bump_last_access ev (cache_key rk) w)" using assms by (simp_all add: safe_def)
  then show ?thesis
    using sound_cold_miss [OF assms] sound_cold_miss [OF w(2)] sound_buried [OF assms] sound_pull_or_pass [OF w(1), of forced_fetch]
    by (auto simp: get_resolved_inner_def Let_def split: sum.split option.split)
qed

lemma sound_serve_cached:
  assumes "safe ev rk w"
  shows "world_sound (snd (serve_cached cfg ev rk rng w))"
  using sound_get_resolved [OF assms, of cfg rng]
  by (auto simp: serve_cached_def finish_get_def Let_def split: prod.split get_step.split sum.split)

lemma sound_serve:
  assumes "safe ev rk w"
  shows "world_sound (snd (snd (serve cfg ev rk rng w)))"
proof -
  have w: "world_sound w" "snd (serve_nocache ev rk rng w) = w"
    using assms by (simp_all add: safe_def serve_nocache_def split: sum.split)
  note p = safe_passthrough [OF assms, of cfg rng "ep_min_file_size (cache_profile cfg (upstream_id rk))"]
  then have "world_sound (snd (serve_passthrough cfg ev rk rng (ep_min_file_size (cache_profile cfg (upstream_id rk))) w))"
    by (simp add: safe_def)
  with w sound_serve_cached [OF assms, of cfg rng] sound_serve_cached [OF p, of cfg rng] show ?thesis
    by (auto simp: serve_def Let_def case_prod_unfold split: option.split sum.split)
qed

lemma sound_head:
  assumes "safe ev rk w"
  shows "world_sound (snd (head_resolved cfg ev rk w))"
proof -
  have "world_sound w" using assms by (simp add: safe_def)
  then show ?thesis using sound_buried [OF assms]
    by (auto simp: head_resolved_def Let_def after_stat_def split: option.split sum.split)
qed

lemma sound_await:
  assumes "world_sound w" "Failed NotFound \<in> set ps \<Longrightarrow> may_bury (cache_key rk) w"
  shows "world_sound (snd (await_flight cfg ev f rk rng ps we w))"
  using assms
proof (induction ps)
  case (Cons q ps)
  then show ?case
    by (cases q) (auto simp: Let_def sound_tombstone split: sum.split option.split)
qed simp

text \<open>A row put over an old one, and the passes behind it.\<close>

lemma sound_put_row:
  assumes "world_sound w" "\<not> is_reserved_key k"
    and "cs_entries (mg_state mg) = hm_put k e (cw_entries w)" "mg_dir mg = cw_dir w"
    and "cs_total_bytes (mg_state mg) = cs_total_bytes (mg_state (cw_mag w))
      - (case map_of (cw_entries w) k of Some m \<Rightarrow> em_size_bytes m | None \<Rightarrow> 0) + em_size_bytes e"
  shows "world_sound (w\<lparr>cw_mag := mg\<rparr>)"
proof -
  have "account_ok (mg_state mg)"
    using account_put [of "mg_state (cw_mag w)" k e] assms by (simp add: world_sound_def account_ok_def entry_bytes_def cw_entries_def)
  then show ?thesis using assms by (auto simp: world_sound_def cw_dir_def cw_entries_def cw_staging_def)
qed

lemma install_parts:
  obtains mg1 vs st2 where "fst (install cfg ic dc p key uid om now ovs mg) = delete_victims dc vs (mg1\<lparr>mg_state := st2\<rparr>)"
    "evict_pick cfg (fst (spared now p)) (mg_state mg1) = (vs, st2)" "mg_dir mg1 = mg_dir mg"
    "cs_entries (mg_state mg1) = hm_put key (new_entry key uid om now ovs (mg_state mg)) (cs_entries (mg_state mg))"
    "cs_total_bytes (mg_state mg1) = cs_total_bytes (mg_state mg)
      - (case map_of (cs_entries (mg_state mg)) key of Some m \<Rightarrow> em_size_bytes m | None \<Rightarrow> 0)
      + em_size_bytes (new_entry key uid om now ovs (mg_state mg))"
proof -
  let ?e = "new_entry key uid om now ovs (mg_state mg)"
  let ?mg1 = "mg\<lparr>mg_meta := meta_insert ic ?e (mg_meta mg), mg_state := (mg_state mg)\<lparr>cs_total_bytes := cs_total_bytes (mg_state mg)
      - (case map_of (cs_entries (mg_state mg)) key of Some m \<Rightarrow> em_size_bytes m | None \<Rightarrow> 0) + em_size_bytes ?e,
      cs_entries := hm_put key ?e (cs_entries (mg_state mg))\<rparr>\<rparr>"
  obtain vs st2 where "evict_pick cfg (fst (spared now p)) (mg_state ?mg1) = (vs, st2)" by fastforce
  then show ?thesis by (intro that [of vs st2 ?mg1]) (cases mg, simp_all add: install_def Let_def case_prod_unfold)
qed

lemma sound_install:
  assumes "world_sound w" "\<not> is_reserved_key key"
  shows "world_sound (w\<lparr>cw_mag := fst (install cfg ic dc p key uid om now ovs (cw_mag w))\<rparr>)"
proof (rule install_parts [of cfg ic dc p key uid om now ovs "cw_mag w"], goal_cases)
  case (1 mg1 vs st2)
  have "world_sound (w\<lparr>cw_mag := mg1\<rparr>)"
    by (rule sound_put_row [OF assms]) (use 1 in \<open>simp_all add: cw_entries_def cw_dir_def\<close>)
  from sound_magazine [OF this, of "delete_victims dc vs (mg1\<lparr>mg_state := st2\<rparr>)"] ev.deleted_shrinks [OF 1(2)]
  show ?case by (simp add: 1(1))
qed

lemma sound_dir:
  assumes "world_sound w" "wf_dir d" "\<And>q. is_segment_name q \<Longrightarrow> map_of d q = map_of (cw_dir w) q"
  shows "world_sound (w\<lparr>cw_mag := (cw_mag w)\<lparr>mg_dir := d\<rparr>\<rparr>)"
proof -
  have "staged_bytes d = staged_bytes (cw_dir w)"
    by (rule staged_bytes_cong) (use assms in \<open>simp_all add: world_sound_def\<close>)
  then show ?thesis using assms(1,2)
    by (simp add: world_sound_def cw_dir_def cw_entries_def cw_staging_def account_exact_def)
qed

lemma wf_dir_pumped:
  "d' = d \<or> d' = remove_file tmp d \<or> (\<exists>f. d' = write_file tmp f d) \<Longrightarrow> wf_dir d \<Longrightarrow> wf_dir d'"
  using wf_dir_remove_file wf_dir_write_file by metis

lemma wf_dir_renamed: "rename_file src dst d = Some d' \<Longrightarrow> wf_dir d \<Longrightarrow> wf_dir d'"
  by (auto simp: rename_file_def intro!: wf_dir_remove_file wf_dir_write_file split: option.splits)

lemma pump_dir:
  assumes "pump_and_seal io mt src tmp final d = (r, pubs, d')" "tmp \<noteq> final" "wf_dir d"
    and "\<not> is_segment_name tmp" "\<not> is_segment_name final"
  shows "wf_dir d' \<and> (\<forall>q. is_segment_name q \<longrightarrow> map_of d' q = map_of d q)"
  using assms(1,2)
proof (cases rule: pump_and_seal_cases)
  case (failed e)
  have "wf_dir d'" by (rule wf_dir_pumped [OF failed(3) assms(3)])
  moreover have "map_of d' q = map_of d q" if "is_segment_name q" for q
    by (rule failed(2)) (use that assms(4) in blast)
  ultimately show ?thesis by blast
next
  case (sealed out published pubs0)
  have "wf_dir d'" by (rule wf_dir_renamed [OF sealed(6) wf_dir_write_file [OF assms(3)]])
  moreover have "map_of d' q = map_of d q" if "is_segment_name q" for q
    using that assms(4,5) by (subst sealed(5)) auto
  ultimately show ?thesis by blast
qed

lemma sound_drive_flight:
  assumes "world_sound w" "\<not> is_reserved_key (cache_key (cu_key cu))"
  shows "world_sound (snd (drive_flight cfg ev io (tmp_path (cache_key (cu_key cu)) r) cu w))"
proof -
  let ?key = "cache_key (cu_key cu)" and ?tmp = "tmp_path (cache_key (cu_key cu)) r"
  obtain ps w' where d: "drive_flight cfg ev io ?tmp cu w = (ps, w')" by fastforce
  have ne: "?tmp \<noteq> ?key" "\<not> is_segment_name ?tmp" "\<not> is_segment_name ?key"
    using spelled_names(1,3) [OF assms(2)] not_segment_name(1) [of ?tmp] by (simp_all add: tmp_path_def starts_with_def)
  have dir: "world_sound (w\<lparr>cw_mag := (cw_mag w)\<lparr>mg_dir := d'\<rparr>\<rparr>)"
    if "pump_and_seal io (Some (ev_now ev)) src ?tmp ?key (cw_dir w) = (x, pubs, d')" for src x pubs d'
    using pump_dir [OF that ne(1) _ ne(2,3)] assms(1) by (intro sound_dir) (simp_all add: world_sound_def)
  from d have "world_sound w'"
  proof (cases rule: drive_flight_cases)
    case (installed src pubs d mg p)
    from sound_install [OF dir [OF installed(2)] assms(2), of cfg "ev_insert_commits ev" "ev_delete_commits ev" "cw_prot w"
        "upstream_id (cu_key cu)" "cu_meta cu" "ev_now ev" "cu_oversize cu"] installed
    show ?thesis by simp
  qed (use assms(1) dir in auto)
  then show ?thesis by (simp add: d)
qed

lemma sound_flush:
  assumes "world_sound w"
  shows "world_sound (flush_access w)"
proof -
  define f where "f = (\<lambda>(k, m). (k, case map_of (rev (fst (access_drain (cw_access w)))) k of
      Some t \<Rightarrow> m\<lparr>em_last_access_millis := t\<rparr> | None \<Rightarrow> (m :: entry_meta)))"
  have f: "fst (f x) = fst x" "em_size_bytes (snd (f x)) = em_size_bytes (snd x)" for x
    by (auto simp: f_def split: prod.split option.split)
  have keys: "map (fst \<circ> f) es = map fst es" for es by (simp add: f)
  have sizes: "(\<Sum>(_, m)\<leftarrow>map f es. em_size_bytes m) = (\<Sum>(_, m)\<leftarrow>es. em_size_bytes m)" for es
    by (simp add: case_prod_unfold f comp_def)
  have none: "map_of (map f es) k \<noteq> None \<longleftrightarrow> map_of es k \<noteq> None" for es k
    by (simp add: map_of_eq_None_iff image_image f del: not_None_eq)
  obtain batch ac where dr: "access_drain (cw_access w) = (batch, ac)" by fastforce
  have "flush_access w = (if batch = [] then w\<lparr>cw_access := ac\<rparr>
      else w\<lparr>cw_access := ac, cw_mag := (cw_mag w)\<lparr>mg_state := (mg_state (cw_mag w))\<lparr>cs_entries := map f (cw_entries w)\<rparr>,
        mg_meta := bump_last_access_batch batch (mg_meta (cw_mag w))\<rparr>\<rparr>)"
    by (simp add: flush_access_def dr f_def cw_entries_def Let_def)
  then show ?thesis
    using assms sizes none
    by (simp add: keys world_sound_def cw_dir_def cw_entries_def cw_staging_def account_ok_def entry_bytes_def hm_wf_def del: not_None_eq)
qed

datatype cache_op =
    Op_serve serve_env resolved_key "byte_range option"
  | Op_head serve_env resolved_key
  | Op_answer serve_env nat resolved_key "byte_range option" "flight_progress list" wait_end
  | Op_pull serve_env pump_io string cold_pull
  | Op_staging "seg_meta \<Rightarrow> stored_file option" staging_op
  | Op_tick serve_env
  | Op_flush
  | Op_release protection

fun cache_step :: "config \<Rightarrow> cache_world \<Rightarrow> cache_op \<Rightarrow> cache_world" where
  "cache_step cfg w (Op_serve ev rk rng) = snd (snd (serve cfg ev rk rng w))"
| "cache_step cfg w (Op_head ev rk) = snd (head_resolved cfg ev rk w)"
| "cache_step cfg w (Op_answer ev f rk rng ps we) = snd (await_flight cfg ev f rk rng ps we w)"
| "cache_step cfg w (Op_pull ev io r cu) = snd (drive_flight cfg ev io (tmp_path (cache_key (cu_key cu)) r) cu w)"
| "cache_step cfg w (Op_staging encode op) = put_staging (staging_step cfg encode (cw_staging w) op) w"
| "cache_step cfg w (Op_tick ev) = cache_tick cfg ev w"
| "cache_step cfg w Op_flush = flush_access w"
| "cache_step cfg w (Op_release p) = w\<lparr>cw_prot := p\<rparr>"

text \<open>
  A step is harmless when a 404 does not bury a row that has bytes, a cold pull is for a name
  that requests may have, and a seal is one that \<^verbatim>\<open>Staging\<close> allows.
\<close>

fun harmless :: "cache_world \<Rightarrow> cache_op \<Rightarrow> bool" where
  "harmless w (Op_serve ev rk rng) = calm ev rk w"
| "harmless w (Op_head ev rk) = calm ev rk w"
| "harmless w (Op_answer ev f rk rng ps we) = (Failed NotFound \<in> set ps \<longrightarrow> may_bury (cache_key rk) w)"
| "harmless w (Op_pull ev io r cu) = (\<not> is_reserved_key (cache_key (cu_key cu)))"
| "harmless w (Op_staging encode op) = sound_step (cw_staging w) op"
| "harmless w _ = True"

fun harmless_run :: "config \<Rightarrow> cache_world \<Rightarrow> cache_op list \<Rightarrow> bool" where
  "harmless_run cfg w [] = True"
| "harmless_run cfg w (op # ops) = (harmless w op \<and> harmless_run cfg (cache_step cfg w op) ops)"

lemma sound_staging_step:
  assumes "world_sound w" "sound_step (cw_staging w) op"
  shows "world_sound (put_staging (staging_step cfg encode (cw_staging w) op) w)"
  using assms staging_step_account [of "cw_staging w" op cfg encode]
  by (simp add: world_sound_def put_staging_def cw_dir_def cw_entries_def cw_staging_def account_exact_def)

lemma sound_step_op:
  assumes "world_sound w" "harmless w op"
  shows "world_sound (cache_step cfg w op)"
  using assms
  by (cases op) (simp_all add: sound_serve sound_head sound_await sound_drive_flight sound_staging_step tick_account sound_flush safe_def)

lemma sound_run: "world_sound w \<Longrightarrow> harmless_run cfg w ops \<Longrightarrow> world_sound (foldl (cache_step cfg) w ops)"
  by (induction ops arbitrary: w) (auto intro: sound_step_op)

subsection \<open>Startup\<close>

definition add_row :: "entry_meta \<Rightarrow> cache_state \<Rightarrow> cache_state" where
  "add_row m st = st\<lparr>cs_total_bytes := cs_total_bytes st + em_size_bytes m, cs_entries := hm_put (em_key m) m (cs_entries st)\<rparr>"

lemma add_row_account:
  assumes "account_ok st" "map_of (cs_entries st) (em_key m) = None"
  shows "account_ok (add_row m st)"
  using account_put [OF assms(1), of "em_key m" m] assms(2) by (simp add: add_row_def)

lemma add_rows:
  assumes "account_ok st" "distinct (map em_key ms)" "\<forall>m\<in>set ms. map_of (cs_entries st) (em_key m) = None"
  shows "account_ok (fold add_row ms st)
    \<and> (\<forall>k v. map_of (cs_entries (fold add_row ms st)) k = Some v \<longleftrightarrow>
          map_of (cs_entries st) k = Some v \<or> v \<in> set ms \<and> em_key v = k)"
  using assms
proof (induction ms arbitrary: st)
  case (Cons m ms)
  have get: "map_of (cs_entries (add_row m st)) k = (if k = em_key m then Some m else map_of (cs_entries st) k)" for k
    by (simp add: add_row_def)
  have "account_ok (add_row m st)" using Cons.prems add_row_account by simp
  moreover have "\<forall>x\<in>set ms. map_of (cs_entries (add_row m st)) (em_key x) = None"
    using Cons.prems by (auto simp: get image_iff)
  ultimately have "account_ok (fold add_row ms (add_row m st))
    \<and> (\<forall>k v. map_of (cs_entries (fold add_row ms (add_row m st))) k = Some v \<longleftrightarrow>
          map_of (cs_entries (add_row m st)) k = Some v \<or> v \<in> set ms \<and> em_key v = k)"
    using Cons.IH Cons.prems(2) by simp
  then show ?case using Cons.prems(2,3) by (auto simp: get split: if_splits)
qed simp

lemma staged_bytes_names:
  assumes "wf_dir d"
  shows "(\<Sum>p\<leftarrow>segment_names d. file_len d p) = staged_bytes d"
proof -
  have "set (segment_names d) = {p. file_exists d p \<and> is_segment_name p}"
    by (auto simp: segment_names_def top_level_mem is_segment_name_def)
  moreover have "distinct (segment_names d)" using top_level_distinct [OF assms] by (simp add: segment_names_def)
  ultimately show ?thesis using assms by (simp add: staged_bytes_sum sum_list_distinct_conv_sum_set)
qed

lemma adopt_all_account:
  assumes "adopt_all decode d now lg = (lg', d')" "wf_dir d" "staged_bytes d \<le> U64_MAX"
  shows "sweeps d d'" "wf_dir d'" "lg_total_staged lg' = staged_bytes d'"
proof -
  obtain fs where scan: "scan_segment_files decode d = (fs, d')"
    and lg: "lg_total_staged lg' = foldl (\<lambda>tot f. sat_add tot (sf_len f)) 0 fs"
    using assms(1) by (auto simp: adopt_all_def split: prod.splits)
  show sw: "sweeps d d'" using sweeps_scan [of d decode] by (simp add: scan)
  show "wf_dir d'" using sweeps_account [OF sw assms(2)] by simp
  show "lg_total_staged lg' = staged_bytes d'"
    using account_sum(2) [of 0 fs] scan_segment_files_exact(2) [OF scan] staged_bytes_names [OF assms(2)] assms(3)
      sweeps_account [OF sw assms(2)] by (simp add: lg)
qed

lemma load_and_start_stages:
  assumes "cw_mag w = \<lparr>mg_state = st0, mg_meta = db, mg_dir = d\<rparr>" "adopt_all decode (snd (cleanup_tmps d)) now (cw_ledger w) = (lg, d2)"
  shows "mg_state (cw_mag (load_and_start cfg decode commits now persisted w)) =
       (let st1 = fold add_row (filter (row_survives d2) (case persisted of Some rs \<Rightarrow> rs | None \<Rightarrow> [])) st0
        in if cs_entries st1 = [] then fold add_row (map (rebuilt_row cfg now) (scan_object_files d2)) st1 else st1)"
    and "cw_dir (load_and_start cfg decode commits now persisted w) = d2"
    and "cw_ledger (load_and_start cfg decode commits now persisted w) = lg"
proof -
  have f: "(\<lambda>m st. st\<lparr>cs_total_bytes := cs_total_bytes st + em_size_bytes m, cs_entries := hm_put (em_key m) m (cs_entries st)\<rparr>) = add_row"
    by (simp add: fun_eq_iff add_row_def)
  show "mg_state (cw_mag (load_and_start cfg decode commits now persisted w)) =
       (let st1 = fold add_row (filter (row_survives d2) (case persisted of Some rs \<Rightarrow> rs | None \<Rightarrow> [])) st0
        in if cs_entries st1 = [] then fold add_row (map (rebuilt_row cfg now) (scan_object_files d2)) st1 else st1)"
    "cw_dir (load_and_start cfg decode commits now persisted w) = d2"
    "cw_ledger (load_and_start cfg decode commits now persisted w) = lg"
    by (simp_all add: load_and_start_def assms cw_dir_def f rebuild_def Let_def)
qed

lemma rebuilt_rows_distinct:
  assumes "wf_dir d" "\<And>p. file_exists d p \<Longrightarrow> CHR 0x5C \<notin> set p"
  shows "distinct (map em_key (map (rebuilt_row cfg now) (scan_object_files d)))"
    and "m \<in> set (map (rebuilt_row cfg now) (scan_object_files d)) \<Longrightarrow> \<not> is_reserved_key (em_key m) \<and> file_exists d (em_key m)"
    and "file_exists d k \<Longrightarrow> \<not> is_reserved_key k \<Longrightarrow> k \<noteq> [] \<Longrightarrow>
      \<exists>m\<in>set (map (rebuilt_row cfg now) (scan_object_files d)). em_key m = k \<and> em_size_bytes m = file_len d k"
proof -
  have id: "replace_char CHR 0x5C ''/'' p = p" if "CHR 0x5C \<notin> set p" for p :: string
    using that by (induction p) (auto simp: replace_char_def)
  define P where "P = (\<lambda>(p, f :: stored_file). \<not> is_reserved_key p \<and> p \<noteq> [])"
  have scan: "scan_object_files d = map (\<lambda>(p, f). (p, length (f_data f))) (filter P d)"
  proof -
    have "replace_char CHR 0x5C ''/'' p = p" if "(p, f) \<in> set d" for p f
      by (rule id, rule assms(2)) (use that in \<open>auto simp: file_exists_iff intro: rev_image_eqI\<close>)
    then show ?thesis unfolding scan_object_files_def P_def by (intro map_cong [OF refl]) auto
  qed
  have keys: "map em_key (map (rebuilt_row cfg now) (scan_object_files d)) = map fst (filter P d)"
    by (simp add: scan rebuilt_row_def case_prod_unfold comp_def)
  show "distinct (map em_key (map (rebuilt_row cfg now) (scan_object_files d)))"
    unfolding keys using assms(1) distinct_map_filter_neq by (auto simp: wf_dir_def distinct_map_filter)
  show "\<not> is_reserved_key (em_key m) \<and> file_exists d (em_key m)"
    if "m \<in> set (map (rebuilt_row cfg now) (scan_object_files d))"
    using that by (auto simp: scan rebuilt_row_def P_def file_exists_iff intro: rev_image_eqI)
  show "\<exists>m\<in>set (map (rebuilt_row cfg now) (scan_object_files d)). em_key m = k \<and> em_size_bytes m = file_len d k"
    if h: "file_exists d k" "\<not> is_reserved_key k" "k \<noteq> []"
  proof -
    obtain f where f: "map_of d k = Some f" using h(1) by (auto simp: file_exists_def)
    then have "(k, f) \<in> set (filter P d)" using h by (auto simp: P_def dest: map_of_SomeD)
    then show ?thesis by (force simp: scan rebuilt_row_def file_len_def f)
  qed
qed

lemma startup_spec:
  assumes w': "w' = load_and_start cfg decode commits now persisted (cache_new cfg db d)"
    and "wf_dir d" "staged_bytes d \<le> U64_MAX" "\<And>p. file_exists d p \<Longrightarrow> CHR 0x5C \<notin> set p"
    and "\<And>rs. persisted = Some rs \<Longrightarrow> distinct (map em_key rs)"
  shows "world_sound w'
    \<and> (\<forall>k m. map_of (cw_entries w') k = Some m \<longrightarrow> em_key m = k \<and> file_exists (cw_dir w') (file_path k))
    \<and> (\<forall>k. \<not> is_reserved_key k \<longrightarrow> map_of (cw_dir w') k = map_of d k)
    \<and> (\<forall>rs m. persisted = Some rs \<longrightarrow> m \<in> set rs \<longrightarrow> row_survives d m \<longrightarrow> map_of (cw_entries w') (em_key m) = Some m)
    \<and> (cw_entries w' = [] \<longrightarrow> (\<forall>k. file_exists d k \<longrightarrow> k \<noteq> [] \<longrightarrow> is_reserved_key k))"
proof -
  define rows where "rows = (case persisted of Some rs \<Rightarrow> rs | None \<Rightarrow> [])"
  let ?st0 = "\<lparr>cs_entries = [], cs_total_bytes = 0, cs_segment_sweep_at_millis = 0\<rparr>"
  obtain lg d2 where ad: "adopt_all decode (snd (cleanup_tmps d)) now (cw_ledger (cache_new cfg db d)) = (lg, d2)" by fastforce
  have mag: "cw_mag (cache_new cfg db d) = \<lparr>mg_state = ?st0, mg_meta = db, mg_dir = d\<rparr>" by (simp add: cache_new_def)
  note L = load_and_start_stages [OF mag ad, of cfg commits persisted, folded w' rows_def]
  note c = sweeps_account [OF sweeps_cleanup_tmps [of d] assms(2)]
  have "staged_bytes (snd (cleanup_tmps d)) \<le> U64_MAX" using c assms(3) by simp
  note A = adopt_all_account [OF ad conjunct1 [OF c] this]
  have sw: "sweeps d d2" using sweeps_trans [OF sweeps_cleanup_tmps A(1)] .
  have same: "map_of d2 k = map_of d k" if "\<not> is_reserved_key k" for k
    by (rule sweeps_keeps(2) [OF sw spelled_names(4) [OF that]])
  have "CHR 0x5C \<notin> set p" if "file_exists d2 p" for p by (rule assms(4) [OF sweeps_keeps(3) [OF sw that]])
  note B = rebuilt_rows_distinct [OF A(2) this, where cfg = cfg and now = now]
  have surv: "row_survives d2 m = row_survives d m" for m
    using same by (auto simp: row_survives_def file_exists_def file_path_def)
  let ?ms = "filter (row_survives d2) rows" and ?rb = "map (rebuilt_row cfg now) (scan_object_files d2)"
  define st1 where "st1 = fold add_row ?ms ?st0"
  define st2 where "st2 = (if cs_entries st1 = [] then fold add_row ?rb st1 else st1)"
  have ok0: "account_ok ?st0" by (simp add: account_ok_def entry_bytes_def)
  have "distinct (map em_key rows)" using assms(5) by (auto simp: rows_def split: option.split)
  then have "distinct (map em_key ?ms)" by (simp add: distinct_map_filter)
  then have R1: "account_ok st1" "map_of (cs_entries st1) k = Some v \<longleftrightarrow> v \<in> set ?ms \<and> em_key v = k" for k v
    using add_rows [OF ok0] by (simp_all add: st1_def)
  have R2: "account_ok st2" "map_of (cs_entries st2) k = Some v \<longleftrightarrow>
      (if cs_entries st1 = [] then v \<in> set ?rb \<and> em_key v = k else v \<in> set ?ms \<and> em_key v = k)" for k v
  proof -
    have "account_ok st2 \<and> (\<forall>k v. map_of (cs_entries st2) k = Some v \<longleftrightarrow>
      (if cs_entries st1 = [] then v \<in> set ?rb \<and> em_key v = k else v \<in> set ?ms \<and> em_key v = k))"
    proof (cases "cs_entries st1 = []")
      case True
      then have "\<forall>m\<in>set ?rb. map_of (cs_entries st1) (em_key m) = None" by simp
      from add_rows [OF R1(1) B(1) this] True show ?thesis by (simp add: st2_def)
    qed (use R1 in \<open>simp add: st2_def\<close>)
    then show "account_ok st2" "map_of (cs_entries st2) k = Some v \<longleftrightarrow>
      (if cs_entries st1 = [] then v \<in> set ?rb \<and> em_key v = k else v \<in> set ?ms \<and> em_key v = k)" for k v
      by blast+
  qed
  have st: "mg_state (cw_mag w') = st2" using L(1) by (simp add: st2_def st1_def Let_def)
  have row: "em_key m = k \<and> \<not> is_reserved_key k \<and> file_exists d2 k" if "map_of (cw_entries w') k = Some m" for k m
    using that R2(2) [of k m] B(2) [of m]
    by (auto simp: cw_entries_def st row_survives_def file_path_def split: if_splits)
  have "world_sound w'"
    using L(2,3) A R2(1) row by (auto simp: world_sound_def st account_exact_def cw_staging_def)
  moreover have "map_of (cw_entries w') (em_key m) = Some m" if "persisted = Some rs" "m \<in> set rs" "row_survives d m" for rs m
  proof -
    have "m \<in> set ?ms" using that surv by (simp add: rows_def)
    moreover from this have "cs_entries st1 \<noteq> []" using R1(2) [of "em_key m" m] by force
    ultimately show ?thesis using R2(2) [of "em_key m" m] by (simp add: cw_entries_def st)
  qed
  moreover have "is_reserved_key k" if h: "cw_entries w' = []" "file_exists d k" "k \<noteq> []" for k
  proof (rule ccontr)
    assume "\<not> is_reserved_key k"
    moreover from this have "file_exists d2 k" using h(2) same by (simp add: file_exists_def)
    ultimately obtain m where "m \<in> set ?rb" "em_key m = k" using B(3) h(3) by blast
    moreover have "cs_entries st1 = []" using h(1) by (auto simp: cw_entries_def st st2_def split: if_splits)
    ultimately show False using R2(2) [of k m] h(1) by (simp add: cw_entries_def st)
  qed
  ultimately show ?thesis using row same L(2) by (auto simp: file_path_def)
qed

subsection \<open>Rows in use at a tick\<close>

lemma pressure_spares_residents:
  assumes "account_ok (mg_state mg)" "map_of (cs_entries (mg_state mg)) k = Some m" "\<not> em_oversize m"
  shows "map_of (cs_entries (mg_state (reclaim_under_pressure cfg free c mg))) k = Some m"
proof -
  have wf: "hm_wf (cs_entries (mg_state mg))" using assms(1) by (simp add: account_ok_def)
  have "map_of (cs_entries (snd (pick_strays_for_pressure cfg need (mg_state mg)))) k = Some m" for need
    by (rule stray.spared_stays [OF wf prod.collapse [symmetric] assms(2,3)])
  then show ?thesis
    using assms(2) by (simp add: reclaim_under_pressure_def reclaim_strays_def Let_def case_prod_unfold)
qed

lemma tick_row_stays:
  assumes "world_sound w" "wf_protection (cw_prot w)" "in_use (cw_prot w) k (ev_now ev)"
    and "map_of (cw_entries w) k = Some m" "em_negative_until_millis m = None" "\<not> em_oversize m"
  shows "map_of (cw_entries (cache_tick cfg ev w)) k = Some m"
proof (rule cache_tick_stages [of cfg w ev], goal_cases)
  case (1 st1 swept d1 d3 mg1 p1 p2 mg3 p3)
  let ?mg0 = "(cw_mag w)\<lparr>mg_dir := d3\<rparr>"
  have p1: "wf_protection p1" "in_use p1 k (ev_now ev)"
    using 1(4) assms(2,3) prot.sp_wf [OF assms(2)] prot.sp_use [OF assms(2)] by auto
  have "p2 = snd (spared (ev_now ev) p1)" using 1(5) by (auto simp: reap_def Let_def split: prod.splits)
  then have p2: "wf_protection p2" "in_use p2 k (ev_now ev)"
    using prot.sp_wf [OF p1(1)] prot.sp_use [OF p1(1)] p1(2) by auto
  have a0: "account_ok (mg_state ?mg0)" using assms(1) by (simp add: world_sound_def)
  obtain t where t: "evict_budget cfg (ev_delete_commits ev) (ev_now ev) p2
      (mg1\<lparr>mg_state := (mg_state mg1)\<lparr>cs_segment_sweep_at_millis := t\<rparr>\<rparr>) = (mg3, p3)" using 1(6) by blast
  let ?mg2 = "mg1\<lparr>mg_state := (mg_state mg1)\<lparr>cs_segment_sweep_at_millis := t\<rparr>\<rparr>"
  have a1: "account_ok (mg_state mg1)" using reap_dir_state [OF 1(5)] a0 by (simp add: magazine_shrinks_def)
  then have a2: "account_ok (mg_state ?mg2)" by (simp add: account_ok_def entry_bytes_def)
  have a3: "account_ok (mg_state mg3)" using evict_budget_dir_state [OF t] a2 by (simp add: magazine_shrinks_def)
  have m0: "map_of (cs_entries (mg_state ?mg0)) k = Some m" using assms(4) by (simp add: cw_entries_def)
  have "mg1 = fst (reap (ev_delete_commits ev) (inactive_ttl_secs cfg * 1000) (ev_now ev) p1 ?mg0)" using 1(5) by simp
  from passes_spare_in_use [OF a0 p1 m0 assms(5) disjI2 [OF this]]
  have m2: "map_of (cs_entries (mg_state ?mg2)) k = Some m" by simp
  have "mg3 = fst (evict_budget cfg (ev_delete_commits ev) (ev_now ev) p2 ?mg2)" using t by simp
  from passes_spare_in_use [OF a2 p2 m2 assms(5) disjI1 [OF this]]
  have "map_of (cs_entries (mg_state mg3)) k = Some m" by blast
  then show ?case using pressure_spares_residents [OF a3 _ assms(6)] by (simp add: 1(7) cw_entries_def)
qed

subsection \<open>Where the code does not do what it means to\<close>

text \<open>
  The watcher beside the last answer renames a short part to the name of the whole range. The
  ledger, which looks for the name of the bytes written, claims nothing, and the next read of
  the range is planned over a file that is too short.
\<close>

lemma watcher_seals_short:
  assumes f: "map_of (st_dir st) (sk_segpart sk) = Some f" "length (f_data f) = sz" "0 < sz"
    and lt: "sk_start sk + sz < e" "e < 2 ^ 64" and "sk_etag sk = None"
    and seg: "seg = seg_path (sk_key sk) (sk_start sk) e" "\<not> file_exists (st_dir st) seg" "sk_segpart sk \<noteq> seg"
    and new: "\<not> file_exists (st_dir st) (seg_path (sk_key sk) (sk_start sk) (sk_start sk + sz))"
    and st': "st' = disconnect_watcher cfg encode now sk e sz st"
  shows "(sk_start sk, e, seg) \<in> set (segments_for_key (st_dir st') (sk_key sk)) \<and> st_ledger st' = st_ledger st
    \<and> snd (staged_body (st_dir st') [(seg, 0, e - sk_start sk)])"
proof -
  let ?d = "write_file seg f (remove_file (sk_segpart sk) (st_dir st))"
  have ne: "seg_path (sk_key sk) (sk_start sk) (sk_start sk + sz) \<noteq> seg"
  proof
    assume "seg_path (sk_key sk) (sk_start sk) (sk_start sk + sz) = seg"
    from seg_path_inj [OF this [unfolded seg(1)]] lt show False by auto
  qed
  then have "\<not> file_exists ?d (seg_path (sk_key sk) (sk_start sk) (sk_start sk + sz))" using new by simp
  then have eq: "st_ledger st' = st_ledger st"
    "st_dir st' = (case encode \<lparr>sm_etag = sk_etag sk, sm_total = sk_total sk\<rparr> of
                      Some g \<Rightarrow> write_file (segmeta_path (sk_key sk)) g ?d | None \<Rightarrow> ?d)"
    using f(1,3) seg(2) assms(6) new ne
    by (simp_all add: st' disconnect_watcher_def seg(1) [symmetric] seal_renamed_def rename_file_def seal_span_def
        ledger_seal_def Let_def split: option.split)
  have held: "map_of (st_dir st') seg = Some f"
    using seg_neq_segmeta [of "sk_key sk" "sk_start sk" e] by (auto simp: eq(2) seg(1) split: option.split)
  have "seg \<in> set (key_segment_files (st_dir st') (sk_key sk))"
    using key_segment_files_seg_path held lt by (auto simp: seg(1) file_exists_def)
  then have "(sk_start sk, e, seg) \<in> set (segments_for_key (st_dir st') (sk_key sk))"
    using parse_seg_path [of "sk_start sk" e "sk_key sk"] lt by (simp add: segments_for_key_mem seg(1))
  moreover have "snd (staged_body (st_dir st') [(seg, 0, e - sk_start sk)])"
    using pieces_then_error [of "st_dir st'" "[(seg, 0, e - sk_start sk)]" "([], False)"] held f(2) lt(1)
    by (simp add: staged_body_def)
  ultimately show ?thesis using eq(1) by blast
qed

text \<open>A revalidation that confirms the etag leaves the row as it was, so every later request stats again.\<close>

lemma revalidated_still_due:
  assumes "get_resolved_inner cfg ev rk rng w = (Answer (Inr h), w')" "ch_outcome h = Revalidated"
  shows "\<exists>m. map_of (cw_entries w') (cache_key rk) = Some m \<and> revalidate_due m (ev_now ev) (revalidate_ttl_secs cfg)"
proof -
  have out: "ch_outcome g = oc" if "serve_from_disk ev key oc rng v = Inr (Some g)" for g oc key v
    using that by (auto simp: serve_from_disk_def res_bind_Inr split: option.splits if_splits)
  have miss: "ch_outcome g = Miss" if "pull_or_pass cfg ev rk rng fly m v = (Answer (Inr g), v')" for g fly m v v'
    using that by (auto simp: pull_or_pass_def Let_def res_bind_Inr into_cache_hit_def split: prod.splits if_splits)
  have cold: "ch_outcome g = Miss" if "cold_miss_path cfg ev rk rng v = (Answer (Inr g), v')" for g v v'
    using that miss by (auto simp: cold_miss_path_def split: sum.splits if_splits)
  have "cw_entries (bump_last_access ev (cache_key rk) w) = cw_entries w" by (simp add: bump_last_access_def cw_entries_def)
  then show ?thesis
    using assms
    by (auto simp: get_resolved_inner_def Let_def split: sum.splits option.splits if_splits prod.splits dest!: out miss cold)
qed

text \<open>The pending count is the size of the shard touched last.\<close>

lemma pending_counts_one_shard:
  assumes "sh k mod ACCESS_SHARDS \<noteq> sh k' mod ACCESS_SHARDS"
  shows "ac_pending (access_touch sh k' t' (access_touch sh k t access_new)) = 1"
  using assms by (simp add: access_touch_def access_new_def Let_def ACCESS_SHARDS_def hm_put_def hm_del_def)

text \<open>A persisted tombstone has no file, so startup drops it.\<close>

lemma tombstone_lost_at_startup:
  "cw_entries (load_and_start cfg decode commits now (Some [m]) (cache_new cfg db [])) = []"
  by (simp add: load_and_start_def cache_new_def cw_entries_def cw_dir_def row_survives_def file_exists_def cleanup_tmps_def
      top_level_files_def adopt_all_def scan_segment_files_def scan_object_files_def Let_def)

text \<open>
  A flight's row takes its size from the stat, its file from the stream. When the provider
  promises no length nothing compares the two, and a stream that ends early is installed whole.
\<close>

lemma size_unmeasured:
  assumes "drive_flight cfg ev io (tmp_path (cache_key (cu_key cu)) r) cu w = (ps, w')" "last ps = Done"
    and "\<not> is_reserved_key (cache_key (cu_key cu))" "account_ok (mg_state (cw_mag w))"
    and "ev_open ev (backend_key (cu_key cu)) None = Inr src" "ss_promised_len src = None"
    and "map_of (cw_entries w') (cache_key (cu_key cu)) = Some row"
  shows "em_size_bytes row = om_size_bytes (cu_meta cu)
    \<and> file_len (cw_dir w') (cache_key (cu_key cu)) = length (stream_bytes (ss_stream src))"
  using cold_pull_spec [OF assms(1,3,4)] assms(2,5-7)
  by (auto simp: new_entry_def file_len_def file_path_def)

subsection \<open>Properties\<close>

lemma demo_start_facts:
  "wf_dir demo_dir" "staged_bytes demo_dir \<le> U64_MAX" "file_exists demo_dir p \<Longrightarrow> CHR 0x5C \<notin> set p"
proof -
  have seg: "is_segment_name (seg_path ''k'' 0 4)" using parse_seg_path [of 0 4 "''k''"] by (simp add: is_segment_name_def)
  show "wf_dir demo_dir" by (simp add: demo_dir_def wf_dir_def)
  show "staged_bytes demo_dir \<le> U64_MAX" by (simp add: demo_dir_def staged_bytes_def seg U64_MAX_def)
  show "CHR 0x5C \<notin> set p" if "file_exists demo_dir p"
    using that show_nat_no_char [of "CHR 0x5C"]
    by (auto simp: demo_dir_def file_exists_def seg_path_def esc_char_def split: if_splits)
qed

text \<open>
  C11: a cold pull ends with exactly one terminal announcement. If that is Done, the provider's
  bytes, and all of the length it promised, are the object's file and its row is the one of the
  stat, unless the eviction behind the installation took both away; otherwise no row, no guard and
  no file but the temporary one has changed. The byte account is kept either way.
\<close>

theorem cold_pull_installs:
  assumes "drive_flight cfg ev io (tmp_path (cache_key (cu_key cu)) r) cu w = (ps, w')"
    and "\<not> is_reserved_key (cache_key (cu_key cu))" and "account_ok (mg_state (cw_mag w))"
  shows "account_ok (mg_state (cw_mag w')) \<and> terminal (last ps) \<and> (\<forall>q\<in>set (butlast ps). \<not> terminal q)
    \<and> (if last ps = Done
       then \<exists>src bytes. ev_open ev (backend_key (cu_key cu)) None = Inr src
          \<and> (case ss_promised_len src of
               Some n \<Rightarrow> length bytes = n \<and> bytes = take n (stream_bytes (ss_stream src))
             | None \<Rightarrow> bytes = stream_bytes (ss_stream src) \<and> \<not> stream_fails (ss_stream src))
          \<and> (case map_of (cw_entries w') (cache_key (cu_key cu)) of
               Some row \<Rightarrow> row = new_entry (cache_key (cu_key cu)) (upstream_id (cu_key cu)) (cu_meta cu) (ev_now ev) (cu_oversize cu) (mg_state (cw_mag w))
                 \<and> map_of (cw_dir w') (file_path (cache_key (cu_key cu))) = Some \<lparr>f_data = bytes, f_mtime = Some (ev_now ev)\<rparr>
             | None \<Rightarrow> map_of (cw_dir w') (file_path (cache_key (cu_key cu))) = None)
       else cw_entries w' = cw_entries w \<and> cw_prot w' = cw_prot w
          \<and> (\<forall>q. q \<noteq> tmp_path (cache_key (cu_key cu)) r \<longrightarrow> map_of (cw_dir w') q = map_of (cw_dir w) q))"
  by (rule cold_pull_spec [OF assms])

definition demo_pull :: cold_pull where
  "demo_pull = \<lparr>cu_flight = 0, cu_key = demo_key,
     cu_meta = \<lparr>om_size_bytes = 6, om_etag = None, om_last_modified = None, om_mime_hint = None\<rparr>, cu_oversize = False\<rparr>"

definition demo_io :: pump_io where
  "demo_io = \<lparr>io_create = True, io_write = \<lambda>_. True, io_flush = True, io_sync = True\<rparr>"

theorem cold_pull_installs_witness:
  "\<exists>ps v bytes. drive_flight config_default (demo_env\<lparr>ev_free := \<lambda>_. None\<rparr>) demo_io (tmp_path ''k'' ''r'') demo_pull demo_world = (ps, v)
     \<and> last ps = Done \<and> length bytes = 6
     \<and> map_of (cw_dir v) ''k'' \<in> {None, Some \<lparr>f_data = bytes, f_mtime = Some 0\<rparr>}"
proof -
  let ?ev = "demo_env\<lparr>ev_free := \<lambda>_. None\<rparr>"
  have k: "cache_key (cu_key demo_pull) = ''k''" "backend_key (cu_key demo_pull) = ''k''" "file_path ''k'' = ''k''"
    by (simp_all add: demo_pull_def demo_key_def file_path_def)
  obtain ps v where run: "drive_flight config_default ?ev demo_io (tmp_path (cache_key (cu_key demo_pull)) ''r'') demo_pull demo_world = (ps, v)"
    by fastforce
  have key: "\<not> is_reserved_key (cache_key (cu_key demo_pull))"
    by (simp add: k is_reserved_key_def starts_with_def META_STORE_FILE_def is_meta_store_name_def)
  have acc: "account_ok (mg_state (cw_mag demo_world))"
    by (simp add: demo_world_def cache_new_def account_ok_def entry_bytes_def)
  note I = cold_pull_installs [OF run key acc]
  have src: "ev_open ?ev (backend_key (cu_key demo_pull)) None
      = Inr \<lparr>ss_stream = [Chunk (map demo_obj [0..<6])], ss_promised_len = Some 6\<rparr>"
    by (simp add: demo_env_def resolve_byte_range_def)
  have "fst (pump_and_seal demo_io (Some 0) \<lparr>ss_stream = [Chunk (map demo_obj [0..<6])], ss_promised_len = Some 6\<rparr>
      (tmp_path ''k'' ''r'') ''k'' (cw_dir demo_world)) = Inr ()"
    by (rule pump_succeeds [of _ _ _ 6])
       (simp_all add: demo_io_def is_meta_store_path_def is_meta_store_name_def starts_with_def META_STORE_FILE_def)
  then have "last ps = Done"
    using run src by (auto simp: drive_flight_def k has_room_for_def demo_env_def Let_def split: prod.splits sum.splits if_splits)
  then have "map_of (cw_dir v) ''k'' \<in> {None, Some \<lparr>f_data = map demo_obj [0..<6], f_mtime = Some 0\<rparr>}"
    using I src by (auto simp: k demo_env_def split: option.splits)
  moreover have "length (map demo_obj [0..<6]) = 6" by simp
  ultimately show ?thesis using run \<open>last ps = Done\<close> unfolding k by blast
qed







end
