(* ===== verification/Response.thy ===== *)
theory Response
  imports Cache Sigv4
begin

unbundle bit_operations_syntax

text \<open>
  What goes out, \<^verbatim>\<open>src/response.rs\<close>: the request ids, quoted ETags, the S3 error envelope and the
  response of every error.

  A header value must be acceptable to the \<^verbatim>\<open>http\<close> crate; a builder that was given one that is not
  makes \<^verbatim>\<open>unwrap\<close> panic. The crate's test is the argument \<open>ok\<close>, and a response is \<open>None\<close> when its
  construction panics. Percent encoding of control bytes is the \<^verbatim>\<open>percent_encoding\<close> crate's, the
  argument \<open>enc\<close>. A JSON body is the list of its fields.
\<close>

subsection \<open>Responses\<close>

datatype resp_body =
    No_body
  | Xml_body string
  | Json_body "(string \<times> string) list"
  | Stream_body body_plan

record response =
  rs_status :: nat
  rs_headers :: "(string \<times> string) list"
  rs_body :: resp_body

definition new_response :: "nat \<Rightarrow> response option" where
  "new_response status = Some \<lparr>rs_status = status, rs_headers = [], rs_body = No_body\<rparr>"

text \<open>\<^verbatim>\<open>Builder::header\<close> appends; \<^verbatim>\<open>HeaderMap::insert\<close> replaces.\<close>

definition with_header :: "(string \<Rightarrow> bool) \<Rightarrow> string \<Rightarrow> string \<Rightarrow> response option \<Rightarrow> response option" where
  "with_header ok name v r =
     (case r of
        Some x \<Rightarrow> if ok v then Some (x\<lparr>rs_headers := rs_headers x @ [(name, v)]\<rparr>) else None
      | None \<Rightarrow> None)"

definition with_header_opt :: "(string \<Rightarrow> bool) \<Rightarrow> string \<Rightarrow> string option \<Rightarrow> response option \<Rightarrow> response option" where
  "with_header_opt ok name v r = (case v of Some x \<Rightarrow> with_header ok name x r | None \<Rightarrow> r)"

definition with_body :: "resp_body \<Rightarrow> response option \<Rightarrow> response option" where
  "with_body b r = map_option (\<lambda>x. x\<lparr>rs_body := b\<rparr>) r"

definition insert_header :: "string \<Rightarrow> string \<Rightarrow> response \<Rightarrow> response" where
  "insert_header name v x = x\<lparr>rs_headers := filter (\<lambda>(n, _). n \<noteq> name) (rs_headers x) @ [(name, v)]\<rparr>"

text \<open>\<^verbatim>\<open>insert(name, v.parse().unwrap())\<close>\<close>

definition insert_parsed :: "(string \<Rightarrow> bool) \<Rightarrow> string \<Rightarrow> string \<Rightarrow> response option \<Rightarrow> response option" where
  "insert_parsed ok name v r = (if ok v then map_option (insert_header name v) r else None)"

definition header_of :: "response \<Rightarrow> string \<Rightarrow> string option" where
  "header_of x name = map_of (rs_headers x) name"

subsection \<open>Request ids\<close>

definition B64 :: string where
  "B64 = ''ABCDEFGHIJKLMNOPQRSTUVWXYZabcdefghijklmnopqrstuvwxyz0123456789/+:''"

fun hex_upper :: "nat \<Rightarrow> nat \<Rightarrow> string" where
  "hex_upper 0 n = []"
| "hex_upper (Suc k) n = hex_upper k (n div 16) @ [upper_hex (n mod 16)]"

fun stir :: "nat \<Rightarrow> 128 word \<Rightarrow> string" where
  "stir 0 x = []"
| "stir (Suc k) x =
     (let x1 = x XOR push_bit 13 x; x2 = x1 XOR drop_bit 7 x1; x3 = x2 XOR push_bit 17 x2
      in B64 ! unat (x3 AND 63) # stir k x3)"

text \<open>\<open>n\<close> is the next sequence number and \<open>t\<close> the clock in nanoseconds.\<close>

definition request_ids :: "u64 \<Rightarrow> 128 word \<Rightarrow> string \<times> string" where
  "request_ids n t =
     (let x = of_nat n * 0x9E3779B97F4A7C15 + t
      in (hex_upper 16 (unat (x AND of_nat U64_MAX)), stir 76 x))"

subsection \<open>Shapes\<close>

definition DQ :: char where
  "DQ = CHR 0x22"

definition quote_etag :: "string \<Rightarrow> string" where
  "quote_etag etag =
     (let t = trim etag; bare = (case strip_prefix ''W/'' t of Some b \<Rightarrow> b | None \<Rightarrow> t)
      in if length bare \<ge> 2 \<and> starts_with bare [DQ] \<and> ends_with bare [DQ] then bare else [DQ] @ bare @ [DQ])"

definition xml_tag :: "string \<Rightarrow> string \<Rightarrow> string" where
  "xml_tag name content = ''<'' @ name @ ''>'' @ content @ ''</'' @ name @ ''>''"

definition XML_DECL :: string where
  "XML_DECL = ''<?xml version='' @ [DQ] @ ''1.0'' @ [DQ] @ '' encoding='' @ [DQ] @ ''UTF-8'' @ [DQ] @ ''?>'' @ [CHR 0x0A]"

definition s3_error_xml_ex ::
  "string \<Rightarrow> string \<Rightarrow> string \<Rightarrow> string \<Rightarrow> string \<Rightarrow> (string \<times> string) list \<Rightarrow> string" where
  "s3_error_xml_ex code message resource req_id host_id extra =
     XML_DECL @ xml_tag ''Error''
       (xml_tag ''Code'' code @ xml_tag ''Message'' message
        @ concat (map (\<lambda>(k, v). xml_tag k v) extra)
        @ xml_tag ''Resource'' resource @ xml_tag ''RequestId'' req_id @ xml_tag ''HostId'' host_id)"

definition s3_error_xml :: "string \<Rightarrow> string \<Rightarrow> string \<Rightarrow> string \<Rightarrow> string \<Rightarrow> string" where
  "s3_error_xml code message resource req_id host_id = s3_error_xml_ex code message resource req_id host_id []"

definition resource_path :: "(string \<Rightarrow> string) \<Rightarrow> string \<Rightarrow> string" where
  "resource_path enc key =
     ''/'' @ replace_char CHR ''>'' ''&gt;'' (replace_char CHR ''<'' ''&lt;'' (replace_char CHR ''&'' ''&amp;'' (enc key)))"

definition s3_meta_headers :: "(string \<Rightarrow> bool) \<Rightarrow> hit_meta \<Rightarrow> string \<Rightarrow> string \<Rightarrow> response option \<Rightarrow> response option" where
  "s3_meta_headers ok meta req_id host_id b =
     (let b1 = with_header ok ''cache-control'' ''public, max-age=31536000, immutable''
                 (with_header ok ''x-amz-id-2'' host_id
                 (with_header ok ''x-amz-request-id'' req_id
                 (with_header ok ''accept-ranges'' ''bytes'' b)));
          b2 = with_header ok ''content-type'' (case ht_content_type meta of Some ct \<Rightarrow> ct | None \<Rightarrow> ''binary/octet-stream'') b1;
          b3 = with_header_opt ok ''etag'' (map_option quote_etag (ht_etag meta)) b2
      in with_header_opt ok ''last-modified'' (ht_last_modified meta) b3)"

definition envelope :: "(string \<Rightarrow> bool) \<Rightarrow> nat \<Rightarrow> resp_body \<Rightarrow> string \<Rightarrow> string \<Rightarrow> response option" where
  "envelope ok status body req_id host_id =
     insert_parsed ok ''content-type'' ''application/xml''
       (with_body body (with_header ok ''x-amz-id-2'' host_id (with_header ok ''x-amz-request-id'' req_id (new_response status))))"

definition xml_unless_head :: "bool \<Rightarrow> string \<Rightarrow> resp_body" where
  "xml_unless_head head_only xml = (if head_only then No_body else Xml_body xml)"

definition invalid_key_response ::
  "(string \<Rightarrow> bool) \<Rightarrow> (string \<Rightarrow> string) \<Rightarrow> string \<Rightarrow> string \<Rightarrow> string \<Rightarrow> bool \<Rightarrow> response option" where
  "invalid_key_response ok enc key req_id host_id head_only =
     envelope ok 400 (xml_unless_head head_only
       (s3_error_xml ''InvalidRequest'' ''The request key is invalid.'' (resource_path enc key) req_id host_id)) req_id host_id"

definition json_response :: "nat \<Rightarrow> (string \<times> string) list \<Rightarrow> response" where
  "json_response status fs =
     \<lparr>rs_status = status, rs_headers = [(''content-type'', ''application/json'')], rs_body = Json_body fs\<rparr>"

definition error_response ::
  "(string \<Rightarrow> bool) \<Rightarrow> (string \<Rightarrow> string) \<Rightarrow> backend_error \<Rightarrow> string \<Rightarrow> string \<Rightarrow> string \<Rightarrow> bool \<Rightarrow> u64 option \<Rightarrow> response option" where
  "error_response ok enc e key req_id host_id head_only size_hint =
     (let xml = (\<lambda>code message. xml_unless_head head_only
                   (s3_error_xml code message (resource_path enc key) req_id host_id))
      in case e of
           NotFound \<Rightarrow> envelope ok 404 (xml ''NoSuchKey'' ''The specified key does not exist.'') req_id host_id
         | RangeNotSatisfiable \<Rightarrow>
             (let r = envelope ok 416 (xml ''InvalidRange'' ''The requested range is not satisfiable.'') req_id host_id
              in case size_hint of Some n \<Rightarrow> insert_parsed ok ''content-range'' (unsatisfiable n) r | None \<Rightarrow> r)
         | RateLimited after_ms \<Rightarrow>
             (let r = json_response 503 [(''error'', ''upstream rate limited'')]
              in Some (case after_ms of
                   Some ms \<Rightarrow> if ok (show_nat (ms div 1000)) then insert_header ''retry-after'' (show_nat (ms div 1000)) r else r
                 | None \<Rightarrow> r))
         | _ \<Rightarrow> Some (json_response 502 [(''error'', ''upstream error'')]))"

end
