(* ===== verification/Listing.thy ===== *)
theory Listing
  imports Response Content_Auth
begin

unbundle bit_operations_syntax

text \<open>
  The S3 listing, \<^verbatim>\<open>src/list.rs\<close>: query parsing, the snapshot cache, the item sequence of a
  page, continuation tokens and the XML.

  Parsing of form-encoded queries, URL-safe base64 and RFC 2822 dates belong to crates and are
  the fields of \<open>list_lib\<close>; HMAC is \<open>crypto\<close>'s. The key of the tokens is drawn at boot and is an
  argument. A key, a prefix and a token are compared as byte strings, as Rust compares \<^verbatim>\<open>str\<close>.
\<close>

record list_lib =
  ll_form_parse :: "string \<Rightarrow> (string \<times> string) list"
  ll_b64_encode :: "byte list \<Rightarrow> string"
  ll_b64_decode :: "string \<Rightarrow> byte list option"
  ll_iso8601 :: "string \<Rightarrow> string option"

record list_entry =
  le_key :: string
  le_size :: u64
  le_etag :: "string option"
  le_last_modified :: "string option"
  le_is_dir :: bool

definition MAX_KEYS_CAP :: nat where
  "MAX_KEYS_CAP = 1000"

subsection \<open>Tokens\<close>

definition from_bytes :: "byte list \<Rightarrow> string" where
  "from_bytes bs = map (\<lambda>b. char_of (unat b)) bs"

definition sign_token :: "crypto \<Rightarrow> list_lib \<Rightarrow> byte list \<Rightarrow> string \<Rightarrow> string" where
  "sign_token cr lib key payload =
     ll_b64_encode lib (as_bytes payload @ take 10 (hmac_fn cr key (as_bytes payload)))"

definition open_token :: "crypto \<Rightarrow> list_lib \<Rightarrow> byte list \<Rightarrow> string \<Rightarrow> string option" where
  "open_token cr lib key token =
     (case ll_b64_decode lib token of
        None \<Rightarrow> None
      | Some bytes \<Rightarrow>
          if length bytes < 10 then None
          else (let payload = take (length bytes - 10) bytes; sig = drop (length bytes - 10) bytes;
                    diff = foldl (\<lambda>d (a, b). d OR (a XOR b)) 0 (zip (hmac_fn cr key payload) sig)
                in if diff \<noteq> 0 then None
                   else if utf8_valid (from_bytes payload) then Some (from_bytes payload) else None))"

subsection \<open>Parameters\<close>

record list_params =
  lp_is_list :: bool
  lp_is_v2 :: bool
  lp_prefix :: string
  lp_delimiter :: "string option"
  lp_max_keys_raw :: "string option"
  lp_continuation_token :: "string option"
  lp_start_after :: "string option"
  lp_marker :: "string option"
  lp_encoding_url :: bool
  lp_fetch_owner :: bool

definition query_get :: "(string \<times> string) list \<Rightarrow> string \<Rightarrow> string option" where
  "query_get pairs key = map_option snd (find (\<lambda>(k, _). k = key) pairs)"

definition LIST_PARAMS :: "string list" where
  "LIST_PARAMS = [''list-type'', ''prefix'', ''delimiter'', ''max-keys'', ''continuation-token'', ''start-after'',
     ''marker'', ''encoding-type'']"

definition has_list_param :: "(string \<times> string) list \<Rightarrow> bool" where
  "has_list_param pairs = list_ex (\<lambda>(k, _). k \<in> set LIST_PARAMS) pairs"

datatype list_param_error = EncodingType | MaxKeysNotInteger | MaxKeysNegative | ContinuationToken

text \<open>\<^verbatim>\<open>i64::from_str\<close>: one optional sign, at least one digit, in range.\<close>

definition parse_i64 :: "string \<Rightarrow> int option" where
  "parse_i64 s =
     (let neg = starts_with s ''-''; t = (if neg \<or> starts_with s ''+'' then tl s else s)
      in if t = [] then None
         else case parse_digits 0 t of
                None \<Rightarrow> None
              | Some n \<Rightarrow> if neg then (if n \<le> 2 ^ 63 then Some (- int n) else None)
                          else (if n < 2 ^ 63 then Some (int n) else None))"

definition nonempty :: "string option \<Rightarrow> string option" where
  "nonempty x = (case x of Some s \<Rightarrow> if s = [] then None else Some s | None \<Rightarrow> None)"

definition list_params_parse :: "list_lib \<Rightarrow> string \<Rightarrow> list_param_error + list_params" where
  "list_params_parse lib query =
     (let pairs = ll_form_parse lib query;
          enc = query_get pairs ''encoding-type'';
          raw = nonempty (query_get pairs ''max-keys'')
      in guard_that (enc = None \<or> enc = Some ''url'') EncodingType (
         res_bind (case raw of
             None \<Rightarrow> Inr ()
           | Some r \<Rightarrow>
               (case parse_i64 r of
                  None \<Rightarrow> Inl MaxKeysNotInteger
                | Some n \<Rightarrow> if n < 0 then Inl MaxKeysNegative
                            else if n > 2147483647 then Inl MaxKeysNotInteger else Inr ())) (\<lambda>_.
         Inr \<lparr>lp_is_list = has_list_param pairs,
              lp_is_v2 = (query_get pairs ''list-type'' = Some ''2''),
              lp_prefix = (case query_get pairs ''prefix'' of Some p \<Rightarrow> p | None \<Rightarrow> []),
              lp_delimiter = nonempty (query_get pairs ''delimiter''),
              lp_max_keys_raw = raw,
              lp_continuation_token = query_get pairs ''continuation-token'',
              lp_start_after = query_get pairs ''start-after'',
              lp_marker = query_get pairs ''marker'',
              lp_encoding_url = (enc = Some ''url''),
              lp_fetch_owner = (query_get pairs ''fetch-owner'' = Some ''true'')\<rparr>)))"

definition list_cap :: "list_params \<Rightarrow> nat" where
  "list_cap params =
     min (case Option.bind (lp_max_keys_raw params) parse_u64 of Some n \<Rightarrow> n | None \<Rightarrow> MAX_KEYS_CAP) MAX_KEYS_CAP"

subsection \<open>The snapshot of a walk\<close>

definition LISTING_SNAPSHOT_TTL_MS :: millis where
  "LISTING_SNAPSHOT_TTL_MS = 5000"

type_synonym listing_cache = "((string \<times> string \<times> bool) \<times> (millis \<times> list_entry list)) list"

definition snapshot_fresh :: "millis \<Rightarrow> millis \<Rightarrow> bool" where
  "snapshot_fresh now at = (now - at < LISTING_SNAPSHOT_TTL_MS)"

definition listing_get :: "string \<Rightarrow> string \<Rightarrow> bool \<Rightarrow> millis \<Rightarrow> listing_cache \<Rightarrow> list_entry list option" where
  "listing_get up folder recursive now rows =
     (case map_of rows (up, folder, recursive) of
        Some (at, v) \<Rightarrow> if snapshot_fresh now at then Some v else None
      | None \<Rightarrow> None)"

definition listing_put :: "string \<Rightarrow> string \<Rightarrow> bool \<Rightarrow> list_entry list \<Rightarrow> millis \<Rightarrow> listing_cache \<Rightarrow> listing_cache" where
  "listing_put up folder recursive entries now rows =
     hm_put (up, folder, recursive) (now, entries) (filter (\<lambda>(_, at, _). snapshot_fresh now at) rows)"

subsection \<open>The items of a listing\<close>

definition trim_matches :: "char \<Rightarrow> string \<Rightarrow> string" where
  "trim_matches c s = rev (dropWhile (\<lambda>x. x = c) (rev (dropWhile (\<lambda>x. x = c) s)))"

text \<open>The default upstream of an empty table is an index out of bounds: the outer \<open>None\<close>.\<close>

definition resolve_list_bucket :: "config \<Rightarrow> string \<Rightarrow> string option option" where
  "resolve_list_bucket cfg path_key =
     (let path = trim_matches CHR ''/'' path_key
      in if path = [] then map_option Some (route_resolve (routes cfg) [])
         else let first = hd (split_on CHR ''/'' path)
              in Some (if list_ex (\<lambda>u. u_id u = first) (upstreams cfg) then Some first else None))"

record page_items =
  pi_contents :: "list_entry list"
  pi_common_prefixes :: "string list"

definition select_items :: "list_entry list \<Rightarrow> list_params \<Rightarrow> page_items" where
  "select_items entries params =
     (let hits = filter (\<lambda>e. starts_with (le_key e) (lp_prefix params)) entries;
          contents = sort_key le_key (filter (\<lambda>e. \<not> le_is_dir e) hits);
          dirs = map le_key (filter le_is_dir hits);
          cps = (if lp_delimiter params \<noteq> None then remdups_adj (sort dirs) else [])
      in if lp_is_v2 params \<and> lp_continuation_token params = None then
           (case lp_start_after params of
              Some after \<Rightarrow> \<lparr>pi_contents = filter (\<lambda>e. le_key e > after) contents,
                             pi_common_prefixes = filter (\<lambda>p. p > after) cps\<rparr>
            | None \<Rightarrow> \<lparr>pi_contents = contents, pi_common_prefixes = cps\<rparr>)
         else \<lparr>pi_contents = contents, pi_common_prefixes = cps\<rparr>)"

datatype resume = Start | AfterContent string | AfterPrefix string

definition resume_from :: "crypto \<Rightarrow> list_lib \<Rightarrow> byte list \<Rightarrow> list_params \<Rightarrow> (unit + resume) option" where
  "resume_from cr lib key params =
     (if lp_is_v2 params then
        map_option (\<lambda>token.
          (case Option.bind (open_token cr lib key token) (split_once CHR ''|'') of
             Some (kind, name) \<Rightarrow>
               if kind = ''c'' then Inr (AfterContent name)
               else if kind = ''p'' then Inr (AfterPrefix name) else Inl ()
           | None \<Rightarrow> Inl ())) (lp_continuation_token params)
      else map_option (\<lambda>marker.
          Inr (if ends_with marker ''/'' \<and> lp_delimiter params \<noteq> None then AfterPrefix marker else AfterContent marker))
          (lp_marker params))"

text \<open>The slice of one page: \<open>render_page\<close> without the rendering.\<close>

record page =
  pg_contents :: "list_entry list"
  pg_prefixes :: "string list"
  pg_truncated :: bool

definition first_of :: "nat \<Rightarrow> list_entry list \<Rightarrow> string list \<Rightarrow> page" where
  "first_of cap files cps =
     (let c = take cap files; p = take (cap - length c) cps
      in \<lparr>pg_contents = c, pg_prefixes = p, pg_truncated = (length files + length cps > length c + length p)\<rparr>)"

definition page_slice :: "nat \<Rightarrow> page_items \<Rightarrow> resume \<Rightarrow> page" where
  "page_slice cap items r =
     (if cap = 0 then \<lparr>pg_contents = [], pg_prefixes = [], pg_truncated = False\<rparr>
      else case r of
             Start \<Rightarrow> first_of cap (pi_contents items) (pi_common_prefixes items)
           | AfterContent k \<Rightarrow> first_of cap (filter (\<lambda>e. le_key e > k) (pi_contents items)) (pi_common_prefixes items)
           | AfterPrefix q \<Rightarrow>
               (let cps = filter (\<lambda>p. p > q) (pi_common_prefixes items)
                in \<lparr>pg_contents = [], pg_prefixes = take cap cps, pg_truncated = (length cps > cap)\<rparr>))"

definition next_payload :: "page \<Rightarrow> string" where
  "next_payload pg =
     (if pg_prefixes pg \<noteq> [] then ''p|'' @ last (pg_prefixes pg)
      else if pg_contents pg \<noteq> [] then ''c|'' @ le_key (last (pg_contents pg)) else ''c|'')"

definition next_token_of :: "crypto \<Rightarrow> list_lib \<Rightarrow> byte list \<Rightarrow> page \<Rightarrow> string option" where
  "next_token_of cr lib key pg = (if pg_truncated pg then Some (sign_token cr lib key (next_payload pg)) else None)"

subsection \<open>Rendering\<close>

definition xml_escape :: "string \<Rightarrow> string" where
  "xml_escape s =
     concat (map (\<lambda>c. if c = CHR ''&'' then ''&amp;'' else if c = CHR ''<'' then ''&lt;''
                      else if c = CHR ''>'' then ''&gt;'' else if c = CHR 0x22 then ''&quot;''
                      else if c = CHR 0x27 then ''&apos;'' else [c]) s)"

definition url_literal :: "char \<Rightarrow> bool" where
  "url_literal c =
     (let n = of_char c :: nat
      in 65 \<le> n \<and> n \<le> 90 \<or> 97 \<le> n \<and> n \<le> 122 \<or> 48 \<le> n \<and> n \<le> 57
         \<or> c = CHR ''-'' \<or> c = CHR ''_'' \<or> c = CHR ''.'' \<or> c = CHR ''/'')"

definition aws_url_encode :: "string \<Rightarrow> string" where
  "aws_url_encode s =
     concat (map (\<lambda>c. if url_literal c then [c] else if c = CHR '' '' then ''+''
                      else [CHR ''%'', upper_hex (of_char c div 16), upper_hex (of_char c mod 16)]) s)"

definition enc_maybe :: "list_params \<Rightarrow> string \<Rightarrow> string" where
  "enc_maybe params s = (if lp_encoding_url params then aws_url_encode s else xml_escape s)"

definition tag_opt :: "string \<Rightarrow> string option \<Rightarrow> string" where
  "tag_opt name v = (case v of Some x \<Rightarrow> xml_tag name x | None \<Rightarrow> [])"

definition max_keys_echo :: "list_params \<Rightarrow> string" where
  "max_keys_echo params = xml_tag ''MaxKeys'' (xml_escape (case lp_max_keys_raw params of Some r \<Rightarrow> r | None \<Rightarrow> ''1000''))"

definition next_marker :: "page \<Rightarrow> string" where
  "next_marker pg =
     (if pg_prefixes pg \<noteq> [] then last (pg_prefixes pg)
      else if pg_contents pg \<noteq> [] then le_key (last (pg_contents pg)) else [])"

definition dialect_xml :: "list_params \<Rightarrow> page \<Rightarrow> string option \<Rightarrow> string" where
  "dialect_xml params pg next_token =
     (let delimiter = tag_opt ''Delimiter'' (map_option (enc_maybe params) (lp_delimiter params));
          encoding = (if lp_encoding_url params then xml_tag ''EncodingType'' ''url'' else [])
      in if lp_is_v2 params then
           tag_opt ''StartAfter'' (map_option (enc_maybe params) (lp_start_after params))
           @ tag_opt ''ContinuationToken'' (map_option xml_escape (lp_continuation_token params))
           @ tag_opt ''NextContinuationToken'' (map_option xml_escape next_token)
           @ xml_tag ''KeyCount'' (show_nat (length (pg_contents pg) + length (pg_prefixes pg)))
           @ max_keys_echo params @ delimiter @ encoding
         else
           max_keys_echo params
           @ tag_opt ''Marker'' (map_option (enc_maybe params) (lp_marker params))
           @ (if pg_truncated pg \<and> lp_delimiter params \<noteq> None then xml_tag ''NextMarker'' (enc_maybe params (next_marker pg)) else [])
           @ delimiter @ encoding)"

definition entry_xml :: "list_lib \<Rightarrow> list_params \<Rightarrow> list_entry \<Rightarrow> string" where
  "entry_xml lib params c =
     xml_tag ''Contents''
       (xml_tag ''Key'' (enc_maybe params (le_key c))
        @ tag_opt ''LastModified'' (Option.bind (le_last_modified c) (ll_iso8601 lib))
        @ tag_opt ''ETag'' (map_option (\<lambda>e. xml_escape (quote_etag e)) (le_etag c))
        @ xml_tag ''Size'' (show_nat (le_size c))
        @ (if lp_fetch_owner params
           then xml_tag ''Owner'' (xml_tag ''ID'' ''origin-cache'' @ xml_tag ''DisplayName'' ''origin-cache'') else [])
        @ xml_tag ''StorageClass'' ''STANDARD'')"

definition render_xml :: "list_lib \<Rightarrow> string \<Rightarrow> list_params \<Rightarrow> page \<Rightarrow> string option \<Rightarrow> string" where
  "render_xml lib bucket params pg next_token =
     XML_DECL
     @ ''<ListBucketResult xmlns='' @ [DQ] @ ''http://s3.amazonaws.com/doc/2006-03-01/'' @ [DQ] @ ''>''
     @ xml_tag ''Name'' (xml_escape bucket)
     @ xml_tag ''Prefix'' (enc_maybe params (lp_prefix params))
     @ dialect_xml params pg next_token
     @ xml_tag ''IsTruncated'' (if pg_truncated pg then ''true'' else ''false'')
     @ concat (map (entry_xml lib params) (pg_contents pg))
     @ concat (map (\<lambda>p. xml_tag ''CommonPrefixes'' (xml_tag ''Prefix'' (enc_maybe params p))) (pg_prefixes pg))
     @ ''</ListBucketResult>''"

definition render_page ::
  "(string \<Rightarrow> bool) \<Rightarrow> crypto \<Rightarrow> list_lib \<Rightarrow> byte list \<Rightarrow> string \<Rightarrow> list_params \<Rightarrow> page_items \<Rightarrow> resume \<Rightarrow> string \<Rightarrow> string
     \<Rightarrow> response option" where
  "render_page ok cr lib key bucket params items r req_id host_id =
     (let pg = page_slice (list_cap params) items r
      in with_body (Xml_body (render_xml lib bucket params pg (next_token_of cr lib key pg)))
           (with_header ok ''x-amz-id-2'' host_id
           (with_header ok ''x-amz-request-id'' req_id
           (with_header ok ''cache-control'' ''private, max-age=5''
           (with_header ok ''content-type'' ''application/xml'' (new_response 200))))))"

subsection \<open>Errors\<close>

definition list_error_status :: "string \<Rightarrow> nat" where
  "list_error_status code =
     (if code = ''NoSuchBucket'' then 404 else if code = ''AccessDenied'' then 403
      else if code = ''InternalError'' then 500 else 400)"

definition list_error ::
  "(string \<Rightarrow> bool) \<Rightarrow> string \<Rightarrow> string \<Rightarrow> string \<Rightarrow> string \<Rightarrow> string \<Rightarrow> (string \<times> string) list \<Rightarrow> response option" where
  "list_error ok code message path_key req_id host_id extra =
     with_body (Xml_body (s3_error_xml_ex code message (''/'' @ trim_matches CHR ''/'' path_key @ ''/'') req_id host_id extra))
       (with_header ok ''x-amz-id-2'' host_id
       (with_header ok ''x-amz-request-id'' req_id
       (with_header ok ''content-type'' ''application/xml'' (new_response (list_error_status code)))))"

definition code_and_message :: "list_param_error \<Rightarrow> string \<times> string \<times> string" where
  "code_and_message e =
     (case e of
        EncodingType \<Rightarrow> (''InvalidArgument'', ''Invalid Encoding Method specified in Request'', ''encoding-type'')
      | MaxKeysNotInteger \<Rightarrow>
          (''InvalidArgument'', ''Provided max-keys not an integer or within integer range'', ''max-keys'')
      | MaxKeysNegative \<Rightarrow>
          (''InvalidArgument'', ''Argument maxKeys must be an integer between 0 and 2147483647'', ''max-keys'')
      | ContinuationToken \<Rightarrow>
          (''InvalidArgument'', ''The continuation token provided is incorrect'', ''continuation-token''))"

definition invalid_argument :: "(string \<Rightarrow> bool) \<Rightarrow> list_param_error \<Rightarrow> string \<Rightarrow> string \<Rightarrow> string \<Rightarrow> response option" where
  "invalid_argument ok e path_key req_id host_id =
     (let (code, message, arg) = code_and_message e
      in list_error ok code message path_key req_id host_id [(''ArgumentName'', arg)])"

definition no_such_bucket :: "(string \<Rightarrow> bool) \<Rightarrow> string \<Rightarrow> string \<Rightarrow> string \<Rightarrow> response option" where
  "no_such_bucket ok path_key req_id host_id =
     list_error ok ''NoSuchBucket'' ''The specified bucket does not exist'' path_key req_id host_id
       [(''BucketName'', xml_escape (hd (split_on CHR ''/'' (trim_matches CHR ''/'' path_key))))]"

subsection \<open>The endpoint\<close>

text \<open>
  \<open>walk\<close> is the provider's listing of a folder. The result is \<open>None\<close> when the request is no
  listing; the response in it is \<open>None\<close> when the handler panics.
\<close>

definition folder_of :: "string \<Rightarrow> string" where
  "folder_of prefix = (case rsplit_once CHR ''/'' prefix of Some (a, _) \<Rightarrow> a @ ''/'' | None \<Rightarrow> [])"

definition entries_of ::
  "(string \<Rightarrow> string \<Rightarrow> bool \<Rightarrow> backend_error + list_entry list) \<Rightarrow> string \<Rightarrow> list_params \<Rightarrow> millis \<Rightarrow> listing_cache
     \<Rightarrow> (backend_error + list_entry list) \<times> listing_cache" where
  "entries_of walk up params now rows =
     (let folder = folder_of (lp_prefix params); recursive = (lp_delimiter params = None)
      in case listing_get up folder recursive now rows of
           Some e \<Rightarrow> (Inr e, rows)
         | None \<Rightarrow>
             (case walk up folder recursive of
                Inr e \<Rightarrow> (Inr e, listing_put up folder recursive e now rows)
              | Inl er \<Rightarrow> (if er = NotFound then Inr [] else Inl er, rows)))"

definition try_list ::
  "(string \<Rightarrow> bool) \<Rightarrow> crypto \<Rightarrow> list_lib \<Rightarrow> byte list \<Rightarrow> config \<Rightarrow> serve_env
     \<Rightarrow> (string \<Rightarrow> string \<Rightarrow> bool \<Rightarrow> backend_error + list_entry list)
     \<Rightarrow> string \<Rightarrow> string option \<Rightarrow> string \<Rightarrow> string \<Rightarrow> listing_cache \<Rightarrow> response option option \<times> listing_cache" where
  "try_list ok cr lib key cfg ev walk path_key query req_id host_id rows =
     (case list_params_parse lib (case query of Some q \<Rightarrow> q | None \<Rightarrow> []) of
        Inl e \<Rightarrow> (Some (invalid_argument ok e path_key req_id host_id), rows)
      | Inr params \<Rightarrow>
          if \<not> lp_is_list params then (None, rows)
          else case resolve_list_bucket cfg path_key of
                 None \<Rightarrow> (Some None, rows)
               | Some None \<Rightarrow> (Some (no_such_bucket ok path_key req_id host_id), rows)
               | Some (Some up) \<Rightarrow>
                   if up \<notin> set (ev_backends ev) then (Some (no_such_bucket ok path_key req_id host_id), rows)
                   else case entries_of walk up params (ev_now ev) rows of
                     (Inl e, rows') \<Rightarrow>
                       (Some (if e = AuthRequired
                              then list_error ok ''AccessDenied'' ''Access Denied'' path_key req_id host_id []
                              else list_error ok ''InternalError'' ''We encountered an internal error. Please try again.''
                                     path_key req_id host_id []), rows')
                   | (Inr entries, rows') \<Rightarrow>
                       (Some (case resume_from cr lib key params of
                            Some (Inl _) \<Rightarrow> invalid_argument ok ContinuationToken path_key req_id host_id
                          | Some (Inr r) \<Rightarrow> render_page ok cr lib key up params (select_items entries params) r req_id host_id
                          | None \<Rightarrow> render_page ok cr lib key up params (select_items entries params) Start req_id host_id),
                        rows'))"

subsection \<open>Bytes and tokens\<close>

lemma from_as_bytes [simp]: "from_bytes (as_bytes s) = s"
proof -
  have "char_of (unat (word_of_nat (of_char c) :: byte)) = c" for c
    using of_char_mod_256 [of c, where ?'a = nat] by (simp add: unat_of_nat)
  then show ?thesis by (simp add: from_bytes_def as_bytes_def comp_def)
qed

lemma length_as_bytes [simp]: "length (as_bytes s) = length s"
  by (simp add: as_bytes_def)

lemma diff_of_prefix: "foldl (\<lambda>d (a, b). d OR (a XOR b)) 0 (zip xs (take n xs)) = (0 :: byte)"
  by (induction xs arbitrary: n) (auto simp: take_Cons split: nat.split)

lemma utf8_kind: "utf8_valid (CHR ''c'' # CHR ''|'' # s) = utf8_valid s" "utf8_valid (CHR ''p'' # CHR ''|'' # s) = utf8_valid s"
  by (simp_all add: utf8_valid_def)

text \<open>The base64 crate's contract and the digest's length.\<close>

definition token_libs :: "crypto \<Rightarrow> list_lib \<Rightarrow> bool" where
  "token_libs cr lib =
     ((\<forall>bs. ll_b64_decode lib (ll_b64_encode lib bs) = Some bs) \<and> (\<forall>k m. length (hmac_fn cr k m) = 32))"

lemma token_roundtrip:
  assumes "token_libs cr lib" "utf8_valid p"
  shows "open_token cr lib key (sign_token cr lib key p) = Some p"
  using assms by (simp add: open_token_def sign_token_def token_libs_def diff_of_prefix Let_def)

lemma last_take_split:
  assumes "0 < n" "xs \<noteq> []"
  obtains a where "take n xs = a @ [last (take n xs)]" "xs = a @ last (take n xs) # drop n xs"
proof
  have ne: "take n xs \<noteq> []" using assms by (cases n; cases xs) auto
  then show "take n xs = butlast (take n xs) @ [last (take n xs)]" by simp
  have "xs = take n xs @ drop n xs" by simp
  also have "take n xs = butlast (take n xs) @ [last (take n xs)]" using ne by simp
  finally show "xs = butlast (take n xs) @ last (take n xs) # drop n xs" by simp
qed

lemma filter_above:
  fixes f :: "'a \<Rightarrow> 'b :: linorder"
  assumes "sorted_wrt (\<lambda>x y. f x < f y) (a @ x # b)"
  shows "filter (\<lambda>y. f y > f x) (a @ x # b) = b"
  using assms by (auto simp: sorted_wrt_append filter_empty_conv filter_id_conv) 

subsection \<open>Walking the pages\<close>

definition next_resume :: "page \<Rightarrow> resume" where
  "next_resume pg =
     (if pg_prefixes pg \<noteq> [] then AfterPrefix (last (pg_prefixes pg))
      else if pg_contents pg \<noteq> [] then AfterContent (le_key (last (pg_contents pg))) else AfterContent [])"

fun page_walk :: "nat \<Rightarrow> nat \<Rightarrow> page_items \<Rightarrow> resume \<Rightarrow> page list" where
  "page_walk 0 cap items r = []"
| "page_walk (Suc n) cap items r =
     (let pg = page_slice cap items r in pg # (if pg_truncated pg then page_walk n cap items (next_resume pg) else []))"

text \<open>What is left to list when a request resumes at \<open>r\<close>.\<close>

fun left_files :: "page_items \<Rightarrow> resume \<Rightarrow> list_entry list" where
  "left_files items Start = pi_contents items"
| "left_files items (AfterContent k) = filter (\<lambda>e. le_key e > k) (pi_contents items)"
| "left_files items (AfterPrefix q) = []"

fun left_prefixes :: "page_items \<Rightarrow> resume \<Rightarrow> string list" where
  "left_prefixes items (AfterPrefix q) = filter (\<lambda>p. p > q) (pi_common_prefixes items)"
| "left_prefixes items _ = pi_common_prefixes items"

lemma page_slice_left: "0 < cap \<Longrightarrow> page_slice cap items r = first_of cap (left_files items r) (left_prefixes items r)"
  by (cases r) (auto simp: page_slice_def first_of_def Let_def)

definition strict_items :: "page_items \<Rightarrow> bool" where
  "strict_items items =
     (sorted_wrt (\<lambda>x y. le_key x < le_key y) (pi_contents items) \<and> sorted_wrt (<) (pi_common_prefixes items))"

lemma left_is_suffix:
  assumes "strict_items items"
  shows "\<exists>a. pi_contents items = a @ left_files items r" "\<exists>b. pi_common_prefixes items = b @ left_prefixes items r"
proof -
  have suf: "\<exists>a. xs = a @ filter (\<lambda>y. f y > k) xs" if "sorted_wrt (\<lambda>x y. f x < f y) xs" for xs :: "'c list" and f :: "'c \<Rightarrow> string" and k
    using that
  proof (induction xs)
    case (Cons x xs)
    then show ?case
    proof (cases "f x > k")
      case True
      then have "filter (\<lambda>y. f y > k) xs = xs" using Cons.prems by (auto simp: filter_id_conv)
      then show ?thesis using True by simp
    next
      case False
      obtain a where "xs = a @ filter (\<lambda>y. f y > k) xs" using Cons by auto
      then show ?thesis using False by (intro exI [of _ "x # a"]) simp
    qed
  qed simp
  show "\<exists>a. pi_contents items = a @ left_files items r" "\<exists>b. pi_common_prefixes items = b @ left_prefixes items r"
    using assms suf [of le_key] suf [of "\<lambda>x. x"] by (cases r; auto simp: strict_items_def)+
qed

text \<open>Prefixes wait for the last file.\<close>

lemma prefixes_wait: "left_files items r \<noteq> [] \<Longrightarrow> left_prefixes items r = pi_common_prefixes items"
  by (cases r) simp_all

lemma next_left:
  assumes "strict_items items" "0 < cap" "pg = page_slice cap items r" "pg_truncated pg"
  shows "left_files items (next_resume pg) = drop cap (left_files items r)"
    and "left_prefixes items (next_resume pg) = drop (cap - length (left_files items r)) (left_prefixes items r)"
proof -
  let ?fs = "left_files items r" and ?ps = "left_prefixes items r"
  have pg: "pg = first_of cap ?fs ?ps" using assms(2,3) page_slice_left by simp
  have sizes: "cap < length ?fs + length ?ps" using assms(2,4) by (auto simp: pg first_of_def Let_def split: if_splits)
  obtain a b where a: "pi_contents items = a @ ?fs" and b: "pi_common_prefixes items = b @ ?ps"
    using left_is_suffix [OF assms(1)] by metis
  have "left_files items (next_resume pg) = drop cap ?fs
    \<and> left_prefixes items (next_resume pg) = drop (cap - length ?fs) ?ps"
  proof (cases "length ?fs < cap")
    case True
    then have p: "0 < cap - length ?fs" "?ps \<noteq> []" using sizes by auto
    then have ne: "take (cap - length ?fs) ?ps \<noteq> []" by simp
    obtain c where c: "?ps = c @ last (take (cap - length ?fs) ?ps) # drop (cap - length ?fs) ?ps"
      using last_take_split [OF p] by metis
    have "sorted_wrt (<) ((b @ c) @ last (take (cap - length ?fs) ?ps) # drop (cap - length ?fs) ?ps)"
      using assms(1) b c by (simp add: strict_items_def)
    from filter_above [of "\<lambda>x. x", OF this]
    have "filter (\<lambda>p. p > last (take (cap - length ?fs) ?ps)) (pi_common_prefixes items) = drop (cap - length ?fs) ?ps"
      using b c by simp
    then show ?thesis using True ne p by (auto simp: pg first_of_def next_resume_def Let_def)
  next
    case False
    then have f: "?fs \<noteq> []" using assms(2) by auto
    then have ps: "?ps = pi_common_prefixes items" by (rule prefixes_wait)
    obtain c where c: "?fs = c @ last (take cap ?fs) # drop cap ?fs"
      using last_take_split [OF assms(2) f] by metis
    have "sorted_wrt (\<lambda>x y. le_key x < le_key y) ((a @ c) @ last (take cap ?fs) # drop cap ?fs)"
      using assms(1) a c by (simp add: strict_items_def)
    from filter_above [of le_key, OF this]
    have "filter (\<lambda>e. le_key e > le_key (last (take cap ?fs))) (pi_contents items) = drop cap ?fs"
      using a c by simp
    moreover have "cap - length (take cap ?fs) = 0" "take cap ?fs \<noteq> []" using False f assms(2) by auto
    ultimately show ?thesis using False ps by (simp add: pg first_of_def next_resume_def Let_def)
  qed
  then show "left_files items (next_resume pg) = drop cap ?fs"
    "left_prefixes items (next_resume pg) = drop (cap - length ?fs) ?ps" by auto
qed

lemma page_walk_spec:
  assumes "strict_items items" "0 < cap"
  shows "length (left_files items r) + length (left_prefixes items r) < n \<Longrightarrow>
    concat (map pg_contents (page_walk n cap items r)) = left_files items r
    \<and> concat (map pg_prefixes (page_walk n cap items r)) = left_prefixes items r
    \<and> page_walk n cap items r \<noteq> []
    \<and> \<not> pg_truncated (last (page_walk n cap items r))
    \<and> (\<forall>pg\<in>set (page_walk n cap items r). length (pg_contents pg) + length (pg_prefixes pg) \<le> cap)
    \<and> (\<forall>pg\<in>set (butlast (page_walk n cap items r)). length (pg_contents pg) + length (pg_prefixes pg) = cap)"
proof (induction n arbitrary: r)
  case (Suc n)
  let ?fs = "left_files items r" and ?ps = "left_prefixes items r"
  define pg where "pg = page_slice cap items r"
  have eq: "pg = first_of cap ?fs ?ps" using assms(2) page_slice_left by (simp add: pg_def)
  show ?case
  proof (cases "pg_truncated pg")
    case False
    then have "length ?fs + length ?ps \<le> cap" using assms(2)
      by (auto simp: eq first_of_def Let_def split: if_splits)
    then show ?thesis using False by (simp add: pg_def [symmetric]) (simp add: eq first_of_def Let_def)
  next
    case True
    note nx = next_left [OF assms pg_def True]
    have len: "cap < length ?fs + length ?ps" using True assms(2) by (auto simp: eq first_of_def Let_def split: if_splits)
    have "length (left_files items (next_resume pg)) + length (left_prefixes items (next_resume pg)) < n"
      using nx len Suc.prems assms(2) by auto
    note IH = Suc.IH [OF this]
    have full: "length (pg_contents pg) + length (pg_prefixes pg) = cap"
      using len by (auto simp: eq first_of_def Let_def)
    have split: "pg_contents pg @ left_files items (next_resume pg) = ?fs" "pg_prefixes pg @ left_prefixes items (next_resume pg) = ?ps"
      unfolding nx by (simp_all add: eq first_of_def Let_def min_def)
    show ?thesis using IH True full split by (auto simp: pg_def [symmetric] Let_def)
  qed
qed simp


subsection \<open>The client\<close>

text \<open>
  A client that pages: with V2 it sends the token of the last page back, with V1 the next marker,
  which without a delimiter it takes from the last key, as the protocol says.
\<close>

definition next_params :: "crypto \<Rightarrow> list_lib \<Rightarrow> byte list \<Rightarrow> list_params \<Rightarrow> page \<Rightarrow> list_params option" where
  "next_params cr lib key params pg =
     (if lp_is_v2 params
      then map_option (\<lambda>t. params\<lparr>lp_continuation_token := Some t\<rparr>) (next_token_of cr lib key pg)
      else if pg_truncated pg then Some (params\<lparr>lp_marker := Some (next_marker pg)\<rparr>) else None)"

text \<open>The pages a client gets for the same entries, at most \<open>n\<close>; \<open>None\<close> stands for a refusal.\<close>

fun client_pages :: "crypto \<Rightarrow> list_lib \<Rightarrow> byte list \<Rightarrow> list_entry list \<Rightarrow> nat \<Rightarrow> list_params \<Rightarrow> page option list" where
  "client_pages cr lib key entries 0 params = []"
| "client_pages cr lib key entries (Suc n) params =
     (case resume_from cr lib key params of
        Some (Inl _) \<Rightarrow> [None]
      | x \<Rightarrow> let pg = page_slice (list_cap params) (select_items entries params) (case x of Some (Inr r) \<Rightarrow> r | _ \<Rightarrow> Start)
             in Some pg # (case next_params cr lib key params pg of
                  Some params' \<Rightarrow> client_pages cr lib key entries n params' | None \<Rightarrow> []))"

text \<open>Entries as a backend returns them (\<^verbatim>\<open>ListEntry\<close>): valid strings, a slash behind directories only.\<close>

definition listable :: "list_entry list \<Rightarrow> bool" where
  "listable entries =
     ((\<forall>e\<in>set entries. utf8_valid (le_key e) \<and> (ends_with (le_key e) ''/'' \<longleftrightarrow> le_is_dir e))
      \<and> distinct (map le_key (filter (\<lambda>e. \<not> le_is_dir e) entries)))"

lemma sorted_strict:
  assumes "sorted (map f xs)" "distinct (map f xs)"
  shows "sorted_wrt (\<lambda>x y. f x < f y) xs"
  using assms by (simp add: strict_sorted_iff sorted_wrt_map [symmetric])

lemma select_strict:
  assumes "listable entries"
  shows "strict_items (select_items entries params)"
proof -
  let ?files = "filter (\<lambda>e. \<not> le_is_dir e) (filter (\<lambda>e. starts_with (le_key e) (lp_prefix params)) entries)"
  have "?files = filter (\<lambda>e. starts_with (le_key e) (lp_prefix params)) (filter (\<lambda>e. \<not> le_is_dir e) entries)"
    by (simp add: conj_commute)
  then have "distinct (map le_key ?files)" using assms distinct_map_filter unfolding listable_def by metis
  then have files: "sorted_wrt (\<lambda>x y. le_key x < le_key y) (sort_key le_key ?files)"
    by (intro sorted_strict) (simp_all add: distinct_map)
  have adj: "sorted xs \<Longrightarrow> sorted_wrt (<) (remdups_adj xs)" for xs :: "string list"
    by (induction xs rule: remdups_adj.induct) (auto simp: order_less_le)
  then have cps: "sorted_wrt (<) (remdups_adj (sort ds))" for ds :: "string list" by simp
  show ?thesis using files cps by (auto simp: strict_items_def select_items_def Let_def sorted_wrt_filter split: option.split)
qed

lemma select_members:
  "e \<in> set (pi_contents (select_items entries params)) \<Longrightarrow> e \<in> set entries \<and> \<not> le_is_dir e \<and> starts_with (le_key e) (lp_prefix params)"
  "p \<in> set (pi_common_prefixes (select_items entries params)) \<Longrightarrow>
     lp_delimiter params \<noteq> None \<and> (\<exists>e\<in>set entries. le_is_dir e \<and> le_key e = p)"
  by (auto simp: select_items_def Let_def split: option.splits if_splits)

lemma page_members:
  assumes "pg = page_slice cap items r"
  shows "set (pg_contents pg) \<subseteq> set (pi_contents items)" "set (pg_prefixes pg) \<subseteq> set (pi_common_prefixes items)"
  using assms
  by (auto simp: page_slice_def first_of_def Let_def split: resume.splits if_splits dest!: in_set_takeD)

lemma truncated_nonempty:
  assumes "pg = page_slice cap items r" "pg_truncated pg"
  shows "pg_contents pg \<noteq> [] \<or> pg_prefixes pg \<noteq> []"
proof -
  have cap: "0 < cap" using assms by (cases "cap = 0") (auto simp: page_slice_def)
  have "pg = first_of cap (left_files items r) (left_prefixes items r)" using assms(1) page_slice_left [OF cap] by simp
  then show ?thesis using assms(2) cap by (auto simp: first_of_def Let_def)
qed

lemma next_resumed:
  assumes "token_libs cr lib" "listable entries" "pg = page_slice cap (select_items entries params) r"
    and "next_params cr lib key params pg = Some params'"
  shows "resume_from cr lib key params' = Some (Inr (next_resume pg))" "pg_truncated pg"
proof -
  show tr: "pg_truncated pg" using assms(4) by (auto simp: next_params_def next_token_of_def split: if_splits)
  have hit: "\<exists>e\<in>set entries. \<not> le_is_dir e \<and> le_key e = le_key (last (pg_contents pg))" if "pg_contents pg \<noteq> []"
    using page_members(1) [OF assms(3)] last_in_set [OF that] select_members(1) by blast
  have dir: "lp_delimiter params \<noteq> None \<and> (\<exists>e\<in>set entries. le_is_dir e \<and> le_key e = last (pg_prefixes pg))" if "pg_prefixes pg \<noteq> []"
    using page_members(2) [OF assms(3)] last_in_set [OF that] select_members(2) by blast
  have names: "pg_contents pg \<noteq> [] \<Longrightarrow> utf8_valid (le_key (last (pg_contents pg))) \<and> \<not> ends_with (le_key (last (pg_contents pg))) ''/''"
    "pg_prefixes pg \<noteq> [] \<Longrightarrow> utf8_valid (last (pg_prefixes pg)) \<and> ends_with (last (pg_prefixes pg)) ''/''"
    using hit dir assms(2) unfolding listable_def by metis+
  show "resume_from cr lib key params' = Some (Inr (next_resume pg))"
  proof (cases "lp_is_v2 params")
    case True
    then have p': "params' = params\<lparr>lp_continuation_token := Some (sign_token cr lib key (next_payload pg))\<rparr>"
      using assms(4) tr by (simp add: next_params_def next_token_of_def)
    have "utf8_valid (next_payload pg)"
      using names truncated_nonempty [OF assms(3) tr] by (auto simp: next_payload_def utf8_kind)
    from token_roundtrip [OF assms(1) this] show ?thesis
      using True by (simp add: p' resume_from_def next_payload_def next_resume_def)
  next
    case False
    then have p': "params' = params\<lparr>lp_marker := Some (next_marker pg)\<rparr>"
      using assms(4) tr by (simp add: next_params_def)
    show ?thesis using False names dir truncated_nonempty [OF assms(3) tr]
      by (auto simp: p' resume_from_def next_marker_def next_resume_def)
  qed
qed

text \<open>The same request under another resume point asks for the same items.\<close>

definition same_query :: "list_params \<Rightarrow> list_params \<Rightarrow> bool" where
  "same_query p q = (q\<lparr>lp_continuation_token := lp_continuation_token p, lp_marker := lp_marker p\<rparr> = p)"

lemma next_same_query: "same_query p q \<Longrightarrow> next_params cr lib key q pg = Some q' \<Longrightarrow> same_query p q'"
  by (cases p; cases q) (auto simp: same_query_def next_params_def split: if_splits)

lemma same_query_items:
  assumes "same_query p q" "lp_is_v2 p \<Longrightarrow> lp_start_after p = None"
  shows "select_items entries q = select_items entries p" "list_cap q = list_cap p"
  using assms by (cases p; cases q; auto simp: same_query_def select_items_def list_cap_def Let_def)+

lemma client_pages_walk:
  assumes "token_libs cr lib" "listable entries" "lp_is_v2 p \<Longrightarrow> lp_start_after p = None"
    and "same_query p q" "resume_from cr lib key q = (if r = Start then None else Some (Inr r))"
  shows "client_pages cr lib key entries n q = map Some (page_walk n (list_cap p) (select_items entries p) r)"
  using assms(4,5)
proof (induction n arbitrary: q r)
  case (Suc n)
  define pg where "pg = page_slice (list_cap p) (select_items entries p) r"
  note same = same_query_items(1) [OF Suc.prems(1) assms(3), of entries] same_query_items(2) [OF Suc.prems(1) assms(3)]
  have first: "client_pages cr lib key entries (Suc n) q
      = Some pg # (case next_params cr lib key q pg of Some q' \<Rightarrow> client_pages cr lib key entries n q' | None \<Rightarrow> [])"
    using Suc.prems(2) same by (auto simp: pg_def Let_def split: if_splits)
  show ?case
  proof (cases "next_params cr lib key q pg")
    case None
    then have "\<not> pg_truncated pg" by (auto simp: next_params_def next_token_of_def split: if_splits)
    then show ?thesis using first None by (simp add: pg_def [symmetric])
  next
    case (Some q')
    have pgq: "pg = page_slice (list_cap q) (select_items entries q) r" using same by (simp add: pg_def)
    note nr = next_resumed [OF assms(1,2) pgq Some]
    have "next_resume pg \<noteq> Start" by (simp add: next_resume_def)
    then have "client_pages cr lib key entries n q' = map Some (page_walk n (list_cap p) (select_items entries p) (next_resume pg))"
      using Suc.IH [OF next_same_query [OF Suc.prems(1) Some]] nr(1) by simp
    then show ?thesis using first Some nr(2) by (simp add: pg_def [symmetric] Let_def)
  qed
qed simp

lemma select_items_all:
  assumes "lp_is_v2 p \<Longrightarrow> lp_start_after p = None"
  shows "pi_contents (select_items entries p) = sort_key le_key (filter (\<lambda>e. \<not> le_is_dir e \<and> starts_with (le_key e) (lp_prefix p)) entries)"
    "set (pi_common_prefixes (select_items entries p)) =
       (if lp_delimiter p = None then {} else le_key ` {e \<in> set entries. le_is_dir e \<and> starts_with (le_key e) (lp_prefix p)})"
  using assms by (auto simp: select_items_def Let_def conj_commute image_iff split: option.split)

lemma pages_cover_spec:
  assumes "token_libs cr lib" "listable entries" "lp_is_v2 p \<Longrightarrow> lp_start_after p = None"
    and "lp_continuation_token p = None" "lp_marker p = None" "0 < list_cap p" "length entries < n"
  shows "\<exists>pages. client_pages cr lib key entries n p = map Some pages
    \<and> concat (map pg_contents pages) = sort_key le_key (filter (\<lambda>e. \<not> le_is_dir e \<and> starts_with (le_key e) (lp_prefix p)) entries)
    \<and> sorted_wrt (<) (concat (map pg_prefixes pages))
    \<and> set (concat (map pg_prefixes pages)) =
       (if lp_delimiter p = None then {} else le_key ` {e \<in> set entries. le_is_dir e \<and> starts_with (le_key e) (lp_prefix p)})
    \<and> (\<forall>pg\<in>set pages. length (pg_contents pg) + length (pg_prefixes pg) \<le> list_cap p)
    \<and> (\<forall>pg\<in>set (butlast pages). length (pg_contents pg) + length (pg_prefixes pg) = list_cap p)
    \<and> \<not> pg_truncated (last pages)"
proof -
  let ?items = "select_items entries p"
  have st: "strict_items ?items" by (rule select_strict [OF assms(2)])
  have "resume_from cr lib key p = None" using assms(4,5) by (simp add: resume_from_def)
  then have pages: "client_pages cr lib key entries n p = map Some (page_walk n (list_cap p) ?items Start)"
    using client_pages_walk [OF assms(1,2,3), of p key Start n] by (simp add: same_query_def)
  have "length (pi_contents ?items) + length (pi_common_prefixes ?items) \<le> length entries"
  proof -
    have "length (filter (\<lambda>e. \<not> le_is_dir e \<and> starts_with (le_key e) (lp_prefix p)) entries) \<le> length (filter (\<lambda>e. \<not> le_is_dir e) entries)"
      by (induction entries) auto
    then have "length (pi_contents ?items) \<le> length (filter (\<lambda>e. \<not> le_is_dir e) entries)"
      using select_items_all(1) [of p entries] assms(3) by simp
    moreover have "length (pi_common_prefixes ?items) \<le> length (filter le_is_dir entries)"
    proof -
      let ?dirs = "map le_key (filter le_is_dir (filter (\<lambda>e. starts_with (le_key e) (lp_prefix p)) entries))"
      have "length (remdups_adj (sort ?dirs)) \<le> length ?dirs" using remdups_adj_length [of "sort ?dirs"] by simp
      also have "\<dots> \<le> length (filter le_is_dir entries)" by (simp del: filter_filter) (induction entries; simp)
      finally show ?thesis using assms(3) by (auto simp: select_items_def Let_def split: option.split)
    qed
    ultimately show ?thesis using sum_length_filter_compl [of le_is_dir entries] by simp
  qed
  then have "length (left_files ?items Start) + length (left_prefixes ?items Start) < n" using assms(7) by simp
  from page_walk_spec [OF st assms(6) this] pages st select_items_all [OF assms(3)] show ?thesis
    by (intro exI [of _ "page_walk n (list_cap p) ?items Start"]) (auto simp: strict_items_def)
qed

subsection \<open>What is written can be read back\<close>

definition ENTITIES :: "(string \<times> char) list" where
  "ENTITIES = [(''amp;'', CHR ''&''), (''lt;'', CHR ''<''), (''gt;'', CHR ''>''), (''quot;'', CHR 0x22), (''apos;'', CHR 0x27)]"

function xml_unescape :: "string \<Rightarrow> string" where
  "xml_unescape s =
     (case s of
        [] \<Rightarrow> []
      | c # t \<Rightarrow>
          if c \<noteq> CHR ''&'' then c # xml_unescape t
          else case find (\<lambda>(n, _). starts_with t n) ENTITIES of
                 Some (n, d) \<Rightarrow> d # xml_unescape (drop (length n) t)
               | None \<Rightarrow> c # xml_unescape t)"
  by pat_completeness auto
termination
  by (relation "measure length") auto

declare xml_unescape.simps [simp del]

lemma xml_unescape_plain [simp]: "xml_unescape [] = []" "c \<noteq> CHR ''&'' \<Longrightarrow> xml_unescape (c # t) = c # xml_unescape t"
  by (simp_all add: xml_unescape.simps)

lemma xml_unescape_entity:
  "(n, d) \<in> set ENTITIES \<Longrightarrow> xml_unescape (CHR ''&'' # n @ t) = d # xml_unescape t"
  by (subst xml_unescape.simps) (auto simp: ENTITIES_def starts_with_def)

lemma xml_escape_Cons: "xml_escape (c # s) =
    (case find (\<lambda>(_, d). d = c) ENTITIES of Some (n, _) \<Rightarrow> CHR ''&'' # n | None \<Rightarrow> [c]) @ xml_escape s"
  by (auto simp: xml_escape_def ENTITIES_def)

lemma xml_roundtrip: "xml_unescape (xml_escape s) = s"
proof (induction s)
  case (Cons c s)
  show ?case
  proof (cases "find (\<lambda>(_, d). d = c) ENTITIES")
    case None
    then have "c \<noteq> CHR ''&''" by (auto simp: ENTITIES_def split: if_splits)
    then show ?thesis using None Cons by (simp add: xml_escape_Cons)
  next
    case (Some nd)
    moreover have "nd \<in> set ENTITIES" "snd nd = c" using Some by (auto simp: find_Some_iff case_prod_unfold)
    moreover obtain n d where "nd = (n, d)" by fastforce
    ultimately have "nd = (n, c)" "(n, c) \<in> set ENTITIES" by simp_all
    then show ?thesis using Some Cons xml_unescape_entity by (simp add: xml_escape_Cons)
  qed
qed (simp add: xml_escape_def)

lemma xml_escape_safe: "c \<in> set (xml_escape s) \<Longrightarrow> c \<noteq> CHR ''<'' \<and> c \<noteq> CHR ''>'' \<and> c \<noteq> CHR 0x22 \<and> c \<noteq> CHR 0x27"
  by (auto simp: xml_escape_def split: if_splits)

fun url_decode :: "string \<Rightarrow> string" where
  "url_decode [] = []"
| "url_decode (c # s) =
     (if c = CHR ''+'' then CHR '' '' # url_decode s
      else if c = CHR ''%'' then
        (case s of
           a # b # t \<Rightarrow> char_of ((case hex_digit a of Some x \<Rightarrow> x | None \<Rightarrow> 0) * 16 + (case hex_digit b of Some y \<Rightarrow> y | None \<Rightarrow> 0)) # url_decode t
         | _ \<Rightarrow> c # s)
      else c # url_decode s)"

lemma hex_digit_upper: "n < 16 \<Longrightarrow> hex_digit (upper_hex n) = Some n"
  by (auto simp: hex_digit_def upper_hex_def Let_def)

lemma url_literal_plain: "url_literal c \<Longrightarrow> c \<noteq> CHR ''+'' \<and> c \<noteq> CHR ''%'' \<and> c \<noteq> CHR ''<'' \<and> c \<noteq> CHR ''>'' \<and> c \<noteq> CHR 0x22 \<and> c \<noteq> CHR 0x27"
  by (auto simp: url_literal_def Let_def)

lemma url_roundtrip: "url_decode (aws_url_encode s) = s"
proof (induction s)
  case (Cons c s)
  note n = nat_of_char_less_256 [of c]
  then have "hex_digit (upper_hex (of_char c div 16)) = Some (of_char c div 16)" "hex_digit (upper_hex (of_char c mod 16)) = Some (of_char c mod 16)"
    by (simp_all add: hex_digit_upper div_less_iff_less_mult)
  moreover have "char_of (of_char c div 16 * 16 + of_char c mod 16 :: nat) = c" by simp
  ultimately show ?case using Cons url_literal_plain [of c] by (auto simp: aws_url_encode_def)
qed (simp add: aws_url_encode_def)

lemma upper_hex_alnum: "n < 16 \<Longrightarrow> url_literal (upper_hex n)"
  by (auto simp: url_literal_def upper_hex_def Let_def)

lemma aws_url_encode_safe: "c \<in> set (aws_url_encode s) \<Longrightarrow> url_literal c \<or> c = CHR ''+'' \<or> c = CHR ''%''"
proof -
  have "of_char x div 16 < (16 :: nat)" for x :: char using nat_of_char_less_256 [of x] by (simp add: div_less_iff_less_mult)
  then show "c \<in> set (aws_url_encode s) \<Longrightarrow> url_literal c \<or> c = CHR ''+'' \<or> c = CHR ''%''"
    using upper_hex_alnum by (auto simp: aws_url_encode_def split: if_splits)
qed

subsection \<open>Where a listing does not do what it means to\<close>

text \<open>
  \<^verbatim>\<open>start-after\<close> is dropped with the first token, so a common prefix that it excluded comes back
  on a later page.
\<close>

lemma start_after_forgotten:
  assumes "lp_is_v2 p" "lp_delimiter p \<noteq> None" "lp_start_after p = Some a" "lp_continuation_token p = None"
    and "e \<in> set entries" "le_is_dir e" "starts_with (le_key e) (lp_prefix p)" "\<not> le_key e > a"
  shows "le_key e \<notin> set (pi_common_prefixes (select_items entries p))
    \<and> le_key e \<in> set (pi_common_prefixes (select_items entries (p\<lparr>lp_continuation_token := Some t\<rparr>)))"
  using assms by (auto simp: select_items_def Let_def)

text \<open>The resource of a listing error is the path as it came, markup included.\<close>

lemma error_xml_resource:
  "\<exists>a c. s3_error_xml_ex code message resource r h extra = a @ xml_tag ''Resource'' resource @ c"
proof
  show "\<exists>c. s3_error_xml_ex code message resource r h extra
      = (XML_DECL @ ''<Error>'' @ xml_tag ''Code'' code @ xml_tag ''Message'' message @ concat (map (\<lambda>(k, v). xml_tag k v) extra))
        @ xml_tag ''Resource'' resource @ c"
    by (simp add: s3_error_xml_ex_def xml_tag_def [of "''Error''"])
qed

lemma error_resource_raw:
  assumes "no_such_bucket (\<lambda>_. True) ''<b>'' r h = Some x"
  shows "\<exists>a c. rs_body x = Xml_body (a @ ''<Resource>/<b>/</Resource>'' @ c)"
proof -
  obtain extra where "rs_body x = Xml_body (s3_error_xml_ex ''NoSuchBucket'' ''The specified bucket does not exist''
      ''/<b>/'' r h extra)"
    using assms by (auto simp: no_such_bucket_def list_error_def with_body_def with_header_def new_response_def trim_matches_def)
  moreover obtain a c where "s3_error_xml_ex ''NoSuchBucket'' ''The specified bucket does not exist'' ''/<b>/'' r h extra
      = a @ xml_tag ''Resource'' ''/<b>/'' @ c"
    using error_xml_resource by blast
  ultimately show ?thesis by (intro exI [of _ a] exI [of _ c]) (simp add: xml_tag_def)
qed

text \<open>Minus zero is an accepted \<^verbatim>\<open>max-keys\<close> that means a full page.\<close>

lemma minus_zero_full_page:
  assumes "query_get (ll_form_parse lib q) ''max-keys'' = Some ''-0''" "list_params_parse lib q = Inr p"
  shows "list_cap p = MAX_KEYS_CAP"
  using assms by (auto simp: list_params_parse_def Let_def checks_passed nonempty_def list_cap_def parse_u64_def digit_of_def)

text \<open>
  Only the first segment of the path selects what is listed: a ticket for one prefix of a
  bucket lists all of the bucket.
\<close>

lemma listing_ignores_path:
  assumes "b \<noteq> []" "CHR ''/'' \<notin> set b"
  shows "resolve_list_bucket cfg (b @ CHR ''/'' # rest) = resolve_list_bucket cfg b"
proof -
  have first: "hd (split_on c (u @ c # v)) = u" if "c \<notin> set u" for c u v
    using that by (induction u) (auto split: list.split)
  have plain: "split_on c u = [u]" if "c \<notin> set u" for c u
    using that by (induction u) auto
  have d: "dropWhile (\<lambda>x. x = CHR ''/'') (b @ t) = b @ t" for t
    using assms by (cases b) auto
  have strip: "\<exists>v. rev (dropWhile (\<lambda>x. x = CHR ''/'') (rev (b @ CHR ''/'' # rest))) = b @ v \<and> (v = [] \<or> hd v = CHR ''/'')"
  proof (cases "\<forall>x\<in>set rest. x = CHR ''/''")
    case True
    then have "dropWhile (\<lambda>x. x = CHR ''/'') (rev rest) = []" by simp
    moreover have "dropWhile (\<lambda>x. x = CHR ''/'') (rev b) = rev b"
      using assms by (cases b rule: rev_cases) auto
    ultimately show ?thesis by (intro exI [of _ "[]"]) (simp add: dropWhile_append)
  next
    case False
    then have "dropWhile (\<lambda>x. x = CHR ''/'') (rev (b @ CHR ''/'' # rest)) = dropWhile (\<lambda>x. x = CHR ''/'') (rev rest) @ CHR ''/'' # rev b"
      by (auto simp: dropWhile_append)
    then show ?thesis by (intro exI [of _ "CHR ''/'' # rev (dropWhile (\<lambda>x. x = CHR ''/'') (rev rest))"]) simp
  qed
  have "rev (dropWhile (\<lambda>x. x = CHR ''/'') (rev b)) = b"
    using assms by (cases b rule: rev_cases) auto
  then have tb: "trim_matches CHR ''/'' b = b" using d [of "[]"] by (simp add: trim_matches_def)
  obtain v where v: "trim_matches CHR ''/'' (b @ CHR ''/'' # rest) = b @ v" "v = [] \<or> hd v = CHR ''/''"
    using strip d by (auto simp: trim_matches_def)
  have "hd (split_on CHR ''/'' (b @ v)) = b"
  proof (cases v)
    case Nil
    then show ?thesis using plain [OF assms(2)] by simp
  next
    case (Cons x xs)
    then show ?thesis using v(2) first [OF assms(2)] by simp
  qed
  then show ?thesis using v(1) tb plain [OF assms(2)] assms(1) by (simp add: resolve_list_bucket_def Let_def)
qed

lemma snapshot_reused:
  "listing_get up folder recursive (now + d) (listing_put up folder recursive e now rows)
     = (if d < LISTING_SNAPSHOT_TTL_MS then Some e else None)"
  by (simp add: listing_get_def listing_put_def snapshot_fresh_def)

lemma snapshots_bounded:
  "(k, at, v) \<in> set (listing_put up folder recursive e now rows) \<Longrightarrow> now - at < LISTING_SNAPSHOT_TTL_MS"
  by (auto simp: listing_put_def hm_put_def hm_del_def snapshot_fresh_def LISTING_SNAPSHOT_TTL_MS_def)

subsection \<open>Properties\<close>

definition toy_list_lib :: list_lib where
  "toy_list_lib = \<lparr>ll_form_parse = \<lambda>_. [], ll_b64_encode = from_bytes, ll_b64_decode = \<lambda>s. Some (as_bytes s), ll_iso8601 = \<lambda>_. None\<rparr>"

lemma toy_token_libs: "token_libs toy_crypto toy_list_lib"
proof -
  have "as_bytes (from_bytes bs) = bs" for bs
  proof -
    have "unat b < 256" for b :: byte using unsigned_less [of b, where ?'a = nat] by simp
    then show ?thesis by (simp add: as_bytes_def from_bytes_def map_idI)
  qed
  then show ?thesis by (simp add: token_libs_def toy_crypto_def toy_list_lib_def)
qed

definition toy_file :: "string \<Rightarrow> bool \<Rightarrow> list_entry" where
  "toy_file k d = \<lparr>le_key = k, le_size = 0, le_etag = None, le_last_modified = None, le_is_dir = d\<rparr>"

definition toy_entries :: "list_entry list" where
  "toy_entries = [toy_file ''b'' False, toy_file ''d/'' True, toy_file ''a'' False]"

definition toy_params :: list_params where
  "toy_params = \<lparr>lp_is_list = True, lp_is_v2 = True, lp_prefix = [], lp_delimiter = Some ''/'', lp_max_keys_raw = Some ''2'',
     lp_continuation_token = None, lp_start_after = None, lp_marker = None, lp_encoding_url = False, lp_fetch_owner = False\<rparr>"

text \<open>
  C38: paging through a listing visits everything once. A client that follows the tokens of V2
  or the markers of V1 over the same entries is never refused, gets every matching file exactly
  once in key order and then every directory once, in pages that are full but for the last and
  never longer than asked for, and it is told the end.
\<close>

theorem pages_cover_listing:
  assumes "token_libs cr lib" and "listable entries" and "lp_is_v2 p \<Longrightarrow> lp_start_after p = None"
    and "lp_continuation_token p = None" and "lp_marker p = None" and "0 < list_cap p" and "length entries < n"
  shows "\<exists>pages. client_pages cr lib key entries n p = map Some pages
    \<and> concat (map pg_contents pages) = sort_key le_key (filter (\<lambda>e. \<not> le_is_dir e \<and> starts_with (le_key e) (lp_prefix p)) entries)
    \<and> sorted_wrt (<) (concat (map pg_prefixes pages))
    \<and> set (concat (map pg_prefixes pages)) =
       (if lp_delimiter p = None then {} else le_key ` {e \<in> set entries. le_is_dir e \<and> starts_with (le_key e) (lp_prefix p)})
    \<and> (\<forall>pg\<in>set pages. length (pg_contents pg) + length (pg_prefixes pg) \<le> list_cap p)
    \<and> (\<forall>pg\<in>set (butlast pages). length (pg_contents pg) + length (pg_prefixes pg) = list_cap p)
    \<and> \<not> pg_truncated (last pages)"
  by (rule pages_cover_spec [OF assms])

theorem pages_cover_listing_witness:
  "\<exists>pages. client_pages toy_crypto toy_list_lib [] toy_entries 4 toy_params = map Some pages
     \<and> map le_key (concat (map pg_contents pages)) = [''a'', ''b''] \<and> set (concat (map pg_prefixes pages)) = {''d/''}"
proof -
  have l: "listable toy_entries"
    by (simp add: listable_def toy_entries_def toy_file_def utf8_valid_def ends_with_def starts_with_def)
  have c: "0 < list_cap toy_params"
    by (simp add: list_cap_def toy_params_def parse_u64_def digit_of_def MAX_KEYS_CAP_def)
  have "lp_is_v2 toy_params \<Longrightarrow> lp_start_after toy_params = None" "lp_continuation_token toy_params = None" "lp_marker toy_params = None"
    "length toy_entries < 4"
    by (simp_all add: toy_params_def toy_entries_def)
  from pages_cover_listing [OF toy_token_libs l this(1-3) c this(4), of "[]"]
  obtain pages where P: "client_pages toy_crypto toy_list_lib [] toy_entries 4 toy_params = map Some pages"
    "concat (map pg_contents pages) = sort_key le_key (filter (\<lambda>e. \<not> le_is_dir e \<and> starts_with (le_key e) (lp_prefix toy_params)) toy_entries)"
    "set (concat (map pg_prefixes pages)) = (if lp_delimiter toy_params = None then {}
       else le_key ` {e \<in> set toy_entries. le_is_dir e \<and> starts_with (le_key e) (lp_prefix toy_params)})"
    by blast
  have A: "map le_key (concat (map pg_contents pages)) = [''a'', ''b'']"
    unfolding P(2) by (simp add: toy_entries_def toy_file_def toy_params_def)
  have B: "set (concat (map pg_prefixes pages)) = {''d/''}"
  proof -
    have "le_key ` {e \<in> set toy_entries. le_is_dir e \<and> starts_with (le_key e) (lp_prefix toy_params)}
        = set (map le_key (filter (\<lambda>e. le_is_dir e \<and> starts_with (le_key e) (lp_prefix toy_params)) toy_entries))" by auto
    then show ?thesis unfolding P(3) by (simp add: toy_entries_def toy_file_def toy_params_def)
  qed
  show ?thesis by (rule exI [of _ pages], intro conjI) (rule P(1), rule A, rule B)
qed


end
