(* ===== verification/Admission.thy ===== *)
theory Admission
  imports Content_Auth
begin

unbundle bit_operations_syntax

text \<open>
  The public door, \<^verbatim>\<open>front/src/admission.rs\<close> and the request hooks of \<^verbatim>\<open>front/src/lib.rs\<close>: the
  gates, the order they run in, the body cap and the byte accounting.

  CIDR blocks are the \<^verbatim>\<open>ipnet\<close> crate's and header names the \<^verbatim>\<open>http\<close> crate's, the fields of
  \<open>cidr_lib\<close>; the rate window is \<^verbatim>\<open>pingora_limits\<close>', the argument \<open>observe\<close> over a state of its
  own, asked by address. The content policy is behind the trait \<^verbatim>\<open>ContentAuth\<close>: \<open>auth_seam\<close> has its
  two operations over the policy's state, and \<open>gate_seam\<close> is the implementation the process boots with.
\<close>

subsection \<open>Address lists\<close>

record 'n cidr_lib =
  cl_parse_net :: "string \<Rightarrow> 'n option"
  cl_host_net :: "ip_addr \<Rightarrow> 'n"
  cl_contains :: "'n \<Rightarrow> ip_addr \<Rightarrow> bool"
  cl_header_name :: "string \<Rightarrow> string option"

definition parse_cidr :: "'n cidr_lib \<Rightarrow> string \<Rightarrow> 'n option" where
  "parse_cidr lib s =
     (if CHR ''/'' \<in> set s then cl_parse_net lib s else map_option (cl_host_net lib) (parse_ip s))"

fun parse_cidrs :: "'n cidr_lib \<Rightarrow> string list \<Rightarrow> 'n list option" where
  "parse_cidrs lib [] = Some []"
| "parse_cidrs lib (s # ss) =
     (case parse_cidr lib s of None \<Rightarrow> None | Some n \<Rightarrow> map_option (Cons n) (parse_cidrs lib ss))"

definition canonical_ip :: "ip_addr \<Rightarrow> ip_addr" where
  "canonical_ip ip = (case ip of V6 gs \<Rightarrow> (case to_ipv4_mapped gs of Some bs \<Rightarrow> V4 bs | None \<Rightarrow> V6 gs) | V4 bs \<Rightarrow> V4 bs)"

definition ip_in_any :: "'n cidr_lib \<Rightarrow> 'n list \<Rightarrow> ip_addr \<Rightarrow> bool" where
  "ip_in_any lib nets ip = list_ex (\<lambda>n. cl_contains lib n (canonical_ip ip)) nets"

text \<open>The connection filter: refused before the handshake, unless there is no address to judge.\<close>

definition should_accept :: "'n cidr_lib \<Rightarrow> 'n list \<Rightarrow> ip_addr option \<Rightarrow> bool" where
  "should_accept lib block addr = (case addr of Some ip \<Rightarrow> \<not> ip_in_any lib block ip | None \<Rightarrow> True)"

definition secret_eq :: "byte list \<Rightarrow> byte list \<Rightarrow> bool" where
  "secret_eq a b =
     (if length a \<noteq> length b then False
      else foldl (\<lambda>diff (x, y). diff OR (x XOR y)) 0 (zip a b) = 0)"

lemma secret_eq_iff [simp]: "secret_eq a b \<longleftrightarrow> a = b"
  using constant_time_eq_iff by (simp add: secret_eq_def constant_time_eq_def)

subsection \<open>A request at the door\<close>

definition PREWARM_MAX_BODY :: nat where
  "PREWARM_MAX_BODY = 64 * 1024"

definition INTERNAL_PREFIX :: string where
  "INTERNAL_PREFIX = ''/_internal/''"

definition PREWARM_PREFIX :: string where
  "PREWARM_PREFIX = ''/_internal/prewarm/''"

definition is_prewarm :: "string \<Rightarrow> bool" where
  "is_prewarm path = starts_with path PREWARM_PREFIX"

definition is_internal :: "string \<Rightarrow> bool" where
  "is_internal path = (starts_with path INTERNAL_PREFIX \<and> \<not> is_prewarm path)"

record identity =
  id_credential :: string
  id_session :: "string option"

text \<open>The header values are bytes; the stamp is compared as such.\<close>

record request_head =
  rh_method :: string
  rh_path :: string
  rh_path_and_query :: string
  rh_host :: "string option"
  rh_peer :: "ip_addr option"
  rh_declared_len :: "u64 option"
  rh_headers :: "(string \<times> byte list) list"

definition request_host :: "(string \<times> string option) list \<Rightarrow> string option \<Rightarrow> string option" where
  "request_host headers authority =
     (case map_of headers ''host'' of Some (Some h) \<Rightarrow> Some h | _ \<Rightarrow> authority)"

datatype door_verdict = Serve_it "identity option" | Refuse nat string

subsection \<open>The gates\<close>

record 'n token_gate =
  tg_header :: string
  tg_value :: "byte list"
  tg_exempt :: "'n list"

definition token_gate_new :: "'n cidr_lib \<Rightarrow> string \<Rightarrow> string \<Rightarrow> 'n list \<Rightarrow> 'n token_gate option" where
  "token_gate_new lib header val exempt =
     (if val = [] then None
      else map_option (\<lambda>h. \<lparr>tg_header = h, tg_value = as_bytes val, tg_exempt = exempt\<rparr>) (cl_header_name lib header))"

definition token_requires :: "'n cidr_lib \<Rightarrow> 'n token_gate \<Rightarrow> ip_addr option \<Rightarrow> bool" where
  "token_requires lib g peer = (case peer of Some ip \<Rightarrow> \<not> ip_in_any lib (tg_exempt g) ip | None \<Rightarrow> True)"

definition token_accepts :: "'n token_gate \<Rightarrow> (string \<times> byte list) list \<Rightarrow> bool" where
  "token_accepts g headers =
     secret_eq (case map_of headers (tg_header g) of Some v \<Rightarrow> v | None \<Rightarrow> []) (tg_value g)"

record 'a auth_seam =
  as_admit :: "content_request \<Rightarrow> 'a \<Rightarrow> content_decision \<times> 'a"
  as_observe :: "string \<Rightarrow> string option \<Rightarrow> u64 \<Rightarrow> 'a \<Rightarrow> 'a"

definition gate_seam :: "crypto \<Rightarrow> url_lib \<Rightarrow> content_gate \<Rightarrow> int \<Rightarrow> session_table auth_seam" where
  "gate_seam cr lib g now =
     \<lparr>as_admit = (\<lambda>rq tbl. gate_admit cr lib g rq now tbl),
      as_observe = (\<lambda>c s n tbl. gate_observe c s n now tbl)\<rparr>"

text \<open>\<open>None\<close>: not this gate's business.\<close>

definition content_check ::
  "'n cidr_lib \<Rightarrow> 'a auth_seam \<Rightarrow> 'n list \<Rightarrow> request_head \<Rightarrow> 'a \<Rightarrow> content_decision option \<times> 'a" where
  "content_check lib auth exempt head st =
     (if \<not> (rh_method head = ''GET'' \<or> rh_method head = ''HEAD'') \<or> is_internal (rh_path head) then (None, st)
      else if (case rh_peer head of Some ip \<Rightarrow> ip_in_any lib exempt ip | None \<Rightarrow> False) then (None, st)
      else (let (d, st') = as_admit auth \<lparr>rq_method = rh_method head, rq_path_and_query = rh_path_and_query head,
                                          rq_host = rh_host head\<rparr> st
            in (Some d, st')))"

record 'n rate_gate =
  rg_rps :: nat
  rg_exempt :: "'n list"

definition rate_exceeds ::
  "'n cidr_lib \<Rightarrow> (ip_addr \<Rightarrow> 'r \<Rightarrow> int \<times> 'r) \<Rightarrow> 'n rate_gate \<Rightarrow> ip_addr option \<Rightarrow> 'r \<Rightarrow> bool \<times> 'r" where
  "rate_exceeds lib observe g peer st =
     (case peer of
        None \<Rightarrow> (False, st)
      | Some ip \<Rightarrow>
          if ip_in_any lib (rg_exempt g) ip then (False, st)
          else if rg_rps g = 0 then (False, st)
          else (let (n, st') = observe ip st in (n > int (rg_rps g), st')))"

record 'n admission =
  ad_token :: "'n token_gate option"
  ad_content :: "'n list option"
  ad_rate :: "'n rate_gate option"

record ('a, 'r) door =
  dr_auth :: 'a
  dr_rate :: 'r

record front_options =
  fo_ip_allow :: "string list"
  fo_rate_rps :: "nat option"
  fo_origin_token :: "(string \<times> string) option"
  fo_origin_token_exempt :: "string list"
  fo_content_auth :: bool
  fo_content_auth_exempt :: "string list"

definition from_options :: "'n cidr_lib \<Rightarrow> front_options \<Rightarrow> 'n admission option" where
  "from_options lib opts =
     (case (case fo_origin_token opts of
              Some (header, v) \<Rightarrow>
                (case parse_cidrs lib (fo_origin_token_exempt opts) of
                   None \<Rightarrow> None | Some e \<Rightarrow> map_option Some (token_gate_new lib header v e))
            | None \<Rightarrow> Some None) of
        None \<Rightarrow> None
      | Some token \<Rightarrow>
          (case (if fo_content_auth opts then map_option Some (parse_cidrs lib (fo_content_auth_exempt opts)) else Some None) of
             None \<Rightarrow> None
           | Some content \<Rightarrow>
               (case (case fo_rate_rps opts of
                        Some rps \<Rightarrow> map_option (\<lambda>e. Some \<lparr>rg_rps = rps, rg_exempt = e\<rparr>) (parse_cidrs lib (fo_ip_allow opts))
                      | None \<Rightarrow> Some None) of
                  None \<Rightarrow> None
                | Some rate \<Rightarrow> Some \<lparr>ad_token = token, ad_content = content, ad_rate = rate\<rparr>)))"

subsection \<open>The decision\<close>

text \<open>Stages four and five, behind the identity checks.\<close>

definition ceiling_and_cap ::
  "'n cidr_lib \<Rightarrow> (ip_addr \<Rightarrow> 'r \<Rightarrow> int \<times> 'r) \<Rightarrow> 'n admission \<Rightarrow> request_head \<Rightarrow> identity option \<Rightarrow> ('a, 'r) door
     \<Rightarrow> door_verdict \<times> ('a, 'r) door" where
  "ceiling_and_cap lib observe adm head who d =
     (let (over, r) = (case ad_rate adm of Some g \<Rightarrow> rate_exceeds lib observe g (rh_peer head) (dr_rate d) | None \<Rightarrow> (False, dr_rate d));
          d' = d\<lparr>dr_rate := r\<rparr>
      in if over then (Refuse 429 ''rate ceiling'', d')
         else if is_prewarm (rh_path head) \<and> (case rh_declared_len head of Some v \<Rightarrow> v > PREWARM_MAX_BODY | None \<Rightarrow> False)
         then (Refuse 413 ''prewarm body too large'', d')
         else (Serve_it who, d'))"

definition check ::
  "'n cidr_lib \<Rightarrow> 'a auth_seam \<Rightarrow> (ip_addr \<Rightarrow> 'r \<Rightarrow> int \<times> 'r) \<Rightarrow> 'n admission \<Rightarrow> request_head \<Rightarrow> ('a, 'r) door
     \<Rightarrow> door_verdict \<times> ('a, 'r) door" where
  "check lib auth observe adm head d =
     (if is_internal (rh_path head) then (Refuse 404 ''private surface'', d)
      else if (case ad_token adm of
                 Some g \<Rightarrow> token_requires lib g (rh_peer head) \<and> \<not> token_accepts g (rh_headers head)
               | None \<Rightarrow> False) then (Refuse 403 ''no edge stamp'', d)
      else (let (dec, a) = (case ad_content adm of
                   Some exempt \<Rightarrow> content_check lib auth exempt head (dr_auth d) | None \<Rightarrow> (None, dr_auth d));
                d1 = d\<lparr>dr_auth := a\<rparr>
            in case dec of
                 Some (Deny reason) \<Rightarrow> (Refuse (reason_status reason) (as_str reason), d1)
               | Some (Allow c s) \<Rightarrow> ceiling_and_cap lib observe adm head (Some \<lparr>id_credential = c, id_session = s\<rparr>) d1
               | None \<Rightarrow> ceiling_and_cap lib observe adm head None d1))"

definition prewarm_body_exceeds :: "nat \<Rightarrow> bool" where
  "prewarm_body_exceeds seen = (seen > PREWARM_MAX_BODY)"

definition account :: "'n admission \<Rightarrow> 'a auth_seam \<Rightarrow> identity \<Rightarrow> u64 \<Rightarrow> ('a, 'r) door \<Rightarrow> ('a, 'r) door" where
  "account adm auth who bytes d =
     (if ad_content adm = None then d
      else d\<lparr>dr_auth := as_observe auth (id_credential who) (id_session who) bytes (dr_auth d)\<rparr>)"

subsection \<open>The hooks of a proxied request\<close>

record front_ctx =
  fc_prewarm_body_bytes :: nat
  fc_identity :: "identity option"
  fc_refusal :: "string option"

definition new_ctx :: front_ctx where
  "new_ctx = \<lparr>fc_prewarm_body_bytes = 0, fc_identity = None, fc_refusal = None\<rparr>"

text \<open>An \<open>Inl\<close> is the status of the error that ends the request.\<close>

definition request_filter ::
  "'n cidr_lib \<Rightarrow> 'a auth_seam \<Rightarrow> (ip_addr \<Rightarrow> 'r \<Rightarrow> int \<times> 'r) \<Rightarrow> 'n admission \<Rightarrow> request_head \<Rightarrow> front_ctx \<Rightarrow> ('a, 'r) door
     \<Rightarrow> (nat + unit) \<times> front_ctx \<times> ('a, 'r) door" where
  "request_filter lib auth observe adm head ctx d =
     (case check lib auth observe adm head d of
        (Serve_it who, d') \<Rightarrow> (Inr (), ctx\<lparr>fc_identity := who\<rparr>, d')
      | (Refuse status why, d') \<Rightarrow> (Inl status, ctx\<lparr>fc_refusal := Some why\<rparr>, d'))"

definition request_body_filter :: "string \<Rightarrow> byte list option \<Rightarrow> front_ctx \<Rightarrow> (nat + unit) \<times> front_ctx" where
  "request_body_filter path body ctx =
     (if is_prewarm path then
        (let ctx' = (case body of Some b \<Rightarrow> ctx\<lparr>fc_prewarm_body_bytes := sat_add (fc_prewarm_body_bytes ctx) (length b)\<rparr> | None \<Rightarrow> ctx)
         in if prewarm_body_exceeds (fc_prewarm_body_bytes ctx') then (Inl 413, ctx') else (Inr (), ctx'))
      else (Inr (), ctx))"

definition logging :: "'n admission \<Rightarrow> 'a auth_seam \<Rightarrow> u64 \<Rightarrow> front_ctx \<Rightarrow> ('a, 'r) door \<Rightarrow> string \<times> ('a, 'r) door" where
  "logging adm auth bytes_sent ctx d =
     (case fc_identity ctx of
        Some who \<Rightarrow> (case id_session who of Some s \<Rightarrow> id_credential who @ ''/'' @ s | None \<Rightarrow> id_credential who,
                     account adm auth who bytes_sent d)
      | None \<Rightarrow> (case fc_refusal ctx of Some why \<Rightarrow> ''DENIED:'' @ why | None \<Rightarrow> ''-'', d))"

datatype tls_choice = FromEnv string string | Plaintext

definition tls_choice_of :: "string option \<Rightarrow> string option \<Rightarrow> tls_choice option" where
  "tls_choice_of cert key =
     (case (cert, key) of (Some c, Some k) \<Rightarrow> Some (FromEnv c k) | (None, None) \<Rightarrow> Some Plaintext | _ \<Rightarrow> None)"

definition acceptor_from_env ::
  "(string \<Rightarrow> string option) \<Rightarrow> string option \<Rightarrow> string option \<Rightarrow> (string \<times> string) option option" where
  "acceptor_from_env env cert key =
     (case tls_choice_of cert key of
        None \<Rightarrow> None
      | Some Plaintext \<Rightarrow> Some None
      | Some (FromEnv c k) \<Rightarrow> (case (env c, env k) of (Some cp, Some kp) \<Rightarrow> Some (Some (cp, kp)) | _ \<Rightarrow> None))"

subsection \<open>Addresses\<close>

lemma mapped_peer:
  assumes "a < 256" "b < 256" "c < 256" "d < 256"
  shows "ip_in_any lib nets (V6 [0, 0, 0, 0, 0, 65535, a * 256 + b, c * 256 + d]) = ip_in_any lib nets (V4 [a, b, c, d])"
  using assms by (simp add: ip_in_any_def canonical_ip_def to_ipv4_mapped_def)

subsection \<open>What passes the door\<close>

lemma ceiling_and_cap_cases:
  assumes "ceiling_and_cap lib observe adm head who d = (v, d')"
  shows "dr_auth d' = dr_auth d" "v = Serve_it who \<or> v = Refuse 429 ''rate ceiling'' \<or> v = Refuse 413 ''prewarm body too large''"
  using assms by (auto simp: ceiling_and_cap_def Let_def split: prod.splits if_splits)

lemma check_cases:
  assumes "check lib auth observe adm head d = (v, d')"
  obtains (surface) "is_internal (rh_path head)" "v = Refuse 404 ''private surface''" "d' = d"
    | (stamp) g where "\<not> is_internal (rh_path head)" "ad_token adm = Some g" "token_requires lib g (rh_peer head)"
        "\<not> token_accepts g (rh_headers head)" "v = Refuse 403 ''no edge stamp''" "d' = d"
    | (ticket) exempt reason a where "\<not> is_internal (rh_path head)" "ad_content adm = Some exempt"
        "content_check lib auth exempt head (dr_auth d) = (Some (Deny reason), a)"
        "v = Refuse (reason_status reason) (as_str reason)" "d' = d\<lparr>dr_auth := a\<rparr>"
    | (admitted) exempt c s a where "\<not> is_internal (rh_path head)" "ad_content adm = Some exempt"
        "content_check lib auth exempt head (dr_auth d) = (Some (Allow c s), a)"
        "ceiling_and_cap lib observe adm head (Some \<lparr>id_credential = c, id_session = s\<rparr>) (d\<lparr>dr_auth := a\<rparr>) = (v, d')"
    | (unasked) "\<not> is_internal (rh_path head)"
        "ceiling_and_cap lib observe adm head None d = (v, d')"
        "\<And>exempt. ad_content adm = Some exempt \<Longrightarrow> content_check lib auth exempt head (dr_auth d) = (None, dr_auth d)"
proof (cases "is_internal (rh_path head)")
  case True
  then show ?thesis using assms surface by (simp add: check_def)
next
  case outer: False
  show ?thesis
  proof (cases "\<exists>g. ad_token adm = Some g \<and> token_requires lib g (rh_peer head) \<and> \<not> token_accepts g (rh_headers head)")
    case True
    then show ?thesis using assms outer stamp by (auto simp: check_def)
  next
    case False
    then have tok: "\<not> (case ad_token adm of Some g \<Rightarrow> token_requires lib g (rh_peer head) \<and> \<not> token_accepts g (rh_headers head) | None \<Rightarrow> False)"
      by (auto split: option.splits)
    show ?thesis
    proof (cases "ad_content adm")
      case None
      then show ?thesis using assms outer tok unasked by (simp add: check_def)
    next
      case (Some exempt)
      obtain dec a where c: "content_check lib auth exempt head (dr_auth d) = (dec, a)" by fastforce
      show ?thesis
      proof (cases dec)
        case None
        then have "a = dr_auth d" using c by (auto simp: content_check_def split: prod.splits if_splits)
        then show ?thesis using assms outer tok unasked Some c None by (simp add: check_def)
      next
        case (Some x)
        then show ?thesis using assms outer tok \<open>ad_content adm = Some exempt\<close> c ticket admitted
          by (cases x) (auto simp: check_def)
      qed
    qed
  qed
qed

subsection \<open>The policy behind the seam\<close>

text \<open>What the door keeps of the policy's state: whatever both operations of the trait keep.\<close>

locale content_policy =
  fixes seam :: "int \<Rightarrow> 'a auth_seam"
    and kept :: "'a \<Rightarrow> bool"
  assumes admit_kept: "kept st \<Longrightarrow> kept (snd (as_admit (seam now) rq st))"
    and observe_kept: "kept st \<Longrightarrow> kept (as_observe (seam now) c s n st)"
begin

lemma content_check_kept: "kept st \<Longrightarrow> kept (snd (content_check lib (seam now) exempt head st))"
  using admit_kept [of st now] by (simp add: content_check_def case_prod_unfold Let_def)

lemma check_kept:
  assumes "kept (dr_auth d)"
  shows "kept (dr_auth (snd (check lib (seam now) observe adm head d)))"
proof -
  obtain v d' where c: "check lib (seam now) observe adm head d = (v, d')" by fastforce
  have a: "kept a" if "content_check lib (seam now) exempt head (dr_auth d) = (x, a)" for exempt x a
    using content_check_kept [OF assms, of lib now exempt head] that by simp
  from c have "kept (dr_auth d')"
  proof (cases rule: check_cases)
    case (admitted exempt cr s st)
    then show ?thesis using ceiling_and_cap_cases(1) [OF admitted(4)] a by simp
  next
    case unasked
    then show ?thesis using ceiling_and_cap_cases(1) [OF unasked(2)] assms by simp
  qed (use assms a in auto)
  then show ?thesis using c by simp
qed

lemma charge_kept: "kept (dr_auth d) \<Longrightarrow> kept (dr_auth (account adm (seam now) who n d))"
  by (simp add: account_def observe_kept)

end

definition table_bounded :: "session_table \<Rightarrow> bool" where
  "table_bounded tbl = (hm_wf tbl \<and> length tbl \<le> SESSION_TABLE_CAP)"

lemma hm_del_length: "hm_wf m \<Longrightarrow> map_of m k \<noteq> None \<Longrightarrow> Suc (length (hm_del k m)) = length m"
proof (induction m)
  case (Cons x m)
  then show ?case
  proof (cases "fst x = k")
    case True
    then have "map_of m k = None" using Cons.prems by (auto simp: hm_wf_def map_of_eq_None_iff)
    then show ?thesis using True hm_del_absent [of m k] by (simp add: hm_del_def case_prod_unfold)
  next
    case False
    then show ?thesis using Cons by (auto simp: hm_del_def hm_wf_def case_prod_unfold)
  qed
qed simp

lemma hm_put_length: "length (hm_put k v m) \<le> Suc (length m)"
  by (simp add: hm_put_def hm_del_def)

lemma hm_put_held: "hm_wf m \<Longrightarrow> map_of m k \<noteq> None \<Longrightarrow> length (hm_put k v m) = length m"
  using hm_del_length [of m k] by (simp add: hm_put_def)

lemma dels_length:
  "hm_wf m \<Longrightarrow> distinct (map snd gone) \<Longrightarrow> (\<forall>(_, k)\<in>set gone. map_of m k \<noteq> None) \<Longrightarrow>
     hm_wf (foldl (\<lambda>t (_, k). hm_del k t) m gone) \<and> length (foldl (\<lambda>t (_, k). hm_del k t) m gone) + length gone = length m"
proof (induction gone arbitrary: m)
  case (Cons g gone)
  obtain z k where g: "g = (z, k)" by fastforce
  have "hm_wf (foldl (\<lambda>t (_, k). hm_del k t) (hm_del k m) gone)
      \<and> length (foldl (\<lambda>t (_, k). hm_del k t) (hm_del k m) gone) + length gone = length (hm_del k m)"
    using Cons.prems by (intro Cons.IH) (auto simp: g hm_wf_del image_iff, force?)
  then show ?case using hm_del_length [of m k] Cons.prems by (auto simp: g)
qed simp

lemma sweep_bounded:
  assumes "table_bounded tbl"
  shows "hm_wf (sweep_sessions now tbl) \<and> (length (sweep_sessions now tbl) < SESSION_TABLE_CAP)"
proof -
  define kept where "kept = filter (\<lambda>(_, s). now - sb_last_seen s \<le> SESSION_IDLE_SECS) tbl"
  define order where "order = sort (map (\<lambda>(k, s). (sb_last_seen s, k)) kept)"
  have wf: "hm_wf kept" using assms by (simp add: kept_def table_bounded_def hm_wf_filter)
  have le: "length kept \<le> SESSION_TABLE_CAP" using assms by (auto simp: kept_def table_bounded_def intro: order_trans [OF length_filter_le])
  have ms: "mset (map snd order) = mset (map fst kept)"
  proof -
    have "mset (map snd order) = image_mset snd (mset order)" by simp
    also have "mset order = mset (map (\<lambda>(k, s). (sb_last_seen s, k)) kept)" by (simp only: order_def mset_sort)
    also have "image_mset snd \<dots> = mset (map snd (map (\<lambda>(k, s). (sb_last_seen s, k)) kept))" by (simp only: mset_map)
    also have "map snd (map (\<lambda>(k, s). (sb_last_seen s, k)) kept) = map fst kept" by (simp add: case_prod_unfold)
    finally show ?thesis .
  qed
  have "distinct (map snd order)" using wf by (simp only: mset_eq_imp_distinct_iff [OF ms] hm_wf_def)
  then have d: "distinct (map snd (take n order))" for n by (simp add: take_map [symmetric])
  have "snd ` set (take n order) \<subseteq> fst ` set kept" for n
    using image_mono [OF set_take_subset, of snd n order] mset_eq_setD [OF ms] by simp
  then have "\<forall>(_, k)\<in>set (take n order). map_of kept k \<noteq> None" for n
    by (simp only: map_of_eq_None_iff case_prod_unfold not_not) (blast intro: imageI)
  note D = dels_length [OF wf d this, of "length kept - SESSION_TABLE_CAP + 1"]
  have "length order = length kept" by (simp add: order_def)
  moreover have "hm_wf tbl" using assms by (simp add: table_bounded_def)
  ultimately show ?thesis
    using D le wf by (auto simp: sweep_sessions_def Let_def kept_def [symmetric] order_def [symmetric] SESSION_TABLE_CAP_def)
qed

lemma put_bounded: "hm_wf t \<Longrightarrow> length t < SESSION_TABLE_CAP \<Longrightarrow> table_bounded (hm_put k v t)"
  using hm_put_length [of k v t] by (simp add: table_bounded_def hm_wf_put)

lemma table_admit_bounded: "table_bounded tbl \<Longrightarrow> table_bounded (snd (table_admit key now rps bpm tbl))"
  using sweep_bounded [of tbl now] by (simp add: table_admit_def Let_def case_prod_unfold put_bounded)

lemma table_observe_bounded: "table_bounded tbl \<Longrightarrow> table_bounded (table_observe key now n tbl)"
  by (auto simp: table_observe_def table_bounded_def hm_wf_put hm_put_held split: option.split)

interpretation gate: content_policy "gate_seam cr ul g" table_bounded for cr ul g
proof
  show "table_bounded (snd (as_admit (gate_seam cr ul g now) rq st))" if "table_bounded st" for st now rq
  proof (cases "gate_judge cr ul g rq now")
    case (Inr x)
    obtain v s e where "x = (v, s, e)" by (metis prod_cases3)
    then show ?thesis using Inr table_admit_bounded [OF that, of "budget_key (vr_access_key_id v) s" now "entry_rps g e" "entry_bytes_per_min g e"]
      by (auto simp: gate_seam_def gate_admit_def split: prod.split sum.split)
  qed (use that in \<open>simp add: gate_seam_def gate_admit_def\<close>)
  show "table_bounded (as_observe (gate_seam cr ul g now) c s n st)" if "table_bounded st" for st now c s n
    using that by (simp add: gate_seam_def gate_observe_def table_observe_bounded split: option.split)
qed

subsection \<open>Histories of the door\<close>

datatype door_event = Asked request_head int | Answered front_ctx u64 int

definition door_step ::
  "'n cidr_lib \<Rightarrow> (int \<Rightarrow> 'a auth_seam) \<Rightarrow> (ip_addr \<Rightarrow> 'r \<Rightarrow> int \<times> 'r) \<Rightarrow> 'n admission \<Rightarrow> door_event
     \<Rightarrow> ('a, 'r) door \<Rightarrow> ('a, 'r) door" where
  "door_step lib seam observe adm ev d =
     (case ev of
        Asked head now \<Rightarrow> snd (snd (request_filter lib (seam now) observe adm head new_ctx d))
      | Answered ctx sent now \<Rightarrow> snd (logging adm (seam now) sent ctx d))"

lemma request_filter_door: "snd (snd (request_filter lib auth observe adm head ctx d)) = snd (check lib auth observe adm head d)"
  by (simp add: request_filter_def split: prod.split door_verdict.split)

context content_policy
begin

lemma step_kept: "kept (dr_auth d) \<Longrightarrow> kept (dr_auth (door_step lib seam observe adm ev d))"
  by (cases ev) (simp_all add: door_step_def request_filter_door check_kept logging_def charge_kept split: option.split)

lemma history_kept: "kept (dr_auth d) \<Longrightarrow> kept (dr_auth (fold (door_step lib seam observe adm) evs d))"
  by (induction evs arbitrary: d) (simp_all add: step_kept)

end

text \<open>
  C36: the budget table is bounded whatever comes to the door. After any sequence of requests and of
  answers logged, at any clock readings, under any gate configuration, the table holds at most
  4096 budgets and one per credential and session; it started empty.
\<close>

theorem door_table_bounded:
  "let tbl = dr_auth (fold (door_step lib (gate_seam cr ul g) observe adm) evs \<lparr>dr_auth = [], dr_rate = r\<rparr>)
   in length tbl \<le> SESSION_TABLE_CAP \<and> distinct (map fst tbl)"
  using gate.history_kept [of "\<lparr>dr_auth = [], dr_rate = r\<rparr>" lib cr ul g observe adm evs]
  by (simp add: table_bounded_def hm_wf_def)

subsection \<open>The stamp\<close>

lemma from_options_token:
  assumes "from_options lib opts = Some adm" "fo_origin_token opts = Some (header, v)"
  shows "\<exists>e g. parse_cidrs lib (fo_origin_token_exempt opts) = Some e \<and> token_gate_new lib header v e = Some g \<and> ad_token adm = Some g"
proof -
  obtain e where e: "parse_cidrs lib (fo_origin_token_exempt opts) = Some e"
    using assms by (cases "parse_cidrs lib (fo_origin_token_exempt opts)") (simp_all add: from_options_def)
  obtain g where g: "token_gate_new lib header v e = Some g"
    using assms e by (cases "token_gate_new lib header v e") (simp_all add: from_options_def)
  show ?thesis
    using assms by (auto simp: from_options_def e g split: option.splits if_splits)
qed

lemma token_gate_newD:
  "token_gate_new lib header v e = Some g \<Longrightarrow> tg_value g = as_bytes v \<and> tg_value g \<noteq> [] \<and> tg_exempt g = e
     \<and> cl_header_name lib header = Some (tg_header g)"
  by (auto simp: token_gate_new_def as_bytes_def split: if_splits)

definition unstamped :: "'n cidr_lib \<Rightarrow> 'n list \<Rightarrow> string \<Rightarrow> string \<Rightarrow> request_head \<Rightarrow> bool" where
  "unstamped lib exempt name v head =
     ((\<forall>ip. rh_peer head = Some ip \<longrightarrow> \<not> ip_in_any lib exempt ip) \<and> map_of (rh_headers head) name \<noteq> Some (as_bytes v))"

fun door_answers ::
  "'n cidr_lib \<Rightarrow> (int \<Rightarrow> 'a auth_seam) \<Rightarrow> (ip_addr \<Rightarrow> 'r \<Rightarrow> int \<times> 'r) \<Rightarrow> 'n admission \<Rightarrow> (request_head \<times> int) list
     \<Rightarrow> ('a, 'r) door \<Rightarrow> (nat + unit) list \<times> ('a, 'r) door" where
  "door_answers lib seam observe adm [] d = ([], d)"
| "door_answers lib seam observe adm ((head, now) # rest) d =
     (let (a, ctx, d1) = request_filter lib (seam now) observe adm head new_ctx d;
          (as, d2) = door_answers lib seam observe adm rest d1
      in (a # as, d2))"

lemma unstamped_refused:
  assumes "ad_token adm = Some g" "tg_value g = as_bytes v" "tg_value g \<noteq> []" "unstamped lib (tg_exempt g) (tg_header g) v head"
  shows "request_filter lib auth observe adm head new_ctx d =
     (if is_internal (rh_path head)
      then (Inl 404, new_ctx\<lparr>fc_refusal := Some ''private surface''\<rparr>, d)
      else (Inl 403, new_ctx\<lparr>fc_refusal := Some ''no edge stamp''\<rparr>, d))"
  using assms by (auto simp: request_filter_def check_def unstamped_def token_requires_def token_accepts_def split: option.splits)

text \<open>
  C35: a request without the edge's stamp costs nothing. When the options that built the door set a
  stamp, every request from an address outside the exempt list that does not carry exactly the
  configured bytes is answered 403, or 404 on the private surface; and however many come, at any
  times, the budgets and the rate windows are those from before the first of them. A request with no
  such header is one of these.
\<close>

theorem door_refuses_for_free:
  assumes "from_options lib opts = Some adm" "fo_origin_token opts = Some (header, v)"
    and "cl_header_name lib header = Some name" "parse_cidrs lib (fo_origin_token_exempt opts) = Some exempt"
    and "\<forall>(head, now)\<in>set reqs. unstamped lib exempt name v head"
  shows "door_answers lib seam observe adm reqs d = (map (\<lambda>(head, now). Inl (if is_internal (rh_path head) then 404 else 403)) reqs, d)"
proof -
  obtain g where t: "token_gate_new lib header v exempt = Some g" "ad_token adm = Some g"
    using from_options_token [OF assms(1,2)] assms(4) by auto
  have g: "tg_value g = as_bytes v" "tg_value g \<noteq> []" "tg_exempt g = exempt" "tg_header g = name"
    using token_gate_newD [OF t(1)] assms(3) by auto
  have each: "request_filter lib auth observe adm head new_ctx d =
      (Inl (if is_internal (rh_path head) then 404 else 403),
       new_ctx\<lparr>fc_refusal := Some (if is_internal (rh_path head) then ''private surface'' else ''no edge stamp'')\<rparr>, d)"
    if "unstamped lib exempt name v head" for auth head
    using that by (simp add: unstamped_refused [OF t(2) g(1,2)] g(3,4))
  show ?thesis
    using assms(5)
  proof (induction reqs)
    case (Cons a reqs)
    then show ?case
      by (cases a) (simp add: each)
  qed simp
qed

definition toy_cidr :: "ip_addr cidr_lib" where
  "toy_cidr = \<lparr>cl_parse_net = (\<lambda>_. Some (V4 [127, 0, 0, 1])), cl_host_net = (\<lambda>ip. ip), cl_contains = (=), cl_header_name = Some\<rparr>"

definition toy_front :: front_options where
  "toy_front = \<lparr>fo_ip_allow = [], fo_rate_rps = Some 100, fo_origin_token = Some (''x-edge'', ''stamp''),
     fo_origin_token_exempt = [''127.0.0.1/32''], fo_content_auth = True, fo_content_auth_exempt = []\<rparr>"

definition toy_head :: request_head where
  "toy_head = \<lparr>rh_method = ''GET'', rh_path = ''/film.mkv'', rh_path_and_query = ''/film.mkv?q'', rh_host = Some ''cdn.example'',
     rh_peer = Some (V4 [10, 0, 0, 9]), rh_declared_len = None, rh_headers = []\<rparr>"

definition toy_admission :: "ip_addr admission" where
  "toy_admission = \<lparr>ad_token = Some \<lparr>tg_header = ''x-edge'', tg_value = as_bytes ''stamp'', tg_exempt = [V4 [127, 0, 0, 1]]\<rparr>,
     ad_content = Some [], ad_rate = Some \<lparr>rg_rps = 100, rg_exempt = []\<rparr>\<rparr>"

lemma toy_net: "parse_cidr toy_cidr ''127.0.0.1/32'' = Some (V4 [127, 0, 0, 1])"
  by (simp add: toy_cidr_def parse_cidr_def)

lemma toy_admitted: "from_options toy_cidr toy_front = Some toy_admission"
proof -
  have "token_gate_new toy_cidr ''x-edge'' ''stamp'' [V4 [127, 0, 0, 1]] =
      Some \<lparr>tg_header = ''x-edge'', tg_value = as_bytes ''stamp'', tg_exempt = [V4 [127, 0, 0, 1]]\<rparr>"
    by (simp add: token_gate_new_def toy_cidr_def)
  then show ?thesis
    by (simp only: from_options_def toy_front_def front_options.simps toy_net option.case prod.case option.map if_True
        parse_cidrs.simps toy_admission_def)
qed

theorem door_refuses_for_free_witness:
  "door_answers toy_cidr (gate_seam toy_crypto toy_lib toy_gate) (\<lambda>_ n. (n, n + 1)) toy_admission
     [(toy_head, 0), (toy_head\<lparr>rh_path := ''/_internal/x''\<rparr>, 1)] \<lparr>dr_auth = [], dr_rate = 5\<rparr>
     = ([Inl 403, Inl 404], \<lparr>dr_auth = [], dr_rate = 5\<rparr>)"
  by (subst door_refuses_for_free [OF toy_admitted, where header = "''x-edge''" and name = "''x-edge''" and v = "''stamp''" and exempt = "[V4 [127, 0, 0, 1]]"])
     (simp_all add: toy_front_def toy_net del: One_nat_def, simp_all add: toy_cidr_def unstamped_def ip_in_any_def canonical_ip_def toy_head_def
       is_internal_def INTERNAL_PREFIX_def is_prewarm_def PREWARM_PREFIX_def starts_with_def)

subsection \<open>The body of a prewarm request\<close>

fun forwarded :: "string \<Rightarrow> byte list list \<Rightarrow> front_ctx \<Rightarrow> byte list list \<times> bool" where
  "forwarded path [] ctx = ([], True)"
| "forwarded path (b # bs) ctx =
     (case request_body_filter path (Some b) ctx of
        (Inl status, ctx') \<Rightarrow> ([], False)
      | (Inr _, ctx') \<Rightarrow> (let (out, whole) = forwarded path bs ctx' in (b # out, whole)))"

lemma forwarded_counts:
  assumes "is_prewarm path" "fc_prewarm_body_bytes ctx \<le> PREWARM_MAX_BODY"
  shows "fc_prewarm_body_bytes ctx + length (concat (fst (forwarded path bs ctx))) \<le> PREWARM_MAX_BODY
    \<and> (snd (forwarded path bs ctx) \<longleftrightarrow> fc_prewarm_body_bytes ctx + length (concat bs) \<le> PREWARM_MAX_BODY)
    \<and> (snd (forwarded path bs ctx) \<longrightarrow> fst (forwarded path bs ctx) = bs)"
  using assms(2)
proof (induction bs arbitrary: ctx)
  case (Cons b bs)
  have f: "request_body_filter path (Some b) ctx =
      (let ctx' = ctx\<lparr>fc_prewarm_body_bytes := sat_add (fc_prewarm_body_bytes ctx) (length b)\<rparr>
       in (if fc_prewarm_body_bytes ctx + length b > PREWARM_MAX_BODY then Inl 413 else Inr (), ctx'))"
    using Cons.prems by (auto simp: request_body_filter_def assms(1) prewarm_body_exceeds_def sat_add_def U64_MAX_def PREWARM_MAX_BODY_def Let_def)
  show ?case
  proof (cases "fc_prewarm_body_bytes ctx + length b > PREWARM_MAX_BODY")
    case True
    then show ?thesis using Cons.prems by (simp add: f Let_def)
  next
    case False
    then have "sat_add (fc_prewarm_body_bytes ctx) (length b) = fc_prewarm_body_bytes ctx + length b"
      by (simp add: sat_add_def U64_MAX_def PREWARM_MAX_BODY_def)
    then show ?thesis
      using False Cons.IH [of "ctx\<lparr>fc_prewarm_body_bytes := fc_prewarm_body_bytes ctx + length b\<rparr>"]
      by (auto simp: f Let_def split: prod.splits)
  qed
qed simp

text \<open>
  C0: the cap on a prewarm body holds on the bytes themselves, whatever length the request declared.
  In any sequence of chunks, what passes to the process behind is at most 64 KiB; a body of at most
  64 KiB passes whole and any longer one is cut with the error before the chunk that crosses the cap.
\<close>

theorem prewarm_body_bounded:
  assumes "is_prewarm path"
  shows "length (concat (fst (forwarded path bs new_ctx))) \<le> PREWARM_MAX_BODY
    \<and> (if length (concat bs) \<le> PREWARM_MAX_BODY then forwarded path bs new_ctx = (bs, True)
       else \<not> snd (forwarded path bs new_ctx))"
  using forwarded_counts [OF assms, of new_ctx bs] by (auto simp: new_ctx_def prod_eq_iff)

theorem prewarm_body_bounded_witness:
  "is_prewarm ''/_internal/prewarm/film'' \<and> \<not> snd (forwarded ''/_internal/prewarm/film'' [replicate 65536 0, [1]] new_ctx)
    \<and> forwarded ''/_internal/prewarm/film'' [replicate 65535 0, [1]] new_ctx = ([replicate 65535 0, [1]], True)"
proof -
  have p: "is_prewarm ''/_internal/prewarm/film''"
    by (simp add: is_prewarm_def PREWARM_PREFIX_def starts_with_def)
  show ?thesis
    using prewarm_body_bounded [OF p, of "[replicate 65536 0, [1]]"] prewarm_body_bounded [OF p, of "[replicate 65535 0, [1]]"] p
    by (simp add: PREWARM_MAX_BODY_def)
qed

subsection \<open>A read that is served\<close>

lemma served_asked:
  assumes "check lib auth observe adm head d = (Serve_it who, d')"
    and "ad_content adm = Some exempt" "rh_method head = ''GET'' \<or> rh_method head = ''HEAD''"
    and "\<forall>ip. rh_peer head = Some ip \<longrightarrow> \<not> ip_in_any lib exempt ip"
  shows "\<exists>tenant session a. who = Some \<lparr>id_credential = tenant, id_session = session\<rparr>
     \<and> as_admit auth \<lparr>rq_method = rh_method head, rq_path_and_query = rh_path_and_query head, rq_host = rh_host head\<rparr> (dr_auth d)
         = (Allow tenant session, a)"
  using assms(1)
proof (cases rule: check_cases)
  case (admitted e c s a)
  then show ?thesis
    using ceiling_and_cap_cases(2) [OF admitted(4)] assms(2-4)
    by (auto simp: content_check_def case_prod_unfold Let_def prod_eq_iff split: if_splits)
next
  case unasked
  then show ?thesis
    using unasked(3) [OF assms(2)] assms(3,4) by (auto simp: content_check_def case_prod_unfold Let_def split: option.splits)
qed simp_all

text \<open>
  C34: a read that gets through the door names its tenant truthfully and stays in the tenant's part
  of the key space. With the content gate on and the peer not on its exempt list, a GET or a HEAD that
  is passed on carries, as the identity it will be charged to, a known credential and a well-formed
  session; the request carries the HMAC of itself under that credential's secret, inside a lifetime
  the gate's cap bounds, with the session part of what was signed; and when the tenant has a prefix,
  the object the path resolves to has a cache key under that prefix, and no path segment of it climbs
  out, before or after a further decoding.
\<close>

theorem served_read_confined:
  assumes "request_filter net (gate_seam cr lib g now) observe adm head ctx d = (Inr (), ctx', d')"
    and "ad_content adm = Some exempt" "rh_method head = ''GET'' \<or> rh_method head = ''HEAD''"
    and "\<forall>ip. rh_peer head = Some ip \<longrightarrow> \<not> ip_in_any net exempt ip"
    and "request = \<lparr>rq_method = rh_method head, rq_path_and_query = rh_path_and_query head, rq_host = rh_host head\<rparr>"
  shows "\<exists>tenant e date t region rest signature expires s.
      fc_identity ctx' = Some \<lparr>id_credential = tenant, id_session = Some s\<rparr> \<and> store_lookup (cg_store g) tenant = Some e
      \<and> signature_for cr (ce_secret e) (gate_input lib request)
          (canonical_query (vi_query_pairs (gate_input lib request)) True @ [NL] @ rest) date region signature
      \<and> map_of (vi_query_pairs (gate_input lib request)) SIGNATURE = Some signature
      \<and> to_unix date = Some t \<and> t - 900 \<le> now \<and> now \<le> t + int expires \<and> expires \<le> cg_max_expiry_secs g
      \<and> valid_session s \<and> map_of (vi_query_pairs (gate_input lib request)) SESSION = Some s
      \<and> (\<forall>p key rk. ce_prefix e = Some p \<and> ul_decode_lossy lib (raw_path_of request) = ''/'' @ key
            \<and> resolve_key key routes buckets = Some (Inr rk) \<longrightarrow>
          starts_with (cache_key rk) p \<and> ''..'' \<notin> set (split_on CHR ''/'' (cache_key rk))
          \<and> (\<exists>d. percent_decode (cache_key rk) = Inr d \<and> ''..'' \<notin> set (split_on CHR ''/'' d)))"
proof -
  obtain who d1 where c: "check net (gate_seam cr lib g now) observe adm head d = (Serve_it who, d1)" and w: "fc_identity ctx' = who"
    using assms(1) by (auto simp: request_filter_def split: prod.splits door_verdict.splits)
  obtain tenant session a where who: "who = Some \<lparr>id_credential = tenant, id_session = session\<rparr>"
    and adm: "gate_admit cr lib g request now (dr_auth d) = (Allow tenant session, a)"
    using served_asked [OF c assms(2-4)] assms(5) by (auto simp: gate_seam_def)
  from admitted_read_spec [OF adm, of routes buckets]
  obtain e date t region rest signature expires s where spec:
      "store_lookup (cg_store g) tenant = Some e"
      "signature_for cr (ce_secret e) (gate_input lib request)
          (canonical_query (vi_query_pairs (gate_input lib request)) True @ [NL] @ rest) date region signature"
      "map_of (vi_query_pairs (gate_input lib request)) SIGNATURE = Some signature"
      "to_unix date = Some t" "t - 900 \<le> now" "now \<le> t + int expires" "expires \<le> cg_max_expiry_secs g"
      "session = Some s" "valid_session s" "map_of (vi_query_pairs (gate_input lib request)) SESSION = Some s"
      "\<forall>p key rk. ce_prefix e = Some p \<and> ul_decode_lossy lib (raw_path_of request) = ''/'' @ key
            \<and> resolve_key key routes buckets = Some (Inr rk) \<longrightarrow>
          starts_with (cache_key rk) p \<and> ''..'' \<notin> set (split_on CHR ''/'' (cache_key rk))
          \<and> (\<exists>d. percent_decode (cache_key rk) = Inr d \<and> ''..'' \<notin> set (split_on CHR ''/'' d))"
    by (elim exE conjE)
  show ?thesis
    by (rule exI[of _ tenant], rule exI[of _ e], rule exI[of _ date], rule exI[of _ t], rule exI[of _ region], rule exI[of _ rest],
        rule exI[of _ signature], rule exI[of _ expires], rule exI[of _ s], intro conjI)
       (simp add: w who spec(8), (rule spec)+)
qed

lemma toy_read_admitted:
  "\<exists>tbl. gate_admit toy_crypto toy_lib toy_gate toy_read 1369353600 [] = (Allow ''AKID'' (Some ''s1''), tbl)"
proof -
  have "entry_rps toy_gate (toy_entry\<lparr>ce_prefix := Some ''film''\<rparr>) = 30"
    "entry_bytes_per_min toy_gate (toy_entry\<lparr>ce_prefix := Some ''film''\<rparr>) = 1073741824"
    by (simp_all add: entry_rps_def entry_bytes_per_min_def toy_entry_def toy_gate_def gate_new_def sat_mul_def U64_MAX_def)
  moreover have "fst (table_admit k now 30 1073741824 []) = Inr ()" for k now
    by (simp add: table_admit_def sweep_sessions_def SESSION_TABLE_CAP_def Let_def sliding_used_def sliding_prune_def sliding_new_def)
  ultimately have "fst (gate_admit toy_crypto toy_lib toy_gate toy_read 1369353600 []) = Allow ''AKID'' (Some ''s1'')"
    by (simp add: gate_admit_def toy_read_judged split: prod.split sum.split) (metis fst_conv sum.distinct(1))
  then show ?thesis
    by (metis prod.collapse)
qed

definition toy_stamped :: request_head where
  "toy_stamped = toy_head\<lparr>rh_headers := [(''x-edge'', as_bytes ''stamp'')]\<rparr>"

lemma toy_served:
  "\<exists>d'. request_filter toy_cidr (gate_seam toy_crypto toy_lib toy_gate 1369353600) (\<lambda>_ n. (n, n + 1)) toy_admission toy_stamped
      new_ctx \<lparr>dr_auth = [], dr_rate = 5\<rparr> = (Inr (), new_ctx\<lparr>fc_identity := Some \<lparr>id_credential = ''AKID'', id_session = Some ''s1''\<rparr>\<rparr>, d')"
proof -
  obtain tbl where a: "gate_admit toy_crypto toy_lib toy_gate
      \<lparr>rq_method = ''GET'', rq_path_and_query = ''/film.mkv?q'', rq_host = Some ''cdn.example''\<rparr> 1369353600 [] = (Allow ''AKID'' (Some ''s1''), tbl)"
    using toy_read_admitted by (auto simp: toy_read_def)
  show ?thesis
    by (simp add: request_filter_def check_def toy_stamped_def toy_head_def toy_admission_def token_requires_def token_accepts_def
        is_internal_def INTERNAL_PREFIX_def is_prewarm_def PREWARM_PREFIX_def starts_with_def content_check_def gate_seam_def a
        ceiling_and_cap_def rate_exceeds_def ip_in_any_def Let_def)
qed

theorem served_read_confined_witness:
  "\<exists>e date t region rest signature expires.
      store_lookup (cg_store toy_gate) ''AKID'' = Some e
      \<and> signature_for toy_crypto (ce_secret e) (gate_input toy_lib toy_read)
          (canonical_query (vi_query_pairs (gate_input toy_lib toy_read)) True @ [NL] @ rest) date region signature
      \<and> map_of (vi_query_pairs (gate_input toy_lib toy_read)) SIGNATURE = Some signature
      \<and> to_unix date = Some t \<and> t - 900 \<le> 1369353600 \<and> 1369353600 \<le> t + int expires
      \<and> expires \<le> cg_max_expiry_secs toy_gate
      \<and> starts_with ''film.mkv'' ''film'' \<and> ''..'' \<notin> set (split_on CHR ''/'' ''film.mkv'')"
proof -
  obtain d' where served: "request_filter toy_cidr (gate_seam toy_crypto toy_lib toy_gate 1369353600) (\<lambda>_ n. (n, n + 1))
      toy_admission toy_stamped new_ctx \<lparr>dr_auth = [], dr_rate = 5\<rparr>
      = (Inr (), new_ctx\<lparr>fc_identity := Some \<lparr>id_credential = ''AKID'', id_session = Some ''s1''\<rparr>\<rparr>, d')"
    using toy_served by blast
  have open_door: "ad_content toy_admission = Some []" "\<forall>ip. rh_peer toy_stamped = Some ip \<longrightarrow> \<not> ip_in_any toy_cidr [] ip"
    by (simp_all add: toy_admission_def ip_in_any_def)
  have head: "rh_method toy_stamped = ''GET'' \<or> rh_method toy_stamped = ''HEAD''"
    "toy_read = \<lparr>rq_method = rh_method toy_stamped, rq_path_and_query = rh_path_and_query toy_stamped, rq_host = rh_host toy_stamped\<rparr>"
    by (simp_all add: toy_stamped_def toy_head_def toy_read_def)
  have resolved: "resolve_key ''film.mkv'' [\<lparr>rr_prefix = [], rr_upstream = ''u''\<rparr>] []
      = Some (Inr \<lparr>cache_key = ''film.mkv'', backend_key = ''film.mkv'', upstream_id = ''u''\<rparr>)"
    by code_simp
  have path: "ul_decode_lossy toy_lib (raw_path_of toy_read) = ''/'' @ ''film.mkv''"
    by (simp add: toy_lib_def toy_read_def raw_path_of_def)
  have prefix: "ce_prefix e = Some ''film''" if "store_lookup (cg_store toy_gate) ''AKID'' = Some e" for e
    using that by (auto simp: toy_gate_def gate_new_def store_lookup_def)
  from served_read_confined [OF served open_door(1) head(1) open_door(2) head(2), where buckets = "[]"
      and routes = "[\<lparr>rr_prefix = [], rr_upstream = ''u''\<rparr>]"]
  obtain e date t region rest signature expires where a:
    "store_lookup (cg_store toy_gate) ''AKID'' = Some e"
    "signature_for toy_crypto (ce_secret e) (gate_input toy_lib toy_read)
       (canonical_query (vi_query_pairs (gate_input toy_lib toy_read)) True @ [NL] @ rest) date region signature"
    "map_of (vi_query_pairs (gate_input toy_lib toy_read)) SIGNATURE = Some signature"
    "to_unix date = Some t" "t - 900 \<le> 1369353600" "1369353600 \<le> t + int expires" "expires \<le> cg_max_expiry_secs toy_gate"
    and conf: "\<forall>p key rk. ce_prefix e = Some p \<and> ul_decode_lossy toy_lib (raw_path_of toy_read) = ''/'' @ key
       \<and> resolve_key key [\<lparr>rr_prefix = [], rr_upstream = ''u''\<rparr>] [] = Some (Inr rk) \<longrightarrow>
       starts_with (cache_key rk) p \<and> ''..'' \<notin> set (split_on CHR ''/'' (cache_key rk))
       \<and> (\<exists>d. percent_decode (cache_key rk) = Inr d \<and> ''..'' \<notin> set (split_on CHR ''/'' d))"
    by auto
  have "starts_with ''film.mkv'' ''film'' \<and> ''..'' \<notin> set (split_on CHR ''/'' ''film.mkv'')"
    using conf[rule_format, OF conjI[OF prefix[OF a(1)] conjI[OF path resolved]]] by simp
  with a show ?thesis
    by blast
qed

end
