(* ===== verification/Business.thy ===== *)
theory Business
  imports Listing Upkeep
begin

text \<open>
  The request handlers, \<^verbatim>\<open>src/business.rs\<close>: the signature gate, GET and HEAD of an object, the
  renderings of an answer, the prewarm call and the health view.

  A request comes with its path parameter already extracted; the routing of paths to handlers is
  \<^verbatim>\<open>axum\<close>'s. A response is \<open>None\<close> when the handler panics. A GET that waits for a flight meets
  what the others do meanwhile: the fields \<open>rx_meanwhile\<close>, \<open>rx_progress\<close> and \<open>rx_end\<close>, as in
  \<open>serve_answer\<close>. The test of a header value is the \<^verbatim>\<open>http\<close> crate's, \<open>ev_header_ok\<close>.
\<close>

subsection \<open>What a handler sees\<close>

record http_request =
  hq_path_key :: string
  hq_raw_path :: string
  hq_query :: "string option"
  hq_headers :: "(string \<times> string option) list"

definition header_text :: "http_request \<Rightarrow> string \<Rightarrow> string option" where
  "header_text rq name = (case map_of (hq_headers rq) name of Some v \<Rightarrow> v | None \<Rightarrow> None)"

record app_state =
  ap_config :: config
  ap_sigv4_store :: "credential_store option"
  ap_token_key :: "byte list"

record crates =
  ct_crypto :: crypto
  ct_url :: url_lib
  ct_list :: list_lib
  ct_percent :: "string \<Rightarrow> string"
  ct_range :: "string \<Rightarrow> (start_position \<times> end_position) list option"

record run_time =
  rx_seq :: u64
  rx_nanos :: "128 word"
  rx_unix :: int
  rx_env :: serve_env
  rx_env_after :: serve_env
  rx_meanwhile :: "cache_world \<Rightarrow> cache_world"
  rx_progress :: "flight_progress list"
  rx_end :: wait_end
  rx_walk :: "string \<Rightarrow> string \<Rightarrow> bool \<Rightarrow> backend_error + list_entry list"

record app_world =
  aw_cache :: cache_world
  aw_listings :: listing_cache

definition rx_ok :: "run_time \<Rightarrow> string \<Rightarrow> bool" where
  "rx_ok rt = ev_header_ok (rx_env rt)"

definition rx_ids :: "run_time \<Rightarrow> string \<times> string" where
  "rx_ids rt = request_ids (rx_seq rt) (rx_nanos rt)"

subsection \<open>The signature gate\<close>

fun has_text :: "string \<Rightarrow> string \<Rightarrow> bool" where
  "has_text [] p = (p = [])"
| "has_text (c # cs) p = (starts_with (c # cs) p \<or> has_text cs p)"

definition sigv4_refusal :: "(string \<Rightarrow> bool) \<Rightarrow> string \<Rightarrow> string \<Rightarrow> string \<Rightarrow> response option" where
  "sigv4_refusal ok raw_uri_path req_id host_id =
     with_body (Xml_body (s3_error_xml ''AccessDenied'' ''Access Denied'' (''/'' @ raw_uri_path) req_id host_id))
       (with_header ok ''x-amz-id-2'' host_id
       (with_header ok ''x-amz-request-id'' req_id
       (with_header ok ''cache-control'' ''no-store''
       (with_header ok ''content-type'' ''application/xml'' (new_response 403)))))"

definition gate_request :: "url_lib \<Rightarrow> string \<Rightarrow> http_request \<Rightarrow> verify_req" where
  "gate_request lib meth rq =
     verify_input meth (ul_decode_lossy lib (hq_raw_path rq)) (hq_raw_path rq)
       (case hq_query rq of Some q \<Rightarrow> ul_form_parse lib q | None \<Rightarrow> []) None (Some (hq_headers rq))"

text \<open>\<open>None\<close>: the request passes.\<close>

definition sigv4_gate ::
  "(string \<Rightarrow> bool) \<Rightarrow> crypto \<Rightarrow> url_lib \<Rightarrow> credential_store option \<Rightarrow> string \<Rightarrow> http_request \<Rightarrow> string \<Rightarrow> string \<Rightarrow> int
     \<Rightarrow> response option option" where
  "sigv4_gate ok cr lib store meth rq req_id host_id now =
     (let authorization = header_text rq ''authorization'';
          has_presign = (case hq_query rq of Some q \<Rightarrow> has_text q ''X-Amz-Signature'' | None \<Rightarrow> False)
      in if store = None \<or> (authorization = None \<and> \<not> has_presign) then None
         else case verify_optional cr store (gate_request lib meth rq) now of
                Anonymous \<Rightarrow> None
              | Verified _ \<Rightarrow> None
              | verify_outcome.Failed _ \<Rightarrow> Some (sigv4_refusal ok (hq_raw_path rq) req_id host_id))"

subsection \<open>Renderings\<close>

definition redirect_response :: "(string \<Rightarrow> bool) \<Rightarrow> string \<Rightarrow> string \<Rightarrow> string \<Rightarrow> response option" where
  "redirect_response ok location req_id host_id =
     with_header ok ''x-amz-id-2'' host_id
       (with_header ok ''x-amz-request-id'' req_id
       (with_header ok ''cache-control'' ''no-store''
       (with_header ok ''location'' location (new_response 307))))"

definition STALE_WARNING :: string where
  "STALE_WARNING = ''110 - '' @ [DQ] @ ''Response is Stale'' @ [DQ]"

text \<open>A number is always a header value.\<close>

definition length_header :: "u64 option \<Rightarrow> response option \<Rightarrow> response option" where
  "length_header len b = with_header_opt (\<lambda>_. True) ''content-length'' (map_option show_nat len) b"

definition stream_response :: "(string \<Rightarrow> bool) \<Rightarrow> stream_plan_rec \<Rightarrow> string \<Rightarrow> string \<Rightarrow> response option" where
  "stream_response ok plan req_id host_id =
     (let b1 = with_header_opt ok ''content-range'' (map_option header_value (pl_content_range plan)) (new_response (pl_status plan));
          b2 = s3_meta_headers ok (pl_meta plan) req_id host_id (length_header (pl_content_length plan) b1);
          b3 = (if pl_stale plan then with_header ok ''warning'' STALE_WARNING b2 else b2)
      in with_body (Stream_body (pl_body plan)) b3)"

subsection \<open>GET\<close>

text \<open>A suffix needs the size first; everything else goes down unresolved. \<open>Inl\<close> is an answer.\<close>

definition range_of_get ::
  "crates \<Rightarrow> config \<Rightarrow> run_time \<Rightarrow> resolved_key \<Rightarrow> client_range \<Rightarrow> cache_world
     \<Rightarrow> (response option + byte_range option) \<times> cache_world" where
  "range_of_get ct cfg rt rk parsed w =
     (let (req_id, host_id) = rx_ids rt;
          refuse = (\<lambda>e hint. error_response (rx_ok rt) (ct_percent ct) e (cache_key rk) req_id host_id False hint)
      in case parsed of
           Absent \<Rightarrow> (Inr None, w)
         | Single r \<Rightarrow> (Inr (Some r), w)
         | Multi \<Rightarrow> (Inl None, w)
         | Suffix n \<Rightarrow>
             (case head_resolved cfg (rx_env rt) rk w of
                (Inl e, w1) \<Rightarrow> (Inl (refuse e None), w1)
              | (Inr m, w1) \<Rightarrow>
                  (case resolve parsed (ht_size m) of
                     Span off len \<Rightarrow> (Inr (Some (bounded off len)), w1)
                   | _ \<Rightarrow> (Inl (refuse RangeNotSatisfiable (Some (ht_size m))), w1))))"

definition answer_of ::
  "crates \<Rightarrow> run_time \<Rightarrow> resolved_key \<Rightarrow> (backend_error + serve_outcome) \<times> cache_world \<Rightarrow> response option \<times> cache_world" where
  "answer_of ct rt rk a =
     (let (req_id, host_id) = rx_ids rt
      in case a of
           (Inr (Redirect_to url), w) \<Rightarrow> (redirect_response (rx_ok rt) url req_id host_id, w)
         | (Inr (Stream plan), w) \<Rightarrow> (stream_response (rx_ok rt) plan req_id host_id, w)
         | (Inl e, w) \<Rightarrow>
             (error_response (rx_ok rt) (ct_percent ct) e (cache_key rk) req_id host_id False (memory_size (cache_key rk) w), w))"

definition serve_for ::
  "config \<Rightarrow> run_time \<Rightarrow> resolved_key \<Rightarrow> byte_range option \<Rightarrow> cache_world \<Rightarrow> (backend_error + serve_outcome) \<times> cache_world" where
  "serve_for cfg rt rk rng w =
     serve_answer cfg (rx_env rt) (rx_env_after rt) rk rng (rx_meanwhile rt) (rx_progress rt) (rx_end rt) w"

definition get_object ::
  "crates \<Rightarrow> config \<Rightarrow> run_time \<Rightarrow> resolved_key \<Rightarrow> http_request \<Rightarrow> cache_world \<Rightarrow> response option \<times> cache_world" where
  "get_object ct cfg rt rk rq w =
     (let (req_id, host_id) = rx_ids rt;
          unreadable = error_response (rx_ok rt) (ct_percent ct) RangeNotSatisfiable (cache_key rk) req_id host_id False
                         (memory_size (cache_key rk) w)
      in case parse (ct_range ct) (header_text rq ''range'') of
           Inl Index_panic \<Rightarrow> (None, w)
         | Inl Malformed \<Rightarrow> (unreadable, w)
         | Inr parsed \<Rightarrow>
             if parsed = Multi then (unreadable, w)
             else case range_of_get ct cfg rt rk parsed w of
                    (Inl r, w1) \<Rightarrow> (r, w1)
                  | (Inr rng, w1) \<Rightarrow> answer_of ct rt rk (serve_for cfg rt rk rng w1))"

definition get_key_inner ::
  "crates \<Rightarrow> app_state \<Rightarrow> run_time \<Rightarrow> http_request \<Rightarrow> app_world \<Rightarrow> response option \<times> app_world" where
  "get_key_inner ct ap rt rq w =
     (let (req_id, host_id) = rx_ids rt; cfg = ap_config ap
      in case sigv4_gate (rx_ok rt) (ct_crypto ct) (ct_url ct) (ap_sigv4_store ap) ''GET'' rq req_id host_id (rx_unix rt) of
           Some r \<Rightarrow> (r, w)
         | None \<Rightarrow>
             (case try_list (rx_ok rt) (ct_crypto ct) (ct_list ct) (ap_token_key ap) cfg (rx_env rt) (rx_walk rt)
                     (hq_path_key rq) (hq_query rq) req_id host_id (aw_listings w) of
                (Some r, rows) \<Rightarrow> (r, w\<lparr>aw_listings := rows\<rparr>)
              | (None, rows) \<Rightarrow>
                  (let w0 = w\<lparr>aw_listings := rows\<rparr>
                   in case resolve_key (hq_path_key rq) (routes cfg) (ev_backends (rx_env rt)) of
                        None \<Rightarrow> (None, w0)
                      | Some (Inl _) \<Rightarrow>
                          (invalid_key_response (rx_ok rt) (ct_percent ct) (hq_path_key rq) req_id host_id False, w0)
                      | Some (Inr rk) \<Rightarrow>
                          (let (r, c) = get_object ct cfg rt rk rq (aw_cache w0) in (r, w0\<lparr>aw_cache := c\<rparr>)))))"

subsection \<open>HEAD\<close>

definition head_object ::
  "crates \<Rightarrow> config \<Rightarrow> run_time \<Rightarrow> resolved_key \<Rightarrow> http_request \<Rightarrow> cache_world \<Rightarrow> response option \<times> cache_world" where
  "head_object ct cfg rt rk rq w =
     (let (req_id, host_id) = rx_ids rt;
          refuse = (\<lambda>e hint. error_response (rx_ok rt) (ct_percent ct) e (cache_key rk) req_id host_id True hint);
          unreadable = refuse RangeNotSatisfiable (memory_size (cache_key rk) w)
      in case parse (ct_range ct) (header_text rq ''range'') of
           Inl Index_panic \<Rightarrow> (None, w)
         | Inl Malformed \<Rightarrow> (unreadable, w)
         | Inr parsed \<Rightarrow>
             if parsed = Multi then (unreadable, w)
             else case head_resolved cfg (rx_env rt) rk w of
                    (Inl e, w1) \<Rightarrow> (refuse e None, w1)
                  | (Inr m, w1) \<Rightarrow>
                      (let ok200 = (\<lambda>len cr.
                             with_body No_body (s3_meta_headers (rx_ok rt) m req_id host_id
                               (length_header (Some len)
                                 (with_header_opt (rx_ok rt) ''content-range'' (map_option header_value cr) (new_response 200)))))
                       in case resolve parsed (ht_size m) of
                            Whole \<Rightarrow> (ok200 (ht_size m) None, w1)
                          | Span off len \<Rightarrow> (ok200 len (for_span (ht_size m) off (add64 off len) True), w1)
                          | Unsatisfiable \<Rightarrow> (refuse RangeNotSatisfiable (Some (ht_size m)), w1)))"

definition head_key_inner ::
  "crates \<Rightarrow> app_state \<Rightarrow> run_time \<Rightarrow> http_request \<Rightarrow> app_world \<Rightarrow> response option \<times> app_world" where
  "head_key_inner ct ap rt rq w =
     (let (req_id, host_id) = rx_ids rt; cfg = ap_config ap
      in case sigv4_gate (rx_ok rt) (ct_crypto ct) (ct_url ct) (ap_sigv4_store ap) ''HEAD'' rq req_id host_id (rx_unix rt) of
           Some r \<Rightarrow> (r, w)
         | None \<Rightarrow>
             (case resolve_key (hq_path_key rq) (routes cfg) (ev_backends (rx_env rt)) of
                None \<Rightarrow> (None, w)
              | Some (Inl _) \<Rightarrow>
                  (invalid_key_response (rx_ok rt) (ct_percent ct) (hq_path_key rq) req_id host_id True, w)
              | Some (Inr rk) \<Rightarrow>
                  (let (r, c) = head_object ct cfg rt rk rq (aw_cache w) in (r, w\<lparr>aw_cache := c\<rparr>))))"

subsection \<open>Prewarm\<close>

text \<open>
  The second component is the fetch it spawns; \<open>env\<close> is the process environment and
  \<open>secret_env\<close> the configured name of the shared secret.
\<close>

definition prewarm ::
  "(string \<Rightarrow> string option) \<Rightarrow> string option \<Rightarrow> config \<Rightarrow> run_time \<Rightarrow> http_request \<Rightarrow> cache_world
     \<Rightarrow> response option \<times> resolved_key option" where
  "prewarm env secret_env cfg rt rq w =
     (let expected = (case secret_env of Some n \<Rightarrow> (case env n of Some v \<Rightarrow> v | None \<Rightarrow> []) | None \<Rightarrow> []);
          got = (case header_text rq ''x-prewarm-token'' of Some v \<Rightarrow> v | None \<Rightarrow> [])
      in if secret_env \<noteq> None \<and> (expected = [] \<or> \<not> constant_time_eq (as_bytes got) (as_bytes expected))
         then (Some (json_response 401 [(''error'', ''unauthorized'')]), None)
         else case resolve_key (hq_path_key rq) (routes cfg) (ev_backends (rx_env rt)) of
                None \<Rightarrow> (None, None)
              | Some (Inl _) \<Rightarrow> (Some (json_response 400 [(''error'', ''invalid key'')]), None)
              | Some (Inr rk) \<Rightarrow>
                  if entry_exists (cache_key rk) w then (Some (json_response 200 [(''status'', ''hit'')]), None)
                  else (Some (json_response 202 [(''status'', ''accepted'')]), Some rk))"

subsection \<open>Health\<close>

definition key_param :: "url_lib \<Rightarrow> string \<Rightarrow> string option" where
  "key_param lib query = nonempty (query_get (ul_form_parse lib query) ''key'')"

text \<open>What the snapshot takes from the startup: where a quarantined store went and the rows rebuilt.\<close>

record boot_report =
  br_quarantined :: "string option"
  br_rebuilt_rows :: nat
  br_prewarm_inflight :: nat

record upstream_view =
  uv_id :: string
  uv_profile :: string
  uv_cold_miss :: cold_miss_mode
  uv_sigv4_layer :: bool

record health =
  he_status :: string
  he_degraded :: bool
  he_reasons :: "string list"
  he_snapshot :: cache_snapshot
  he_report :: boot_report
  he_sigv4_enabled :: bool
  he_upstreams :: "upstream_view list"
  he_key :: "key_state option"

definition degraded_reasons :: "cache_snapshot \<Rightarrow> boot_report \<Rightarrow> string list" where
  "degraded_reasons snap rep =
     (if br_quarantined rep \<noteq> None then [''metadata_store_quarantined''] else [])
     @ (if br_rebuilt_rows rep > 0 then [''metadata_rows_rebuilt''] else [])
     @ (case sn_disk_free_bytes snap of Some free \<Rightarrow> if free < sn_disk_reserve_bytes snap then [''disk_below_reserve''] else []
        | None \<Rightarrow> [])"

definition healthz ::
  "url_lib \<Rightarrow> app_state \<Rightarrow> boot_report \<Rightarrow> serve_env \<Rightarrow> string option \<Rightarrow> cache_world \<Rightarrow> nat \<times> health" where
  "healthz lib ap rep ev query w =
     (let key_view = map_option (\<lambda>key. inspect key (ev_now ev) w) (Option.bind query (key_param lib));
          snap = cache_snapshot_of ev w;
          ups = map (\<lambda>u. \<lparr>uv_id = u_id u,
                   uv_profile = (if ep_nocache (cache_profile (ap_config ap) (u_id u)) then ''nocache'' else ''efficient''),
                   uv_cold_miss = u_cold_miss u, uv_sigv4_layer = (ap_sigv4_store ap \<noteq> None)\<rparr>) (upstreams (ap_config ap));
          reasons = degraded_reasons snap rep
      in (200, \<lparr>he_status = (if reasons \<noteq> [] then ''degraded'' else ''ok''), he_degraded = (reasons \<noteq> []), he_reasons = reasons,
               he_snapshot = snap, he_report = rep, he_sigv4_enabled = (ap_sigv4_store ap \<noteq> None), he_upstreams = ups,
               he_key = key_view\<rparr>))"

subsection \<open>Builders\<close>

definition append_headers :: "(string \<Rightarrow> bool) \<Rightarrow> (string \<times> string) list \<Rightarrow> response option \<Rightarrow> response option" where
  "append_headers ok hs r =
     (case r of
        Some x \<Rightarrow> if list_all (\<lambda>(_, v). ok v) hs then Some (x\<lparr>rs_headers := rs_headers x @ hs\<rparr>) else None
      | None \<Rightarrow> None)"

definition opt_line :: "string \<Rightarrow> string option \<Rightarrow> (string \<times> string) list" where
  "opt_line name v = (case v of Some x \<Rightarrow> [(name, x)] | None \<Rightarrow> [])"

lemma opt_line_simps [simp]: "opt_line n None = []" "opt_line n (Some x) = [(n, x)]"
  by (simp_all add: opt_line_def)

lemma with_header_append: "with_header ok n v r = append_headers ok [(n, v)] r"
  by (simp add: with_header_def append_headers_def split: option.split)

lemma with_header_opt_append: "with_header_opt ok n v r = append_headers ok (opt_line n v) r"
  by (simp add: with_header_opt_def with_header_def append_headers_def opt_line_def split: option.split)

lemma append_append [simp]: "append_headers ok b (append_headers ok a r) = append_headers ok (a @ b) r"
  by (simp add: append_headers_def split: option.split)

lemmas builder = with_header_append with_header_opt_append length_header_def new_response_def with_body_def

definition meta_lines :: "hit_meta \<Rightarrow> string \<Rightarrow> string \<Rightarrow> (string \<times> string) list" where
  "meta_lines m req_id host_id =
     [(''accept-ranges'', ''bytes''), (''x-amz-request-id'', req_id), (''x-amz-id-2'', host_id),
      (''cache-control'', ''public, max-age=31536000, immutable''),
      (''content-type'', case ht_content_type m of Some ct \<Rightarrow> ct | None \<Rightarrow> ''binary/octet-stream'')]
     @ opt_line ''etag'' (map_option quote_etag (ht_etag m)) @ opt_line ''last-modified'' (ht_last_modified m)"

lemma s3_meta_append: "s3_meta_headers ok m req_id host_id r = append_headers ok (meta_lines m req_id host_id) r"
  by (simp add: s3_meta_headers_def Let_def builder meta_lines_def)

definition answer_lines :: "content_range option \<Rightarrow> u64 option \<Rightarrow> hit_meta \<Rightarrow> string \<Rightarrow> string \<Rightarrow> (string \<times> string) list" where
  "answer_lines cr len m req_id host_id =
     opt_line ''content-range'' (map_option header_value cr) @ opt_line ''content-length'' (map_option show_nat len)
     @ meta_lines m req_id host_id"

definition presentable :: "(string \<Rightarrow> bool) \<Rightarrow> content_range option \<Rightarrow> hit_meta \<Rightarrow> string \<Rightarrow> string \<Rightarrow> bool" where
  "presentable ok cr m req_id host_id =
     (list_all (\<lambda>(_, v). ok v) (opt_line ''content-range'' (map_option header_value cr)) \<and> list_all (\<lambda>(_, v). ok v) (meta_lines m req_id host_id))"

lemma rendered:
  "s3_meta_headers ok m req_id host_id (length_header len
       (with_header_opt ok ''content-range'' (map_option header_value cr) (new_response st)))
   = (if presentable ok cr m req_id host_id
      then Some \<lparr>rs_status = st, rs_headers = answer_lines cr len m req_id host_id, rs_body = No_body\<rparr> else None)"
  by (cases len; cases cr) (simp_all add: s3_meta_append builder append_headers_def presentable_def answer_lines_def)

lemma stream_response_Some:
  assumes "stream_response ok p req_id host_id = Some r"
  shows "rs_status r = pl_status p \<and> rs_body r = Stream_body (pl_body p)
    \<and> rs_headers r = answer_lines (pl_content_range p) (pl_content_length p) (pl_meta p) req_id host_id
        @ (if pl_stale p then [(''warning'', STALE_WARNING)] else [])"
  using assms by (auto simp: stream_response_def Let_def rendered with_header_def with_body_def split: if_splits)

lemma meta_lines_names: "fst ` set (meta_lines m a b) \<inter> {''content-range'', ''content-length''} = {}"
  by (auto simp: meta_lines_def opt_line_def split: option.splits)

lemma answer_headers:
  "map_of (answer_lines cr len m a b) ''content-range'' = map_option header_value cr"
  "map_of (answer_lines cr len m a b) ''content-length'' = map_option show_nat len"
proof -
  have "map_of (meta_lines m a b) ''content-range'' = None" "map_of (meta_lines m a b) ''content-length'' = None"
    using meta_lines_names [of m a b] by (auto simp: map_of_eq_None_iff)
  then show "map_of (answer_lines cr len m a b) ''content-range'' = map_option header_value cr"
    "map_of (answer_lines cr len m a b) ''content-length'' = map_option show_nat len"
    by (simp_all add: answer_lines_def opt_line_def map_add_def split: option.split)
qed

subsection \<open>A GET that streams\<close>

lemma range_of_get_Suffix:
  assumes "range_of_get ct cfg rt rk (Suffix k) w = (Inr rng, w1)"
  shows "\<exists>m v off len. head_resolved cfg (rx_env rt) rk w = (Inr m, v) \<and> resolve (Suffix k) (ht_size m) = Span off len
     \<and> rng = Some (bounded off len) \<and> w1 = v"
proof -
  obtain h v where h: "head_resolved cfg (rx_env rt) rk w = (h, v)" by fastforce
  show ?thesis
  proof (cases h)
    case (Inr m)
    then show ?thesis
      using assms h by (cases "resolve (Suffix k) (ht_size m)") (simp_all add: range_of_get_def case_prod_unfold Let_def del: resolve.simps)
  qed (use assms h in \<open>simp add: range_of_get_def case_prod_unfold Let_def\<close>)
qed

lemma range_of_get_exact:
  assumes "range_of_get ct cfg rt rk cr w = (Inr rng, w1)" "exact_range cr" "n < 2 ^ 64"
    and "\<And>k m v. cr = Suffix k \<Longrightarrow> head_resolved cfg (rx_env rt) rk w = (Inr m, v) \<Longrightarrow> ht_size m = n"
    and "resolve_byte_range rng n = Some (s, e)"
  shows "sane_range rng \<and> requested_bytes cr n = {s..<e} \<and> (rng = None \<longleftrightarrow> cr = Absent)
    \<and> resolve cr n = (if cr = Absent then Whole else Span s (e - s))"
proof (cases cr)
  case (Single r)
  then have rng: "rng = Some r" using assms(1) by (simp add: range_of_get_def case_prod_unfold Let_def)
  obtain off len where sp: "resolve cr n = Span off len"
    using assms(5) Single rng by (cases "resolve cr n") (auto simp: resolve_byte_range_def simp del: resolve.simps)
  then have "s = off" "e = add64 off len" using assms(5) Single rng by (auto simp: resolve_byte_range_def simp del: resolve.simps)
  moreover from resolve_bytes [OF assms(2) sp] have "requested_bytes cr n = {off..<off + len}" "off + len \<le> n" by simp_all
  ultimately show ?thesis using assms(2,3) Single rng sp by (simp add: sane_range_def del: resolve.simps)
next
  case (Suffix k)
  obtain m v off len where h: "head_resolved cfg (rx_env rt) rk w = (Inr m, v)" and sp: "resolve cr (ht_size m) = Span off len"
    and rng: "rng = Some (bounded off len)"
    using range_of_get_Suffix assms(1) Suffix by blast
  have size: "ht_size m = n" using assms(4) Suffix h by blast
  have b: "requested_bytes cr n = {off..<off + len}" "0 < len" "off + len \<le> n"
    using resolve_bytes [OF assms(2) sp] size by simp_all
  then have "resolve_byte_range rng n = Some (off, off + len)"
    using bounded_resolves [of off "off + len" n] assms(3) rng by simp
  then have "s = off" "e = off + len" using assms(5) by simp_all
  then show ?thesis using b assms(3) sp size by (simp add: rng Suffix sane_range_def bounded_def del: resolve.simps)
qed (use assms in \<open>auto simp: range_of_get_def case_prod_unfold Let_def resolve_byte_range_def sane_range_def\<close>)


lemma range_of_get_sane:
  assumes "range_of_get ct cfg rt rk cr w = (Inr rng, w1)" "exact_range cr" "n < 2 ^ 64"
    and "\<And>k m v. cr = Suffix k \<Longrightarrow> head_resolved cfg (rx_env rt) rk w = (Inr m, v) \<Longrightarrow> ht_size m = n"
  shows "sane_range rng"
proof (cases cr)
  case (Suffix k)
  obtain m v off len where h: "head_resolved cfg (rx_env rt) rk w = (Inr m, v)" and sp: "resolve cr (ht_size m) = Span off len"
    and rng: "rng = Some (bounded off len)"
    using range_of_get_Suffix assms(1) Suffix by blast
  have "0 < len" "off + len \<le> n" using resolve_bytes [OF assms(2) sp] assms(4) [OF Suffix h] by simp_all
  then show ?thesis using assms(3) by (simp add: rng sane_range_def bounded_def)
qed (use assms in \<open>auto simp: range_of_get_def case_prod_unfold Let_def sane_range_def\<close>)

lemma get_object_streams:
  assumes "get_object ct cfg rt rk rq w = (Some r, w')" "parse (ct_range ct) (header_text rq ''range'') = Inr cr"
    and "range_of_get ct cfg rt rk cr w = (Inr rng, w1)" "serve_for cfg rt rk rng w1 = (Inr (Stream p), w2)"
  shows "w' = w2 \<and> cr \<noteq> Multi \<and> stream_response (rx_ok rt) p (fst (rx_ids rt)) (snd (rx_ids rt)) = Some r"
proof -
  have "cr \<noteq> Multi" using assms(3) by (auto simp: range_of_get_def case_prod_unfold Let_def)
  then show ?thesis using assms by (auto simp: get_object_def case_prod_unfold Let_def answer_of_def)
qed



definition demo_crates :: crates where
  "demo_crates = \<lparr>ct_crypto = toy_crypto, ct_url = toy_lib, ct_list = toy_list_lib, ct_percent = (\<lambda>s. s),
     ct_range = (\<lambda>h. if h = ''bytes=2-5'' then Some [(StartIndex 2, EndIndex 5)] else None)\<rparr>"

definition demo_run :: run_time where
  "demo_run = \<lparr>rx_seq = 1, rx_nanos = 0, rx_unix = 0, rx_env = demo_env, rx_env_after = demo_env, rx_meanwhile = id,
     rx_progress = [], rx_end = Ended, rx_walk = (\<lambda>_ _ _. Inr [])\<rparr>"

definition demo_get :: http_request where
  "demo_get = \<lparr>hq_path_key = ''k'', hq_raw_path = ''/k'', hq_query = None, hq_headers = [(''range'', Some ''bytes=2-5'')]\<rparr>"

lemma demo_parse: "parse (ct_range demo_crates) (header_text demo_get ''range'') = Inr (Single (bounded 2 4))"
  by (simp add: parse_def demo_crates_def header_text_def demo_get_def add64_def sub64_def)

lemma demo_ok: "rx_ok demo_run = (\<lambda>_. True)"
  by (simp add: rx_ok_def demo_run_def demo_env_def)

lemma demo_served:
  "\<exists>p v. serve_for config_default demo_run demo_key demo_range demo_world = (Inr (Stream p), v)
     \<and> pl_body p = Piece_plan [(seg_path ''k'' 0 4, 2, 2)] demo_tail \<and> ht_size (pl_meta p) = 6"
  using demo_serve by (simp add: serve_for_def demo_run_def)

lemma stream_response_total: "stream_response (\<lambda>_. True) p a b \<noteq> None"
  by (simp add: stream_response_def Let_def rendered presentable_def list_all_iff with_header_def with_body_def)


subsection \<open>HEAD and GET\<close>

lemma head_object_200:
  assumes "head_object ct cfg rt rk rq w = (Some h, w')" "parse (ct_range ct) (header_text rq ''range'') = Inr cr" "cr \<noteq> Multi"
    and "head_resolved cfg (rx_env rt) rk w = (Inr m, v)" "resolve cr (ht_size m) = (if cr = Absent then Whole else Span s (e - s))"
    and "cr = Absent \<longrightarrow> s = 0 \<and> e = ht_size m" "s \<le> e" "e < 2 ^ 64"
  shows "rs_status h = 200 \<and> rs_body h = No_body \<and> rs_headers h =
    answer_lines (for_span (ht_size m) s e (cr \<noteq> Absent)) (Some (e - s)) m (fst (rx_ids rt)) (snd (rx_ids rt))"
proof (cases "cr = Absent")
  case True
  then show ?thesis using assms
    by (auto simp: head_object_def case_prod_unfold Let_def rendered with_body_def for_span_def simp del: resolve.simps split: if_splits)
next
  case False
  then have "resolve cr (ht_size m) = Span s (e - s)" "add64 s (e - s) = e" using assms(5,7,8) by simp_all
  with False show ?thesis using assms(1-4)
    by (auto simp: head_object_def case_prod_unfold Let_def rendered with_body_def simp del: resolve.simps split: if_splits)
qed

text \<open>
  C3: a HEAD says what the GET would say. When the two meet the same version of the object, every
  header of the HEAD is the GET's with the same value, in the same order, Content-Length and
  Content-Range included; the GET adds at most the warning that the answer is stale. The HEAD answers
  200 where the GET answers 206.
\<close>

theorem head_agrees_get:
  assumes "get_object ct cfg rt rk rq w = (Some r, w')" "head_object ct cfg rt rk rq w = (Some h, w3)"
    and "parse (ct_range ct) (header_text rq ''range'') = Inr cr" "exact_range cr"
    and "range_of_get ct cfg rt rk cr w = (Inr rng, w1)" "serve_for cfg rt rk rng w1 = (Inr (Stream p), w2)"
    and "ht_size (pl_meta p) < 2 ^ 64" "head_resolved cfg (rx_env rt) rk w = (Inr (pl_meta p), v)"
  shows "rs_status h = 200 \<and> rs_body h = No_body \<and> rs_status r = (if cr = Absent then 200 else 206)
    \<and> rs_headers r = rs_headers h @ (if pl_stale p then [(''warning'', STALE_WARNING)] else [])"
proof -
  note R = get_object_streams [OF assms(1,3,5,6)]
  have sv: "serve_answer cfg (rx_env rt) (rx_env_after rt) rk rng (rx_meanwhile rt) (rx_progress rt) (rx_end rt) w1 = (Inr (Stream p), w2)"
    using assms(6) by (simp add: serve_for_def)
  have size: "\<And>k m v. cr = Suffix k \<Longrightarrow> head_resolved cfg (rx_env rt) rk w = (Inr m, v) \<Longrightarrow> ht_size m = ht_size (pl_meta p)"
    using assms(8) by simp
  have sane: "sane_range rng" by (rule range_of_get_sane [OF assms(5,4,7)]) (rule size)
  have so: "streams_ok (rx_env rt) rk rng p" using serve_answer_spec [OF sv sane assms(7)] by blast
  then obtain s e where se: "resolve_byte_range rng (ht_size (pl_meta p)) = Some (s, e)"
    "pl_content_range p = for_span (ht_size (pl_meta p)) s e (rng \<noteq> None)" "pl_content_length p = Some (e - s)"
    by (auto simp: streams_ok_def answers_def)
  have G: "(rng = None \<longleftrightarrow> cr = Absent) \<and> resolve cr (ht_size (pl_meta p)) = (if cr = Absent then Whole else Span s (e - s))"
    using range_of_get_exact [OF assms(5,4,7) _ se(1)] size by blast
  have b: "s \<le> e" "e \<le> ht_size (pl_meta p)" using resolve_byte_range_bounds [OF sane se(1) assms(7)] by blast+
  have whole: "cr = Absent \<longrightarrow> s = 0 \<and> e = ht_size (pl_meta p)" using G se(1) by (auto simp: resolve_byte_range_def)
  have "rs_status h = 200 \<and> rs_body h = No_body \<and> rs_headers h =
      answer_lines (for_span (ht_size (pl_meta p)) s e (cr \<noteq> Absent)) (Some (e - s)) (pl_meta p) (fst (rx_ids rt)) (snd (rx_ids rt))"
    using G b assms(7) by (intro head_object_200 [OF assms(2,3) _ assms(8) _ whole]) (use R in auto)
  moreover have "pl_status p = (if rng = None then 200 else 206)" by (rule status_of_answer [OF so sane assms(7)])
  ultimately show ?thesis using stream_response_Some [OF R [THEN conjunct2, THEN conjunct2]] G se(2,3) by simp
qed


definition demo_piped :: config where
  "demo_piped = config_default\<lparr>upstreams := [\<lparr>u_id = ''primary'', u_backend_type = ''openlist'',
     u_base_url = [], u_cold_miss = Proxy, u_cache_profile = ''nocache'', u_link_api_token_env = None\<rparr>]\<rparr>"

definition demo_meta :: hit_meta where
  "demo_meta = hit_meta_remote (\<lambda>_. None) ''k''
     \<lparr>om_size_bytes = 6, om_etag = Some ''a'', om_last_modified = None, om_mime_hint = Some ''text/x''\<rparr>"

lemma demo_piped_nocache: "ep_nocache (cache_profile demo_piped ''primary'')" "redirect_capable demo_piped ''primary'' = False"
  using demo_nocache by (simp_all add: demo_piped_def demo_key_def redirect_capable_def config_upstream_def)

lemma demo_heads: "head_resolved demo_piped demo_env demo_key demo_world = (Inr demo_meta, demo_world)"
  using demo_piped_nocache by (simp add: head_resolved_def demo_key_def lookup_backend_def demo_meta_def) (simp add: demo_env_def)

lemma demo_pipes:
  "\<exists>p v. serve_for demo_piped demo_run demo_key demo_range demo_world = (Inr (Stream p), v) \<and> pl_meta p = demo_meta"
proof -
  have o: "ev_open demo_env q demo_range = Inr \<lparr>ss_stream = [Chunk (map demo_obj [2..<6])], ss_promised_len = Some 4\<rparr>" for q
    by (simp add: demo_env_def demo_range_span)
  have e: "lookup_backend demo_env ''primary'' = Inr ()" "stream_permit demo_env = Inr ()" "ev_guess demo_env = (\<lambda>_. None)"
    "ev_stat demo_env q = Inr \<lparr>om_size_bytes = 6, om_etag = Some ''a'', om_last_modified = None, om_mime_hint = Some ''text/x''\<rparr>" for q
    by (simp_all add: demo_env_def lookup_backend_def stream_permit_def)
  show ?thesis
    using demo_piped_nocache
    by (simp add: serve_for_def demo_run_def serve_answer_def serve_def Let_def relief_link_def demo_key_def serve_nocache_def e o
        serve_upstream_range_def after_stat_def after_open_def resolve_range_def demo_range_span plan_of_passthrough_def stream_plan_def demo_meta_def)
qed

theorem head_agrees_get_witness:
  "\<exists>r h. fst (get_object demo_crates demo_piped demo_run demo_key demo_get demo_world) = Some r
     \<and> fst (head_object demo_crates demo_piped demo_run demo_key demo_get demo_world) = Some h
     \<and> rs_status h = 200 \<and> rs_status r = 206 \<and> (rs_headers r = rs_headers h \<or> rs_headers r = rs_headers h @ [(''warning'', STALE_WARNING)])"
proof -
  obtain p v where s: "serve_for demo_piped demo_run demo_key demo_range demo_world = (Inr (Stream p), v)" and m: "pl_meta p = demo_meta"
    using demo_pipes by blast
  have rng: "range_of_get demo_crates demo_piped demo_run demo_key (Single (bounded 2 4)) demo_world = (Inr demo_range, demo_world)"
    by (simp add: range_of_get_def case_prod_unfold Let_def demo_range_def)
  obtain r where "stream_response (rx_ok demo_run) p (fst (rx_ids demo_run)) (snd (rx_ids demo_run)) = Some r"
    unfolding demo_ok using stream_response_total by blast
  then have g: "get_object demo_crates demo_piped demo_run demo_key demo_get demo_world = (Some r, v)"
    by (simp add: get_object_def demo_parse rng s answer_of_def case_prod_unfold Let_def)
  have heads: "head_resolved demo_piped (rx_env demo_run) demo_key demo_world = (Inr (pl_meta p), demo_world)"
    by (simp add: m demo_heads demo_run_def)
  have size: "ht_size (pl_meta p) = 6" "ht_size (pl_meta p) < 2 ^ 64"
    by (simp_all add: m demo_meta_def hit_meta_remote_def)
  have span: "resolve (Single (bounded 2 4)) 6 = Span 2 4"
    by (simp add: bounded_def add64_def sub64_def)
  obtain h where h: "head_object demo_crates demo_piped demo_run demo_key demo_get demo_world = (Some h, demo_world)"
    by (simp add: head_object_def demo_parse heads size span rendered presentable_def demo_ok list_all_iff case_prod_unfold Let_def with_body_def
        del: resolve.simps)
  have ex: "exact_range (Single (bounded 2 4))" by (simp add: bounded_def)
  from head_agrees_get [OF g h demo_parse ex rng s size(2) heads]
  show ?thesis by (cases "pl_stale p") (auto simp: g h)
qed

subsection \<open>Signed or refused\<close>

definition signature_material :: "url_lib \<Rightarrow> http_request \<Rightarrow> bool" where
  "signature_material lib rq =
     ((\<exists>a. header_text rq ''authorization'' = Some a \<and> starts_with a ''AWS4-HMAC-SHA256'')
      \<or> (\<exists>q s. hq_query rq = Some q \<and> has_text q ''X-Amz-Signature'' \<and> (SIGNATURE, s) \<in> set (ul_form_parse lib q)))"

definition carries_signature :: "crypto \<Rightarrow> credential_store \<Rightarrow> verify_req \<Rightarrow> int \<Rightarrow> bool" where
  "carries_signature cr st input now =
     (\<exists>v e date t region rest signature presigned.
        verify_optional cr (Some st) input now = Verified v \<and> store_lookup st (vr_access_key_id v) = Some e \<and> to_unix date = Some t
        \<and> signature_for cr (ce_secret e) input (canonical_query (vi_query_pairs input) presigned @ [NL] @ rest) date region signature
        \<and> t - 900 \<le> now \<and> now \<le> t + (if presigned then int (vr_expires_secs v) else 900))"

lemma verified_carries:
  assumes "verify_optional cr (Some st) input now = Verified v"
  shows "carries_signature cr st input now"
proof -
  obtain st' e date t region rest signature presigned where
    "Some st = Some st'" "store_lookup st' (vr_access_key_id v) = Some e" "to_unix date = Some t"
    "signature_for cr (ce_secret e) input (canonical_query (vi_query_pairs input) presigned @ [NL] @ rest) date region signature"
    "t - 900 \<le> now" "now \<le> t + (if presigned then int (vr_expires_secs v) else 900)"
    using verified_spec [OF assms] by (elim exE conjE)
  with assms show ?thesis
    unfolding carries_signature_def
    by (intro exI [of _ v] exI [of _ e] exI [of _ date] exI [of _ t] exI [of _ region] exI [of _ rest] exI [of _ signature]
        exI [of _ presigned]) simp
qed

lemma gate_spec:
  assumes "signature_material lib rq"
  shows "sigv4_gate ok cr lib (Some st) meth rq req_id host_id now = Some (sigv4_refusal ok (hq_raw_path rq) req_id host_id)
    \<or> sigv4_gate ok cr lib (Some st) meth rq req_id host_id now = None \<and> carries_signature cr st (gate_request lib meth rq) now"
proof -
  let ?in = "gate_request lib meth rq"
  have auth: "vi_authorization ?in = header_text rq ''authorization''"
    by (simp add: gate_request_def verify_input_def header_text_def)
  have "verify_optional cr (Some st) ?in now \<noteq> Anonymous"
  proof (cases "list_ex (\<lambda>(k, _). k = SIGNATURE) (vi_query_pairs ?in)")
    case False
    then have "\<exists>a. vi_authorization ?in = Some a \<and> starts_with a ''AWS4-HMAC-SHA256''"
      using assms unfolding auth by (auto simp: signature_material_def gate_request_def verify_input_def list_ex_iff)
    with False show ?thesis by (auto simp: verify_optional_def outcome_of_def split: sum.splits)
  qed (simp add: verify_optional_def outcome_of_def split: sum.split)
  then consider e where "verify_optional cr (Some st) ?in now = verify_outcome.Failed e"
    | v where "verify_optional cr (Some st) ?in now = Verified v"
    by (cases "verify_optional cr (Some st) ?in now") auto
  then show ?thesis
    using assms verified_carries by cases (auto simp: sigv4_gate_def signature_material_def Let_def split: option.splits)
qed


definition demo_forged :: http_request where
  "demo_forged = demo_get\<lparr>hq_headers := [(''authorization'', Some ''AWS4-HMAC-SHA256 x'')]\<rparr>"


text \<open>The probe reads the raw query: a parameter name spelled with an escape is not seen by it.\<close>

lemma sigv4_probe_misses:
  assumes "hq_query rq = Some ''X-Amz%2DSignature=0''" "header_text rq ''authorization'' = None"
  shows "sigv4_gate ok cr lib store meth rq req_id host_id now = None"
  using assms by (simp add: sigv4_gate_def starts_with_def)

text \<open>The refusal names its resource with two slashes and the path as it was sent.\<close>

lemma sigv4_resource_raw:
  "rs_body (the (sigv4_refusal (\<lambda>_. True) ''/a&b'' req_id host_id))
     = Xml_body (s3_error_xml ''AccessDenied'' ''Access Denied'' ''//a&b'' req_id host_id)"
  by (simp add: sigv4_refusal_def with_header_def new_response_def with_body_def)

subsection \<open>No handler panics\<close>

definition visible :: "string \<Rightarrow> bool" where
  "visible s = list_all (\<lambda>c. 32 \<le> (of_char c :: nat) \<and> of_char c < (127 :: nat)) s"

lemma visible_simps [simp]:
  "visible []" "visible (c # s) = (32 \<le> (of_char c :: nat) \<and> of_char c < (127 :: nat) \<and> visible s)"
  "visible (a @ b) = (visible a \<and> visible b)"
  by (auto simp: visible_def)

lemma visible_subset: "set s \<subseteq> set t \<Longrightarrow> visible t \<Longrightarrow> visible s"
  by (auto simp: visible_def list_all_iff)

lemma visible_show_nat [simp]: "visible (show_nat n)"
proof -
  have "32 \<le> (of_char c :: nat) \<and> of_char c < (127 :: nat)" if "c \<in> set (show_nat n)" for c
    using show_nat_digits [OF that] by (auto simp: of_char_of)
  then show ?thesis by (simp add: visible_def list_all_iff)
qed

lemma visible_upper_hex: "n < 16 \<Longrightarrow> visible [upper_hex n]"
  by (auto simp: upper_hex_def of_char_of)

lemma visible_hex_upper [simp]: "visible (hex_upper k n)"
  using visible_upper_hex by (induction k arbitrary: n) simp_all

lemma visible_B64: "visible B64"
  by code_simp

lemma visible_stir [simp]: "visible (stir k x)"
proof (induction k arbitrary: x)
  case (Suc k)
  have "visible [B64 ! unat (y AND 63)]" for y :: "128 word"
  proof -
    have "y AND 63 \<le> 63" by (rule word_and_le1)
    then have "unat (y AND 63) \<le> 63" by (simp add: word_le_nat_alt)
    moreover have "length B64 = 65" by code_simp
    ultimately have "B64 ! unat (y AND 63) \<in> set B64" by simp
    then show ?thesis using visible_B64 by (auto simp: visible_def list_all_iff)
  qed
  then show ?case using Suc by (simp add: Let_def)
qed simp

lemma visible_ids [simp]: "visible (fst (rx_ids rt))" "visible (snd (rx_ids rt))"
  by (simp_all add: rx_ids_def request_ids_def Let_def)

lemma visible_ranges [simp]: "visible (header_value cr)" "visible (unsatisfiable n)"
  by (simp_all add: header_value_def unsatisfiable_def)

lemma set_strip_starts: "set (strip_starts ws s) \<subseteq> set s"
proof (induction ws s rule: strip_starts.induct)
  case (1 ws s)
  then show ?case
    by (subst strip_starts.simps) (auto split: option.split dest: set_drop_subset [THEN subsetD])
qed

lemma set_trim: "set (trim s) \<subseteq> set s"
  using set_strip_starts [of "map rev ws_chars" "rev (strip_starts ws_chars s)"] set_strip_starts [of ws_chars s]
  by (auto simp: trim_def)

lemma visible_quote_etag [simp]: "visible e \<Longrightarrow> visible (quote_etag e)"
proof -
  assume e: "visible e"
  then have t: "visible (trim e)" by (rule visible_subset [OF set_trim])
  have "visible (case strip_prefix ''W/'' (trim e) of Some b \<Rightarrow> b | None \<Rightarrow> trim e)"
    using t visible_subset [OF set_drop_subset t] by (auto simp: strip_prefix_def split: option.split)
  then show ?thesis by (simp add: quote_etag_def Let_def DQ_def)
qed

definition displayable :: "hit_meta \<Rightarrow> bool" where
  "displayable m =
     (list_all visible (case ht_content_type m of Some t \<Rightarrow> [t] | None \<Rightarrow> [])
      \<and> list_all visible (case ht_etag m of Some t \<Rightarrow> [t] | None \<Rightarrow> [])
      \<and> list_all visible (case ht_last_modified m of Some t \<Rightarrow> [t] | None \<Rightarrow> []))"

lemma presentableI:
  assumes "\<forall>v. visible v \<longrightarrow> ok v" "displayable m" "visible a" "visible b"
  shows "presentable ok cr m a b"
  using assms by (cases cr) (auto simp: presentable_def meta_lines_def displayable_def opt_line_def split: option.splits)

lemma error_response_total:
  assumes "\<forall>v. visible v \<longrightarrow> ok v" "visible a" "visible b"
  shows "\<exists>r. error_response ok enc e key a b head_only hint = Some r"
  using assms
  by (cases e; cases hint)
     (simp_all add: error_response_def envelope_def insert_parsed_def with_header_def new_response_def with_body_def Let_def)

lemma rendering_total:
  assumes "\<forall>v. visible v \<longrightarrow> ok v" "visible a" "visible b"
  shows "\<exists>r. invalid_key_response ok enc key a b head_only = Some r"
    and "\<exists>r. sigv4_refusal ok raw a b = Some r"
    and "\<exists>r. list_error ok code message path a b extra = Some r"
    and "\<exists>r. render_page ok cr lib tk bucket params items rs a b = Some r"
    and "ok url \<Longrightarrow> \<exists>r. redirect_response ok url a b = Some r"
    and "displayable (pl_meta p) \<Longrightarrow> \<exists>r. stream_response ok p a b = Some r"
  using assms presentableI [OF assms(1) _ assms(2,3)]
  by (simp_all add: invalid_key_response_def envelope_def insert_parsed_def with_header_def new_response_def with_body_def
      sigv4_refusal_def list_error_def render_page_def redirect_response_def Let_def stream_response_def
      rendered [unfolded new_response_def with_header_def] STALE_WARNING_def DQ_def)

lemma serve_answer_redirects:
  assumes "serve_answer cfg ev ev' rk rng meanwhile ps we w = (Inr (Redirect_to url), w')"
  shows "ev_header_ok ev url"
proof -
  have streams: "fst (finish_get e k r v) \<noteq> Inr (Redirect_to url)" for e k r v
    by (simp add: finish_get_def split: sum.split)
  obtain out fill v where s: "serve cfg ev rk rng w = (out, fill, v)" by (cases "serve cfg ev rk rng w")
  show ?thesis
  proof (cases "relief_link cfg ev rk w")
    case (Some u)
    then have "u = url" using assms by (simp add: serve_answer_def serve_def)
    then show ?thesis using Some by (auto simp: relief_link_def split: if_splits option.splits)
  next
    case None
    have c: "fst (serve_cached cfg ev rk rng v) \<noteq> Served (Inr (Redirect_to url))" for v
      using streams by (auto simp: serve_cached_def Let_def case_prod_unfold split: get_step.split)
    have "out \<noteq> Served (Inr (Redirect_to url))"
      using s None c by (auto simp: serve_def Let_def case_prod_unfold split: if_splits prod.splits sum.splits)
    then show ?thesis
      using assms streams s by (cases out) (auto simp: serve_answer_def case_prod_unfold Let_def prod_eq_iff)
  qed
qed

lemma try_list_total:
  assumes "try_list ok cr lib tk cfg ev walk path query a b rows = (Some r, rows')"
    and "\<forall>v. visible v \<longrightarrow> ok v" "visible a" "visible b" "routes cfg \<noteq> []"
  shows "\<exists>x. r = Some x"
proof -
  note total = rendering_total(3,4) [OF assms(2-4)]
  have args: "\<exists>x. invalid_argument ok e path a b = Some x" "\<exists>x. no_such_bucket ok path a b = Some x" for e
    using total(1) by (simp_all add: invalid_argument_def no_such_bucket_def split: prod.split)
  have "resolve_list_bucket cfg path \<noteq> None"
    using assms(5) by (cases "routes cfg") (auto simp: resolve_list_bucket_def route_resolve_def Let_def split: option.split)
  then show ?thesis
    using assms(1) args total
    by (auto simp: try_list_def split: sum.splits if_splits option.splits prod.splits) metis+
qed

lemma resolve_key_total: "routes cfg \<noteq> [] \<Longrightarrow> resolve_key raw (routes cfg) ids \<noteq> None"
  by (cases "routes cfg") (auto simp: resolve_key_def route_resolve_def split: option.split sum.split prod.split)

lemma parse_no_panic: "\<forall>h. p h \<noteq> Some [] \<Longrightarrow> parse p raw \<noteq> Inl Index_panic"
  by (auto simp: parse_def split: option.split list.split start_position.split end_position.split prod.split)

text \<open>What the \<^verbatim>\<open>http\<close> crate is taken to accept, and the parts of a handler under it.\<close>

definition prints :: "run_time \<Rightarrow> bool" where
  "prints rt = (\<forall>v. visible v \<longrightarrow> rx_ok rt v)"

lemma error_printed: "prints rt \<Longrightarrow>
    \<exists>r. error_response (rx_ok rt) enc e key (fst (rx_ids rt)) (snd (rx_ids rt)) head_only hint = Some r"
  by (rule error_response_total) (simp_all add: prints_def)

lemma answer_of_total:
  assumes "prints rt" "\<And>p v. serve_for cfg rt rk rng c = (Inr (Stream p), v) \<Longrightarrow> displayable (pl_meta p)"
  shows "\<exists>r. fst (answer_of ct rt rk (serve_for cfg rt rk rng c)) = Some r"
proof -
  note total = rendering_total [of "rx_ok rt" "fst (rx_ids rt)" "snd (rx_ids rt)", OF assms(1) [unfolded prints_def], simplified]
  obtain x v where x: "serve_for cfg rt rk rng c = (x, v)" by fastforce
  consider e where "x = Inl e" | url where "x = Inr (Redirect_to url)" | p where "x = Inr (Stream p)"
    by (cases x) (auto intro: serve_outcome.exhaust)
  then show ?thesis
  proof cases
    case (2 url)
    then have "rx_ok rt url" using serve_answer_redirects x unfolding serve_for_def rx_ok_def by blast
    then show ?thesis using total(5) by (simp add: answer_of_def case_prod_unfold Let_def x 2)
  next
    case (3 p)
    then show ?thesis using total(6) assms(2) x by (simp add: answer_of_def case_prod_unfold Let_def)
  qed (use error_printed [OF assms(1)] in \<open>simp add: answer_of_def case_prod_unfold Let_def x\<close>)
qed

lemma range_of_get_total:
  "range_of_get ct cfg rt rk cr c = (Inl x, v) \<Longrightarrow> cr \<noteq> Multi \<Longrightarrow> prints rt \<Longrightarrow> \<exists>r. x = Some r"
  using error_printed
  by (auto simp: range_of_get_def case_prod_unfold Let_def split: client_range.splits sum.splits requested_span.splits)

lemma get_object_total:
  assumes "prints rt" "\<forall>h. ct_range ct h \<noteq> Some []"
    and "\<And>rng c p v. serve_for cfg rt rk rng c = (Inr (Stream p), v) \<Longrightarrow> displayable (pl_meta p)"
  shows "\<exists>r. fst (get_object ct cfg rt rk rq c) = Some r"
proof (cases "parse (ct_range ct) (header_text rq ''range'')")
  case (Inl e)
  then show ?thesis
    using parse_no_panic [OF assms(2)] error_printed [OF assms(1)] by (cases e) (auto simp: get_object_def case_prod_unfold Let_def)
next
  case (Inr cr)
  obtain x v where x: "range_of_get ct cfg rt rk cr c = (x, v)" by fastforce
  show ?thesis
  proof (cases "cr = Multi")
    case False
    then show ?thesis
      using range_of_get_total [of ct cfg rt rk cr c] answer_of_total [OF assms(1,3)] assms(1) x Inr
      by (cases x) (auto simp: get_object_def case_prod_unfold Let_def)
  qed (use Inr error_printed [OF assms(1)] in \<open>simp add: get_object_def case_prod_unfold Let_def\<close>)
qed

lemma head_object_total:
  assumes "prints rt" "\<forall>h. ct_range ct h \<noteq> Some []"
    and "\<And>m v. head_resolved cfg (rx_env rt) rk c = (Inr m, v) \<Longrightarrow> displayable m"
  shows "\<exists>r. fst (head_object ct cfg rt rk rq c) = Some r"
proof (cases "parse (ct_range ct) (header_text rq ''range'')")
  case (Inl e)
  then show ?thesis
    using parse_no_panic [OF assms(2)] error_printed [OF assms(1)] by (cases e) (auto simp: head_object_def case_prod_unfold Let_def)
next
  case parsed: (Inr cr)
  obtain x v where x: "head_resolved cfg (rx_env rt) rk c = (x, v)" by fastforce
  show ?thesis
  proof (cases x)
    case (Inr m)
    then have "displayable m" using assms(3) x by blast
    then have "presentable (rx_ok rt) cr' m (fst (rx_ids rt)) (snd (rx_ids rt))" for cr'
      by (rule presentableI [OF assms(1) [unfolded prints_def]]) simp_all
    then show ?thesis
      using parsed x Inr error_printed [OF assms(1)]
      by (simp add: head_object_def case_prod_unfold Let_def rendered with_body_def del: resolve.simps split: requested_span.split)
  qed (use parsed x error_printed [OF assms(1)] in \<open>simp add: head_object_def case_prod_unfold Let_def\<close>)
qed



text \<open>The header map takes no etag with a line break: the answer about such an object is a panic.\<close>

lemma unprintable_etag_panics:
  assumes "head_resolved cfg (rx_env rt) rk w = (Inr m, v)" "ht_etag m = Some e" "\<not> rx_ok rt (quote_etag e)"
    and "header_text rq ''range'' = None"
  shows "head_object ct cfg rt rk rq w = (None, v)"
  using assms by (simp add: head_object_def parse_def case_prod_unfold Let_def rendered with_body_def presentable_def meta_lines_def)

text \<open>With a secret configured, a fetch is spawned for who knows it; an unset or empty secret lets nobody in.\<close>

lemma prewarm_needs_secret:
  assumes "prewarm env (Some name) cfg rt rq w = (r, Some rk)"
  shows "\<exists>secret. env name = Some secret \<and> secret \<noteq> [] \<and> header_text rq ''x-prewarm-token'' = Some secret"
proof -
  have inj: "as_bytes a = as_bytes b \<Longrightarrow> a = b" for a b by (metis from_as_bytes)
  show ?thesis
    using assms inj by (auto simp: prewarm_def constant_time_eq_iff split: if_splits option.splits)
qed

end
