(* ===== verification/Openlist.thy ===== *)
theory Openlist
  imports Listing
begin

text \<open>
  The provider behind the cache, \<^verbatim>\<open>src/backend/openlist.rs\<close>: paths and URLs, the mapping of its
  answers onto the error type, what an open promises, direct links, and the walk of a listing.

  The network is an argument: \<open>propfind n path\<close> is what the WebDAV client returns to call number
  \<open>n\<close>, so the server may answer every call differently; \<open>http_get\<close>, \<open>link_api\<close> and \<open>probe\<close> are the
  single calls of an open and of a direct link. Building the WebDAV client is taken to succeed. The lossy percent decoding is \<open>url_lib\<close>'s.
\<close>

subsection \<open>Paths\<close>

definition trim_end :: "char \<Rightarrow> string \<Rightarrow> string" where
  "trim_end c s = rev (dropWhile (\<lambda>x. x = c) (rev s))"

definition dav_root :: "string option \<Rightarrow> string" where
  "dav_root root =
     (case root of
        None \<Rightarrow> []
      | Some r \<Rightarrow> (let t = trim_matches CHR ''/'' r in if t = [] then [] else t @ ''/''))"

definition dav_path :: "string option \<Rightarrow> string \<Rightarrow> string" where
  "dav_path root key = ''/'' @ dav_root root @ key"

definition dav_folder :: "string option \<Rightarrow> string \<Rightarrow> string" where
  "dav_folder root folder = ''/'' @ dav_root root @ folder"

definition base_url_path :: "string \<Rightarrow> string" where
  "base_url_path base_url =
     (let rest = (case split_scheme base_url of Some (_, r) \<Rightarrow> r | None \<Rightarrow> base_url)
      in case split_once CHR ''/'' rest of
           Some (_, p) \<Rightarrow> if p = [] then [] else ''/'' @ p
         | None \<Rightarrow> [])"

definition href_to_path :: "url_lib \<Rightarrow> string \<Rightarrow> string" where
  "href_to_path lib href =
     ul_decode_lossy lib
       (case split_scheme href of
          Some (_, rest) \<Rightarrow> (case split_once CHR ''/'' rest of Some (_, p) \<Rightarrow> ''/'' @ p | None \<Rightarrow> ''/'')
        | None \<Rightarrow> href)"

definition strip_base :: "string \<Rightarrow> string \<Rightarrow> string option" where
  "strip_base base href_path =
     (case strip_prefix (trim_end CHR ''/'' base) (trim_end CHR ''/'' href_path) of
        None \<Rightarrow> None
      | Some rest \<Rightarrow> if rest = [] then Some [] else strip_prefix ''/'' rest)"

definition url_origin :: "string \<Rightarrow> string option" where
  "url_origin url =
     (case split_scheme url of
        None \<Rightarrow> None
      | Some (scheme, rest) \<Rightarrow>
          (let auth = hd (split_on CHR ''/'' rest) in if auth = [] then None else Some (scheme @ ''://'' @ auth)))"

definition url_host :: "string \<Rightarrow> string option" where
  "url_host url =
     (case split_scheme url of
        None \<Rightarrow> None
      | Some (_, rest) \<Rightarrow>
          (let auth = hd (split_on CHR ''/'' rest) in if auth = [] then None else Some (to_ascii_lowercase auth)))"

subsection \<open>The backend\<close>

record openlist_config =
  oc_upstream :: upstream_config
  oc_username_env :: string
  oc_password_env :: string
  oc_root_path :: "string option"

record openlist =
  ol_id :: string
  ol_base_url :: string
  ol_root_path :: "string option"
  ol_username :: string
  ol_password :: string
  ol_api_token :: "string option"

text \<open>The string of an \<open>Inl\<close> names what is missing; \<open>client_ok\<close> is whether the HTTP client could be built.\<close>

definition from_config :: "(string \<Rightarrow> string option) \<Rightarrow> bool \<Rightarrow> openlist_config \<Rightarrow> string + openlist" where
  "from_config env client_ok c =
     (let u = oc_upstream c
      in guard_that (u_backend_type u = ''openlist'') ''type'' (
         res_bind (ok_or (env (oc_username_env c)) (oc_username_env c)) (\<lambda>user.
         res_bind (ok_or (env (oc_password_env c)) (oc_password_env c)) (\<lambda>pass.
         guard_that client_ok ''http client'' (
         res_bind (case u_link_api_token_env u of
                     Some e \<Rightarrow> res_bind (ok_or (env e) e) (\<lambda>t. Inr (Some t))
                   | None \<Rightarrow> Inr None) (\<lambda>token.
         Inr \<lparr>ol_id = u_id u, ol_base_url = trim_end CHR ''/'' (u_base_url u), ol_root_path = oc_root_path c,
              ol_username = user, ol_password = pass, ol_api_token = token\<rparr>))))))"

definition full_url :: "openlist \<Rightarrow> string \<Rightarrow> string" where
  "full_url ol path = ol_base_url ol @ path"

definition map_status_with :: "nat \<Rightarrow> string \<Rightarrow> u64 option \<Rightarrow> backend_error" where
  "map_status_with status body retry_after =
     (if status = 404 then NotFound
      else if status = 429 then RateLimited retry_after
      else if status = 401 \<or> status = 403 then AuthRequired
      else if 500 \<le> status \<and> status \<le> 599 then ServerError (show_nat status @ '': '' @ body)
      else BackendOther (show_nat status @ '': '' @ body))"

definition map_status :: "nat \<Rightarrow> string \<Rightarrow> backend_error" where
  "map_status status body = map_status_with status body None"

type_synonym header_texts = "(string \<times> string option) list"

definition text_of :: "header_texts \<Rightarrow> string \<Rightarrow> string option" where
  "text_of hs name = (case map_of hs name of Some v \<Rightarrow> v | None \<Rightarrow> None)"

definition retry_after_millis :: "header_texts \<Rightarrow> u64 option" where
  "retry_after_millis hs =
     Option.bind (text_of hs ''retry-after'') (\<lambda>raw. map_option (\<lambda>secs. sat_mul secs 1000) (parse_u64 (trim raw)))"

definition validate_folder :: "string \<Rightarrow> backend_error + unit" where
  "validate_folder folder =
     (if CHR 0x00 \<in> set folder \<or> CHR 0x5C \<in> set folder \<or> starts_with folder ''/'' then Inl (BackendOther ''invalid folder'')
      else if ''..'' \<in> set (split_on CHR ''/'' folder) then Inl (BackendOther ''invalid folder'')
      else Inr ())"

subsection \<open>Stat\<close>

datatype dav_item =
    Dav_file (di_href: string) (di_len: int) (di_tag: "string option") (di_modified: string) (di_type: string)
  | Dav_folder (di_href: string) (di_tag: "string option") (di_modified: string)

datatype dav_error =
    Status_mismatched nat
  | Server_said string
  | Unreachable string
  | Request_failed string
  | Dav_other string

definition map_dav_error :: "dav_error \<Rightarrow> backend_error" where
  "map_dav_error e =
     (case e of
        Status_mismatched s \<Rightarrow> map_status s []
      | Server_said err \<Rightarrow> ServerError err
      | Unreachable re \<Rightarrow> ServerError (''dav unreachable: '' @ re)
      | Request_failed re \<Rightarrow> BackendOther (''dav request: '' @ re)
      | Dav_other x \<Rightarrow> BackendOther (''dav: '' @ x))"

definition ol_stat :: "openlist \<Rightarrow> (string \<Rightarrow> dav_error + dav_item list) \<Rightarrow> string \<Rightarrow> backend_error + object_meta" where
  "ol_stat ol propfind0 key =
     (case propfind0 (dav_path (ol_root_path ol) key) of
        Inl e \<Rightarrow> Inl (map_dav_error e)
      | Inr (Dav_file href len tag modified type # _) \<Rightarrow>
          Inr \<lparr>om_size_bytes = nat len, om_etag = tag, om_last_modified = Some modified,
               om_mime_hint = (if type = [] then None else Some type)\<rparr>
      | Inr _ \<Rightarrow> Inl NotFound)"

subsection \<open>Open\<close>

record http_reply =
  hr_status :: nat
  hr_headers :: header_texts
  hr_text :: string
  hr_stream :: "src_event list"

text \<open>What the answer promises: its length, or the length of the range it names.\<close>

definition range_len :: "string \<Rightarrow> u64 option" where
  "range_len cr =
     Option.bind (rsplit_once CHR ''/'' cr) (\<lambda>(span, _).
     Option.bind (split_once CHR '' '' span) (\<lambda>(_, rng).
     Option.bind (split_once CHR ''-'' rng) (\<lambda>(a, b).
     Option.bind (parse_u64 (trim a)) (\<lambda>first.
     map_option (\<lambda>final. add64 (final - first) 1) (parse_u64 (trim b))))))"

definition promised_len :: "header_texts \<Rightarrow> u64 option" where
  "promised_len hs =
     (case Option.bind (text_of hs ''content-length'') parse_u64 of
        Some n \<Rightarrow> Some n
      | None \<Rightarrow> Option.bind (text_of hs ''content-range'') range_len)"

text \<open>\<open>http_get url range\<close>; the second argument is the value of the Range header.\<close>

definition ol_open ::
  "openlist \<Rightarrow> (string \<Rightarrow> string option \<Rightarrow> string + http_reply) \<Rightarrow> string \<Rightarrow> byte_range option \<Rightarrow> backend_error + stream_source" where
  "ol_open ol http_get key rng =
     (case http_get (full_url ol (dav_path (ol_root_path ol) key)) (map_option http_header_value rng) of
        Inl e \<Rightarrow> Inl (ServerError (''dav get: '' @ e))
      | Inr resp \<Rightarrow>
          if \<not> (hr_status resp = 200 \<or> hr_status resp = 206)
          then Inl (map_status_with (hr_status resp) (hr_text resp) (retry_after_millis (hr_headers resp)))
          else Inr \<lparr>ss_stream = hr_stream resp, ss_promised_len = promised_len (hr_headers resp)\<rparr>)"

subsection \<open>Direct links\<close>

record link_reply =
  lk_code :: int
  lk_url :: "string option"

definition no_link :: "string \<Rightarrow> backend_error" where
  "no_link why = BackendOther (''openlist: no direct link ('' @ why @ '')'')"

text \<open>\<open>link_api url token path ua\<close> is the call to \<^verbatim>\<open>/api/fs/link\<close> and the decoding of its answer,
  \<open>probe url ua\<close> the status of the one-byte read and the URL it ended at.\<close>

definition direct_url ::
  "openlist \<Rightarrow> (string \<Rightarrow> string \<Rightarrow> string \<Rightarrow> string option \<Rightarrow> string + link_reply)
     \<Rightarrow> (string \<Rightarrow> string option \<Rightarrow> string + (nat \<times> string)) \<Rightarrow> string \<Rightarrow> string option \<Rightarrow> backend_error + string" where
  "direct_url ol link_api probe key viewer_ua =
     res_bind (ok_or (nonempty (ol_api_token ol)) (no_link ''no link token'')) (\<lambda>token.
     res_bind (ok_or (url_origin (ol_base_url ol)) (no_link ''bad base_url'')) (\<lambda>api.
     case link_api (api @ ''/api/fs/link'') token (dav_path (ol_root_path ol) key) viewer_ua of
       Inl e \<Rightarrow> Inl (no_link e)
     | Inr link \<Rightarrow>
         guard_that (lk_code link = 200) (no_link ''link api code'') (
         let url0 = (case lk_url link of Some u \<Rightarrow> u | None \<Rightarrow> []);
             url = (case strip_prefix ''//'' url0 of Some rest \<Rightarrow> ''https://'' @ rest | None \<Rightarrow> url0);
             own = (case url_host api of Some h \<Rightarrow> h | None \<Rightarrow> [])
         in guard_that (url0 \<noteq> []) (no_link ''empty link url'') (
            res_bind (ok_or (url_host url) (no_link ''relative link url'')) (\<lambda>host.
            guard_that (host \<noteq> own) (no_link ''self-referential link url'') (
            guard_that (redirect_target_allowed url) (no_link ''link target fails redirect policy'') (
            case probe url viewer_ua of
              Inl e \<Rightarrow> Inl (no_link e)
            | Inr (status, final) \<Rightarrow> guard_that (status = 206) (no_link ''probe status'') (Inr final))))))))"

subsection \<open>The walk of a listing\<close>

definition MAX_LIST_ENTRIES :: nat where
  "MAX_LIST_ENTRIES = 50000"

definition MAX_LIST_DEPTH :: nat where
  "MAX_LIST_DEPTH = 64"

text \<open>A directory to visit: its WebDAV path, the prefix of its children's keys, its depth.\<close>

type_synonym walk_dir = "string \<times> string \<times> nat"

definition child_name :: "url_lib \<Rightarrow> string \<Rightarrow> string \<Rightarrow> string" where
  "child_name lib base href = (case strip_base base (href_to_path lib href) of Some n \<Rightarrow> n | None \<Rightarrow> [])"

fun list_item :: "url_lib \<Rightarrow> string \<Rightarrow> bool \<Rightarrow> walk_dir \<Rightarrow> dav_item \<Rightarrow> list_entry list \<times> walk_dir list" where
  "list_item lib base recursive (dav_dir, key_prefix, depth) (Dav_file href len tag modified type) =
     (let name = child_name lib base href
      in if name = [] \<or> ends_with name ''/'' then ([], [])
         else ([\<lparr>le_key = key_prefix @ name, le_size = nat len, le_etag = tag, le_last_modified = Some modified, le_is_dir = False\<rparr>], []))"
| "list_item lib base recursive (dav_dir, key_prefix, depth) (Dav_folder href tag modified) =
     (let name = trim_end CHR ''/'' (child_name lib base href)
      in if name = [] then ([], [])
         else if recursive then
           (if depth + 1 \<ge> MAX_LIST_DEPTH then ([], [])
            else ([], [(dav_dir @ name @ ''/'', key_prefix @ name @ ''/'', depth + 1)]))
         else ([\<lparr>le_key = key_prefix @ name @ ''/'', le_size = 0, le_etag = tag, le_last_modified = Some modified,
                 le_is_dir = True\<rparr>], []))"

text \<open>For the termination of \<open>list_walk\<close>: what a visit pushes lies one level deeper.\<close>

lemma list_item_deeper:
  "x \<in> set (snd (list_item lib base recursive d item)) \<Longrightarrow> snd (snd x) = Suc (snd (snd d)) \<and> snd (snd x) < MAX_LIST_DEPTH"
  by (cases d; cases item) (auto simp: Let_def split: if_splits)

lemma deeper_mult:
  assumes "\<forall>x\<in>set ps. snd (snd x) = Suc (snd (snd d)) \<and> snd (snd x) < MAX_LIST_DEPTH"
  shows "(mset (map (\<lambda>d. MAX_LIST_DEPTH - snd (snd d)) (rev ps @ q)), mset (map (\<lambda>d. MAX_LIST_DEPTH - snd (snd d)) (d # q))) \<in> mult less_than"
proof -
  have "(mset (map (\<lambda>d. MAX_LIST_DEPTH - snd (snd d)) q) + mset (map (\<lambda>d. MAX_LIST_DEPTH - snd (snd d)) ps),
      mset (map (\<lambda>d. MAX_LIST_DEPTH - snd (snd d)) q) + {#MAX_LIST_DEPTH - snd (snd d)#}) \<in> mult less_than"
    using assms by (intro one_step_implies_mult) fastforce+
  then show ?thesis by (simp add: ac_simps)
qed

text \<open>The stack has its top first.\<close>

function list_walk ::
  "(nat \<Rightarrow> string \<Rightarrow> dav_error + dav_item list) \<Rightarrow> url_lib \<Rightarrow> string \<Rightarrow> bool \<Rightarrow> nat \<Rightarrow> walk_dir list \<Rightarrow> list_entry list
     \<Rightarrow> backend_error + list_entry list" where
  "list_walk propfind lib href_base recursive n [] out = Inr out"
| "list_walk propfind lib href_base recursive n (d # queue) out =
     (case propfind n (fst d) of
        Inl e \<Rightarrow> Inl (map_dav_error e)
      | Inr items \<Rightarrow>
          (let found = map (list_item lib (href_base @ fst d) recursive d) items;
               out' = out @ concat (map fst found)
           in if length out' > MAX_LIST_ENTRIES then Inr (take MAX_LIST_ENTRIES out')
              else list_walk propfind lib href_base recursive (n + 1) (rev (concat (map snd found)) @ queue) out'))"
  by pat_completeness auto

termination
proof (relation "inv_image (mult less_than) (\<lambda>(_, _, _, _, _, q, _). mset (map (\<lambda>d. MAX_LIST_DEPTH - snd (snd d)) q))", goal_cases)
  case 1
  then show ?case by (simp add: wf_mult)
next
  case (2 propfind lib href_base recursive n d queue out items found out')
  have "\<forall>x\<in>set (concat (map snd found)). snd (snd x) = Suc (snd (snd d)) \<and> snd (snd x) < MAX_LIST_DEPTH"
    unfolding 2 using list_item_deeper by fastforce
  then show ?case by (simp only: in_inv_image prod.case deeper_mult)
qed

definition ol_list ::
  "openlist \<Rightarrow> url_lib \<Rightarrow> (nat \<Rightarrow> string \<Rightarrow> dav_error + dav_item list) \<Rightarrow> string \<Rightarrow> bool \<Rightarrow> backend_error + list_entry list" where
  "ol_list ol lib propfind folder recursive =
     res_bind (validate_folder folder) (\<lambda>_.
       list_walk propfind lib (base_url_path (ol_base_url ol)) recursive 0 [(dav_folder (ol_root_path ol) folder, folder, 0)] [])"

subsection \<open>What a walk returns\<close>

text \<open>An entry below a folder, and a directory below it.\<close>

definition below :: "string \<Rightarrow> bool \<Rightarrow> list_entry \<Rightarrow> bool" where
  "below folder recursive e =
     (starts_with (le_key e) folder \<and> le_key e \<noteq> folder \<and> (le_is_dir e \<longleftrightarrow> ends_with (le_key e) ''/'') \<and> (le_is_dir e \<longrightarrow> \<not> recursive))"

lemma starts_with_trans: "starts_with a b \<Longrightarrow> starts_with (a @ c) b"
  by (auto simp: starts_with_iff)

lemma ends_with_append: "n \<noteq> [] \<Longrightarrow> ends_with (p @ n) ''/'' = ends_with n ''/''"
  by (cases n rule: rev_cases) (simp_all add: ends_with_def starts_with_def)

lemma list_item_below:
  assumes "starts_with (fst (snd d)) folder" "length folder \<le> length (fst (snd d))"
  shows "(\<forall>e\<in>set (fst (list_item lib base recursive d item)). below folder recursive e)
    \<and> (\<forall>x\<in>set (snd (list_item lib base recursive d item)). starts_with (fst (snd x)) folder \<and> length folder \<le> length (fst (snd x)))"
proof (cases d)
  case (fields dir pre depth)
  have len: "pre @ n \<noteq> folder" if "n \<noteq> []" for n
    using assms(2) that fields by (metis append_is_Nil_conv append_self_conv fst_conv snd_conv le_antisym length_append le_add1 le_trans append_eq_append_conv)
  show ?thesis
  proof (cases item)
    case (Dav_file href l t m c)
    then show ?thesis using assms len by (auto simp: fields Let_def below_def starts_with_trans ends_with_append)
  next
    case (Dav_folder href t m)
    have "ends_with (pre @ n @ ''/'') ''/''" for n by (simp add: ends_with_def starts_with_def)
    then show ?thesis using Dav_folder assms len by (auto simp: fields Let_def below_def starts_with_trans)
  qed
qed

lemma list_walk_spec:
  assumes "\<forall>d\<in>set queue. starts_with (fst (snd d)) folder \<and> length folder \<le> length (fst (snd d))"
    and "\<forall>e\<in>set out. below folder recursive e" "length out \<le> MAX_LIST_ENTRIES"
  shows "case list_walk propfind lib href_base recursive n queue out of
      Inr es \<Rightarrow> length es \<le> MAX_LIST_ENTRIES \<and> (\<forall>e\<in>set es. below folder recursive e)
    | Inl e \<Rightarrow> \<exists>m dir x. propfind m dir = Inl x \<and> e = map_dav_error x"
  using assms
proof (induction propfind lib href_base recursive n queue out rule: list_walk.induct)
  case (2 propfind lib href_base recursive n d queue out)
  show ?case
  proof (cases "propfind n (fst d)")
    case (Inl e)
    then show ?thesis by auto
  next
    case (Inr items)
    define found where "found = map (list_item lib (href_base @ fst d) recursive d) items"
    define out' where "out' = out @ concat (map fst found)"
    have d: "starts_with (fst (snd d)) folder" "length folder \<le> length (fst (snd d))" using "2.prems"(1) by simp_all
    have below: "\<forall>e\<in>set out'. below folder recursive e"
      using "2.prems"(2) list_item_below [OF d] by (auto simp: out'_def found_def)
    show ?thesis
    proof (cases "length out' > MAX_LIST_ENTRIES")
      case True
      then show ?thesis using Inr below set_take_subset [of MAX_LIST_ENTRIES out'] by (auto simp: found_def out'_def Let_def)
    next
      case False
      have "\<forall>x\<in>set (rev (concat (map snd found)) @ queue). starts_with (fst (snd x)) folder \<and> length folder \<le> length (fst (snd x))"
        using "2.prems"(1) list_item_below [OF d] unfolding found_def by fastforce
      then show ?thesis
        using "2.IH" [OF Inr found_def out'_def False] False below Inr by (simp add: found_def [symmetric] out'_def [symmetric] Let_def)
    qed
  qed
qed simp


definition toy_openlist :: openlist where
  "toy_openlist = \<lparr>ol_id = ''primary'', ol_base_url = ''http://h/dav'', ol_root_path = None, ol_username = [], ol_password = [],
     ol_api_token = None\<rparr>"

definition toy_propfind :: "nat \<Rightarrow> string \<Rightarrow> dav_error + dav_item list" where
  "toy_propfind n dir = Inr [Dav_folder ''/dav/d/'' None [], Dav_folder ''/dav/d/s/'' None [], Dav_file ''/dav/d/a'' 3 None [] []]"

lemma toy_listing:
  "ol_list toy_openlist toy_lib toy_propfind ''d/'' False = Inr
     [\<lparr>le_key = ''d/s/'', le_size = 0, le_etag = None, le_last_modified = Some [], le_is_dir = True\<rparr>,
      \<lparr>le_key = ''d/a'', le_size = 3, le_etag = None, le_last_modified = Some [], le_is_dir = False\<rparr>]"
proof -
  have c: "child_name toy_lib ''/dav/d/'' ''/dav/d/'' = []" "child_name toy_lib ''/dav/d/'' ''/dav/d/s/'' = ''s''"
    "child_name toy_lib ''/dav/d/'' ''/dav/d/a'' = ''a''"
    by (simp_all add: child_name_def href_to_path_def toy_lib_def strip_base_def trim_end_def strip_prefix_def starts_with_def)
  have p: "base_url_path ''http://h/dav'' = ''/dav''" "dav_folder None ''d/'' = ''/d/''" "validate_folder ''d/'' = Inr ()"
    by code_simp+
  show ?thesis
    by (simp add: ol_list_def toy_openlist_def toy_propfind_def p c MAX_LIST_ENTRIES_def trim_end_def ends_with_def starts_with_def Let_def)
qed


text \<open>Only one call is made when the listing is not recursive.\<close>

lemma flat_listing_one_call:
  assumes "\<And>dir. propfind 0 dir = propfind' 0 dir"
  shows "ol_list ol lib propfind folder False = ol_list ol lib propfind' folder False"
proof -
  have "snd (list_item lib base False d item) = []" for base d item
    by (cases d; cases item) (simp_all add: Let_def)
  moreover have none: "concat (map (\<lambda>x. []) xs) = ([] :: walk_dir list)" for xs :: "dav_item list"
    by (induction xs) simp_all
  ultimately show ?thesis
    using assms by (simp add: ol_list_def Let_def comp_def none split: sum.split)
qed

subsection \<open>What an open takes for granted\<close>

text \<open>A provider that ignores the Range header answers 200 with the whole object, which is taken as the range.\<close>

lemma open_takes_whole_for_range:
  assumes "http_get (full_url ol (dav_path (ol_root_path ol) key)) (Some (http_header_value r))
     = Inr \<lparr>hr_status = 200, hr_headers = [], hr_text = [], hr_stream = [Chunk whole]\<rparr>"
  shows "\<exists>src. ol_open ol http_get key (Some r) = Inr src \<and> stream_bytes (ss_stream src) = whole"
  using assms by (simp add: ol_open_def)

text \<open>The part of a URL before its fragment and its query is what a server is asked for.\<close>

definition asked_path :: "string \<Rightarrow> string" where
  "asked_path url = takeWhile (\<lambda>c. c \<noteq> CHR ''?'' \<and> c \<noteq> CHR ''#'') url"

lemma open_cuts_key:
  "asked_path (full_url ol (dav_path root (key @ ''#'' @ rest))) = asked_path (full_url ol (dav_path root key))"
proof -
  have "asked_path (a @ ''#'' @ b) = asked_path a" for a b
    by (induction a) (simp_all add: asked_path_def)
  moreover have "full_url ol (dav_path root (key @ ''#'' @ rest)) = full_url ol (dav_path root key) @ ''#'' @ rest"
    by (simp add: full_url_def dav_path_def)
  ultimately show ?thesis by presburger
qed

text \<open>The authority keeps its brackets, its port and its user.\<close>

lemma url_host_keeps_port: "url_host ''http://[::1]:5244/dav'' = Some ''[::1]:5244''"
  by code_simp

subsection \<open>Direct links\<close>

text \<open>A link given out was asked for with a token, points to another authority than the provider's, is one
  a viewer may be redirected to, and answered a one-byte read.\<close>

lemma direct_link_vetted:
  assumes "direct_url ol link_api probe key ua = Inr final"
  shows "\<exists>token api link url. ol_api_token ol = Some token \<and> token \<noteq> [] \<and> url_origin (ol_base_url ol) = Some api
    \<and> link_api (api @ ''/api/fs/link'') token (dav_path (ol_root_path ol) key) ua = Inr link \<and> lk_code link = 200
    \<and> url_host url \<noteq> None \<and> url_host url \<noteq> url_host api \<and> redirect_target_allowed url \<and> probe url ua = Inr (206, final)"
proof -
  obtain token where t: "ol_api_token ol = Some token" "token \<noteq> []"
    using assms by (auto simp: direct_url_def checks_passed nonempty_def split: option.splits if_splits)
  obtain api where a: "url_origin (ol_base_url ol) = Some api"
    using assms by (auto simp: direct_url_def checks_passed)
  obtain link where l: "link_api (api @ ''/api/fs/link'') token (dav_path (ol_root_path ol) key) ua = Inr link" "lk_code link = 200"
    using assms t a by (auto simp: direct_url_def checks_passed nonempty_def split: sum.splits)
  define url where "url = (case strip_prefix ''//'' (case lk_url link of Some u \<Rightarrow> u | None \<Rightarrow> []) of
      Some rest \<Rightarrow> ''https://'' @ rest | None \<Rightarrow> (case lk_url link of Some u \<Rightarrow> u | None \<Rightarrow> []))"
  obtain host where h: "url_host url = Some host" "host \<noteq> (case url_host api of Some h \<Rightarrow> h | None \<Rightarrow> [])"
    "redirect_target_allowed url" "(case probe url ua of Inl e \<Rightarrow> Inl (no_link e) | Inr (status, f) \<Rightarrow>
        guard_that (status = 206) (no_link ''probe status'') (Inr f)) = (Inr final :: backend_error + string)"
    using assms t a l by (auto simp: direct_url_def checks_passed nonempty_def url_def [symmetric] Let_def)
  have "probe url ua = Inr (206, final)"
    using h(4) by (auto simp: checks_passed split: sum.splits prod.splits)
  with t a l h(1-3) show ?thesis
    by (intro exI [of _ token] exI [of _ api] exI [of _ link] exI [of _ url]) (auto split: option.splits)
qed

end
