(* ===== verification/Lifecycle.thy ===== *)
theory Lifecycle
  imports Admission Config
begin

text \<open>
  The life of the process: what \<^verbatim>\<open>src/main.rs\<close> insists on before it serves, the decision how to
  stop of \<^verbatim>\<open>src/shutdown.rs\<close>, and the coalescing of concurrent calls of \<^verbatim>\<open>src/inflight.rs\<close>.
\<close>

subsection \<open>Start\<close>

text \<open>The fields of the configuration that \<^verbatim>\<open>main\<close> reads and the cache does not.\<close>

record main_config =
  mc_config :: config
  mc_prewarm_secret_env :: "string option"
  mc_content_auth :: bool
  mc_content_auth_exempt :: "string list"
  mc_ip_allow :: "string list"
  mc_rate_rps :: "nat option"
  mc_token_exempt :: "string list"

datatype start_error =
    Token_env_unset string
  | Token_empty string
  | Header_without_env string
  | Env_without_header string
  | No_prewarm_secret
  | Credentials_unreadable store_error
  | No_credentials

definition origin_token_of :: "(string \<Rightarrow> string option) \<Rightarrow> string option \<Rightarrow> string option \<Rightarrow> start_error + (string \<times> string) option" where
  "origin_token_of env header env_name =
     (case (header, env_name) of
        (Some h, Some n) \<Rightarrow>
          (case env n of
             None \<Rightarrow> Inl (Token_env_unset n)
           | Some v \<Rightarrow> if v = [] then Inl (Token_empty n) else Inr (Some (h, v)))
      | (None, None) \<Rightarrow> Inr None
      | (Some h, None) \<Rightarrow> Inl (Header_without_env h)
      | (None, Some n) \<Rightarrow> Inl (Env_without_header n))"

record started =
  sd_front :: front_options
  sd_gate :: "content_gate option"
  sd_store :: "credential_store option"

text \<open>\<open>loaded\<close> is the result of loading the credentials. Everything here comes before a port is bound.\<close>

definition start_checks ::
  "(string \<Rightarrow> string option) \<Rightarrow> store_error + credential_store option \<Rightarrow> main_config \<Rightarrow> start_error + started" where
  "start_checks env loaded mc =
     (let cfg = mc_config mc
      in res_bind (origin_token_of env (front_origin_token_header cfg) (front_origin_token_env cfg)) (\<lambda>token.
         guard_that (mc_prewarm_secret_env mc \<noteq> None) No_prewarm_secret (
         case loaded of
           Inl e \<Rightarrow> Inl (Credentials_unreadable e)
         | Inr store \<Rightarrow>
             res_bind (if mc_content_auth mc
                       then (case store of
                               Some s \<Rightarrow> if s \<noteq> [] then Inr (Some (gate_from_caps s (content_caps cfg))) else Inl No_credentials
                             | None \<Rightarrow> Inl No_credentials)
                       else Inr None) (\<lambda>gate.
             Inr \<lparr>sd_front = \<lparr>fo_ip_allow = mc_ip_allow mc, fo_rate_rps = mc_rate_rps mc, fo_origin_token = token,
                               fo_origin_token_exempt = mc_token_exempt mc, fo_content_auth = (gate \<noteq> None),
                               fo_content_auth_exempt = mc_content_auth_exempt mc\<rparr>,
                  sd_gate = gate, sd_store = store\<rparr>))))"

lemma start_checksD:
  assumes "start_checks env loaded mc = Inr sd"
  shows "origin_token_of env (front_origin_token_header (mc_config mc)) (front_origin_token_env (mc_config mc)) = Inr (fo_origin_token (sd_front sd))"
    and "mc_prewarm_secret_env mc \<noteq> None" and "loaded = Inr (sd_store sd)"
    and "fo_origin_token_exempt (sd_front sd) = mc_token_exempt mc"
    and "fo_content_auth (sd_front sd) \<longleftrightarrow> mc_content_auth mc"
    and "mc_content_auth mc \<Longrightarrow> \<exists>s. sd_store sd = Some s \<and> s \<noteq> [] \<and> sd_gate sd = Some (gate_from_caps s (content_caps (mc_config mc)))"
proof -
  define judge where "judge store = (if mc_content_auth mc
      then (case store of Some s \<Rightarrow> if s \<noteq> [] then Inr (Some (gate_from_caps s (content_caps (mc_config mc)))) else Inl No_credentials
            | None \<Rightarrow> Inl No_credentials)
      else Inr None)" for store :: "credential_store option"
  have j: "if mc_content_auth mc then (\<exists>s. store = Some s \<and> s \<noteq> [] \<and> gate = Some (gate_from_caps s (content_caps (mc_config mc))))
      else gate = None" if "judge store = Inr gate" for store gate
    using that by (auto simp: judge_def split: if_splits option.splits)
  obtain token store gate where "origin_token_of env (front_origin_token_header (mc_config mc)) (front_origin_token_env (mc_config mc)) = Inr token"
    "mc_prewarm_secret_env mc \<noteq> None" "loaded = Inr store" and g: "judge store = Inr gate"
    and sd: "sd = \<lparr>sd_front = \<lparr>fo_ip_allow = mc_ip_allow mc, fo_rate_rps = mc_rate_rps mc, fo_origin_token = token,
        fo_origin_token_exempt = mc_token_exempt mc, fo_content_auth = (gate \<noteq> None),
        fo_content_auth_exempt = mc_content_auth_exempt mc\<rparr>, sd_gate = gate, sd_store = store\<rparr>"
    using assms by (simp only: start_checks_def Let_def judge_def [symmetric] checks_passed) (cases loaded; auto simp: checks_passed)
  then show "origin_token_of env (front_origin_token_header (mc_config mc)) (front_origin_token_env (mc_config mc)) = Inr (fo_origin_token (sd_front sd))"
    "mc_prewarm_secret_env mc \<noteq> None" "loaded = Inr (sd_store sd)" "fo_origin_token_exempt (sd_front sd) = mc_token_exempt mc"
    "fo_content_auth (sd_front sd) \<longleftrightarrow> mc_content_auth mc"
    "mc_content_auth mc \<Longrightarrow> \<exists>s. sd_store sd = Some s \<and> s \<noteq> [] \<and> sd_gate sd = Some (gate_from_caps s (content_caps (mc_config mc)))"
    using j [OF g] by (auto simp: sd split: if_splits)
qed

lemma from_options_content:
  "from_options lib opts = Some adm \<Longrightarrow> fo_content_auth opts \<Longrightarrow>
     \<exists>e. parse_cidrs lib (fo_content_auth_exempt opts) = Some e \<and> ad_content adm = Some e"
  by (auto simp: from_options_def split: option.splits if_splits)


definition toy_main :: main_config where
  "toy_main = \<lparr>mc_config = config_default\<lparr>front_origin_token_header := Some ''x-edge'', front_origin_token_env := Some ''EDGE''\<rparr>,
     mc_prewarm_secret_env = Some ''PREWARM'', mc_content_auth = True, mc_content_auth_exempt = [], mc_ip_allow = [],
     mc_rate_rps = Some 100, mc_token_exempt = [''127.0.0.1/32'']\<rparr>"


subsection \<open>Stop\<close>

datatype stop_action = FastExit | Drain

definition SETTLE_WINDOW :: nat where
  "SETTLE_WINDOW = 3000"

definition SETTLE_INTERVAL :: nat where
  "SETTLE_INTERVAL = 250"

definition stop_action_of :: "int list \<Rightarrow> stop_action" where
  "stop_action_of samples = (if samples = [] then Drain else if list_all (\<lambda>n. n \<le> 0) samples then FastExit else Drain)"

text \<open>\<open>sample i\<close> is the reading of round \<open>i\<close>. The result has the time slept.\<close>

function settle_from :: "(nat \<Rightarrow> int) \<Rightarrow> nat \<Rightarrow> nat \<Rightarrow> int list \<Rightarrow> nat \<Rightarrow> stop_action \<times> nat" where
  "settle_from sample rounds i samples slept =
     (if i \<ge> rounds then (stop_action_of samples, slept)
      else (let samples' = samples @ [sample i]
            in if stop_action_of samples' = Drain then (Drain, slept)
               else settle_from sample rounds (i + 1) samples' (if i + 1 < rounds then slept + SETTLE_INTERVAL else slept)))"
  by pat_completeness auto
termination
  by (relation "measure (\<lambda>(_, rounds, i, _, _). rounds - i)") auto

declare settle_from.simps [simp del]

definition observe_settle :: "(nat \<Rightarrow> int) \<Rightarrow> stop_action \<times> nat" where
  "observe_settle sample = settle_from sample (max (SETTLE_WINDOW div max SETTLE_INTERVAL 1) 1) 0 [] 0"

lemma settle_from_spec:
  assumes "i \<le> rounds" "0 < rounds" "samples = map sample [0..<i]" "list_all (\<lambda>n. n \<le> 0) samples" "slept = SETTLE_INTERVAL * min i (rounds - 1)"
  shows "(fst (settle_from sample rounds i samples slept) = FastExit \<longleftrightarrow> (\<forall>j<rounds. sample j \<le> 0))
    \<and> snd (settle_from sample rounds i samples slept) \<le> SETTLE_INTERVAL * (rounds - 1)
    \<and> (fst (settle_from sample rounds i samples slept) = FastExit \<longrightarrow> snd (settle_from sample rounds i samples slept) = SETTLE_INTERVAL * (rounds - 1))"
  using assms
proof (induction sample rounds i samples slept rule: settle_from.induct)
  case (1 sample rounds i samples slept)
  show ?case
  proof (cases "i \<ge> rounds")
    case True
    then have i: "i = rounds" using "1.prems"(1) by simp
    then show ?thesis using "1.prems"
      by (subst (1 2 3 4) settle_from.simps) (auto simp: stop_action_of_def list_all_iff)
  next
    case False
    show ?thesis
    proof (cases "sample i \<le> 0")
      case True
      let ?slept = "if i + 1 < rounds then slept + SETTLE_INTERVAL else slept"
      have fast: "stop_action_of (samples @ [sample i]) = FastExit"
        using "1.prems"(4) True by (simp add: stop_action_of_def)
      then have "settle_from sample rounds i samples slept = settle_from sample rounds (i + 1) (samples @ [sample i]) ?slept"
        using False by (subst settle_from.simps) simp
      moreover have "?slept = SETTLE_INTERVAL * min (i + 1) (rounds - 1)"
        using False "1.prems"(5) by (auto simp: min_def not_less algebra_simps)
      moreover have "list_all (\<lambda>n. n \<le> 0) (samples @ [sample i])" "samples @ [sample i] = map sample [0..<i + 1]"
        using "1.prems"(3,4) True by simp_all
      ultimately show ?thesis
        using "1.IH" [OF False refl] fast "1.prems"(2) False by simp
    next
      case positive: False
      then have "settle_from sample rounds i samples slept = (Drain, slept)"
        using False by (subst settle_from.simps) (simp add: stop_action_of_def)
      moreover have "\<not> (\<forall>j<rounds. sample j \<le> 0)" using positive False by (meson not_less)
      moreover have "i \<le> rounds - 1" using False by simp
      ultimately show ?thesis using "1.prems"(5) by simp
    qed
  qed
qed

text \<open>The fast exit is taken exactly when all twelve readings are zero, 2.75 seconds after the first.\<close>

lemma observe_settle_spec:
  "fst (observe_settle sample) = FastExit \<longleftrightarrow> (\<forall>j<12. sample j \<le> 0)"
  "fst (observe_settle sample) = FastExit \<Longrightarrow> snd (observe_settle sample) = 2750"
  "snd (observe_settle sample) \<le> 2750"
  using settle_from_spec [of 0 12 "[]" sample 0]
  by (simp_all add: observe_settle_def SETTLE_WINDOW_def SETTLE_INTERVAL_def)

subsection \<open>Coalesced calls\<close>

text \<open>
  \<^verbatim>\<open>Inflight\<close>: a cell per key. \<^verbatim>\<open>OnceCell::get_or_init\<close> runs one caller's function at a time and keeps
  its result, success or error; a caller dropped in the middle leaves the cell empty for the next one.
  Two hundred milliseconds after a result was handed out the cell leaves the map, if it is still the
  one there. \<open>if_runs\<close> is the history of started calls: the key and the cell.
\<close>

datatype 'v cell = Empty | Running | Ready 'v

record 'v inflight =
  if_cells :: "(string \<times> nat) list"
  if_store :: "nat \<Rightarrow> (string \<times> 'v cell) option"
  if_next :: nat
  if_runs :: "(string \<times> nat) list"

definition inflight_new :: "'v inflight" where
  "inflight_new = \<lparr>if_cells = [], if_store = (\<lambda>_. None), if_next = 0, if_runs = []\<rparr>"

text \<open>\<^verbatim>\<open>entry(key).or_insert_with(..)\<close>\<close>

definition inflight_enter :: "string \<Rightarrow> 'v inflight \<Rightarrow> nat \<times> 'v inflight" where
  "inflight_enter key st =
     (case map_of (if_cells st) key of
        Some c \<Rightarrow> (c, st)
      | None \<Rightarrow> (if_next st, st\<lparr>if_cells := hm_put key (if_next st) (if_cells st),
                                 if_store := (if_store st)(if_next st \<mapsto> (key, Empty)), if_next := if_next st + 1\<rparr>))"

inductive inflight_step :: "'v inflight \<Rightarrow> 'v inflight \<Rightarrow> bool" where
  enter: "inflight_step st (snd (inflight_enter key st))"
| begin_run: "if_store st c = Some (key, Empty) \<Longrightarrow>
    inflight_step st (st\<lparr>if_store := (if_store st)(c \<mapsto> (key, Running)), if_runs := (key, c) # if_runs st\<rparr>)"
| dropped: "if_store st c = Some (key, Running) \<Longrightarrow> inflight_step st (st\<lparr>if_store := (if_store st)(c \<mapsto> (key, Empty))\<rparr>)"
| finished: "if_store st c = Some (key, Running) \<Longrightarrow> inflight_step st (st\<lparr>if_store := (if_store st)(c \<mapsto> (key, Ready v))\<rparr>)"
| cooled: "if_store st c = Some (key, Ready v) \<Longrightarrow> map_of (if_cells st) key = Some c \<Longrightarrow>
    inflight_step st (st\<lparr>if_cells := hm_del key (if_cells st)\<rparr>)"

inductive_cases inflight_stepE: "inflight_step st st'"

definition inflight_ok :: "'v inflight \<Rightarrow> bool" where
  "inflight_ok st =
     ((\<forall>c\<ge>if_next st. if_store st c = None)
      \<and> (\<forall>key c. map_of (if_cells st) key = Some c \<longrightarrow> (\<exists>x. if_store st c = Some (key, x)))
      \<and> (\<forall>c key x. if_store st c = Some (key, x) \<longrightarrow> map_of (if_cells st) key = Some c \<or> (\<exists>v. x = Ready v)))"

lemma inflight_ok_new [simp]: "inflight_ok inflight_new"
  by (simp add: inflight_ok_def inflight_new_def)

lemma inflight_ok_put:
  assumes "inflight_ok st" "if_store st c = Some (key, x)" "\<forall>v. x \<noteq> Ready v"
    and st': "if_cells st' = if_cells st" "if_store st' = (if_store st)(c \<mapsto> (key, y))" "if_next st' = if_next st"
  shows "inflight_ok st'"
proof -
  have ok: "\<And>c. c \<ge> if_next st \<Longrightarrow> if_store st c = None" "\<And>k c. map_of (if_cells st) k = Some c \<Longrightarrow> \<exists>x. if_store st c = Some (k, x)"
    "\<And>c k x. if_store st c = Some (k, x) \<Longrightarrow> map_of (if_cells st) k = Some c \<or> (\<exists>v. x = Ready v)"
    using assms(1) by (auto simp: inflight_ok_def)
  have here: "map_of (if_cells st) key = Some c" using ok(3) [OF assms(2)] assms(3) by blast
  have low: "c < if_next st" using ok(1) [of c] assms(2) by (cases "if_next st \<le> c") auto
  show ?thesis
    unfolding inflight_ok_def st'
  proof (intro conjI allI impI)
    show "((if_store st)(c \<mapsto> (key, y))) d = None" if "if_next st \<le> d" for d using that ok(1) low by simp
    show "\<exists>x. ((if_store st)(c \<mapsto> (key, y))) d = Some (k, x)" if "map_of (if_cells st) k = Some d" for k d
      using ok(2) [OF that] assms(2) by (cases "d = c") auto
    show "map_of (if_cells st) k = Some d \<or> (\<exists>v. z = Ready v)" if "((if_store st)(c \<mapsto> (key, y))) d = Some (k, z)" for d k z
      using that ok(3) here by (cases "d = c") auto
  qed
qed

lemma inflight_ok_step:
  assumes "inflight_step st st'" "inflight_ok st"
  shows "inflight_ok st'"
  using assms
proof cases
  case (enter key)
  show ?thesis
  proof (cases "map_of (if_cells st) key")
    case None
    have ok: "\<And>c. c \<ge> if_next st \<Longrightarrow> if_store st c = None" "\<And>k c. map_of (if_cells st) k = Some c \<Longrightarrow> \<exists>x. if_store st c = Some (k, x)"
      "\<And>c k x. if_store st c = Some (k, x) \<Longrightarrow> map_of (if_cells st) k = Some c \<or> (\<exists>v. x = Ready v)"
      using assms(2) by (auto simp: inflight_ok_def)
    have new: "if_store st (if_next st) = None" using ok(1) by simp
    have old: "c \<noteq> if_next st" if "map_of (if_cells st) k = Some c" for k c using ok(2) [OF that] new by auto
    have st': "if_store st' c = (if c = if_next st then Some (key, Empty) else if_store st c)" "if_next st' = if_next st + 1"
      "map_of (if_cells st') k = (if k = key then Some (if_next st) else map_of (if_cells st) k)" for c k
      using None enter by (simp_all add: inflight_enter_def)
    show ?thesis
      unfolding inflight_ok_def
    proof (intro conjI allI impI)
      show "if_store st' c = None" if "if_next st' \<le> c" for c using that ok(1) by (simp add: st')
      show "\<exists>x. if_store st' c = Some (k, x)" if "map_of (if_cells st') k = Some c" for k c
        using that ok(2) old by (simp add: st' split: if_splits)
      show "map_of (if_cells st') k = Some c \<or> (\<exists>v. x = Ready v)" if "if_store st' c = Some (k, x)" for c k x
        using that ok(3) [of c k x] None by (cases "c = if_next st") (auto simp: st')
    qed
  qed (use assms(2) enter in \<open>simp add: inflight_enter_def\<close>)
next
  case (begin_run c key)
  show ?thesis by (rule inflight_ok_put [OF assms(2) begin_run(2)]) (simp_all add: begin_run(1))
next
  case (dropped c key)
  show ?thesis by (rule inflight_ok_put [OF assms(2) dropped(2)]) (simp_all add: dropped(1))
next
  case (finished c key v)
  show ?thesis by (rule inflight_ok_put [OF assms(2) finished(2)]) (simp_all add: finished(1))
next
  case (cooled c key v)
  have "map_of (if_cells st) k = Some d \<and> k \<noteq> key \<or> (\<exists>v. x = Ready v)" if "if_store st d = Some (k, x)" for d k x
  proof -
    have "map_of (if_cells st) k = Some d \<or> (\<exists>v. x = Ready v)" using assms(2) that unfolding inflight_ok_def by blast
    then show ?thesis using that cooled(2,3) by (cases "k = key") auto
  qed
  then show ?thesis using assms(2) cooled(1) by (auto simp: inflight_ok_def split: if_splits)
qed

lemma inflight_reachable_ok: "inflight_step\<^sup>*\<^sup>* inflight_new st \<Longrightarrow> inflight_ok st"
  by (induction rule: rtranclp_induct) (auto intro: inflight_ok_step)

text \<open>Over every interleaving a key has one running call at most; and once a cell has a result, it keeps it,
  so all its callers get the same one.\<close>

lemma inflight_single:
  assumes "inflight_step\<^sup>*\<^sup>* inflight_new st" "if_store st c = Some (key, Running)" "if_store st c' = Some (key, Running)"
  shows "c = c'"
proof -
  have "map_of (if_cells st) key = Some c" "map_of (if_cells st) key = Some c'"
    using inflight_reachable_ok [OF assms(1)] assms(2,3) unfolding inflight_ok_def by blast+
  then show ?thesis by simp
qed

lemma inflight_shared:
  assumes "inflight_step\<^sup>*\<^sup>* st st'" "inflight_ok st" "if_store st c = Some (key, Ready v)"
  shows "if_store st' c = Some (key, Ready v)"
  using assms(1)
proof (induction rule: rtranclp_induct)
  case (step y z)
  have ok: "inflight_ok y"
    using step.hyps(1) assms(2) by (induction rule: rtranclp_induct) (auto intro: inflight_ok_step)
  from step.hyps(2) show ?case
  proof cases
    case (enter k)
    have "c \<noteq> if_next y" using ok step.IH by (auto simp: inflight_ok_def)
    then show ?thesis using step.IH by (simp add: enter inflight_enter_def split: option.split)
  qed (use step.IH in auto)
qed (rule assms(3))

end
