(* ===== verification/Spec2Isabelle.thy ===== *)
theory Spec2Isabelle
  imports Client_Range Window Store Keys Protection Ledger Signing Config Staging Magazine Net Backend Flight Reader Session Boot Sigv4 Content_Auth Upkeep Listing Admission Business Openlist Lifecycle
begin

text \<open>
  A verification development for an origin cache that fronts cloud drives: an HTTP service that
  speaks the read half of S3, keeps objects and parts of objects in a directory on disk, and reads
  what it lacks from a provider that is slow, limits its calls and may answer anything.

  \<^bold>\<open>The program and how its parts interact.\<close> A connection reaches the front door
  (\<^verbatim>\<open>front/src/lib.rs\<close>, \<^verbatim>\<open>front/src/admission.rs\<close>), which asks its gates in turn whether the request
  may pass: address lists, host names, the stamp of the edge, the rate window, and the content policy
  (\<^verbatim>\<open>src/content_auth.rs\<close>) with its signed reads and per-session budgets. What passes goes to a
  handler (\<^verbatim>\<open>src/business.rs\<close>), which verifies a signature when there is one (\<^verbatim>\<open>src/sigv4.rs\<close>), resolves
  the path to an upstream and a key (\<^verbatim>\<open>src/key.rs\<close>, \<^verbatim>\<open>src/routing.rs\<close>), reads the Range header
  (\<^verbatim>\<open>src/client_range.rs\<close>) and asks the cache (\<^verbatim>\<open>src/cache/cache.rs\<close>); a listing goes to
  \<^verbatim>\<open>src/list.rs\<close> instead. The cache answers from the magazine of whole objects
  (\<^verbatim>\<open>cache/magazine.rs\<close>), from the staged spans of an object (\<^verbatim>\<open>cache/staging.rs\<close>, with the interval
  ledger \<^verbatim>\<open>cache/ledger.rs\<close> over the directory \<^verbatim>\<open>cache/store.rs\<close>), from a download in flight
  (\<^verbatim>\<open>cache/flight.rs\<close>), from a staged-read run shared by viewers (\<^verbatim>\<open>cache/session.rs\<close>, whose windows
  \<^verbatim>\<open>cache/window.rs\<close> decides) or from the provider (\<^verbatim>\<open>src/backend\<close>) by a redirect or a stream of its
  own. Read leases and watches (\<^verbatim>\<open>cache/leases.rs\<close>, \<^verbatim>\<open>cache/watch.rs\<close>) tell every eviction what it
  must leave alone.

  \<^bold>\<open>Which theory models which file.\<close> Names are the source's, with the component as a prefix where
  two files share one; a record field carries an abbreviation of its struct.

  \<^item> \<open>Prelude\<close>: saturating 64-bit arithmetic on natural numbers, the string operations of Rust's
    standard library, decimal numbers, hash maps as association lists, \<open>res_bind\<close> for \<^verbatim>\<open>?\<close>.
  \<^item> \<open>Client_Range\<close>: \<^verbatim>\<open>client_range.rs\<close>, and \<^verbatim>\<open>ByteRange\<close> and \<^verbatim>\<open>ContentRange\<close> of \<^verbatim>\<open>backend/mod.rs\<close>.
    \<open>Window\<close>: \<^verbatim>\<open>cache/window.rs\<close>. \<open>Mime\<close>: \<^verbatim>\<open>mime.rs\<close>. \<open>Net\<close>: \<^verbatim>\<open>net.rs\<close> with the address parsers it calls.
  \<^item> \<open>Keys\<close>: \<^verbatim>\<open>key.rs\<close> and \<^verbatim>\<open>routing.rs\<close>. \<open>Config\<close> and \<open>Boot\<close>: the data, defaults and profile
    resolution of \<^verbatim>\<open>config.rs\<close>, and \<^verbatim>\<open>Config::from_raw\<close>.
  \<^item> \<open>Store\<close>: \<^verbatim>\<open>cache/store.rs\<close>, the directory as a map from file names to bytes, file names and how
    they read back, scans and sweeps. \<open>Ledger\<close>: \<^verbatim>\<open>cache/ledger.rs\<close>. \<open>Staging\<close>: \<^verbatim>\<open>cache/staging.rs\<close>.
    \<open>Magazine\<close>: \<^verbatim>\<open>cache/magazine.rs\<close> with the rows of \<^verbatim>\<open>cache/meta.rs\<close> and the row store of
    \<^verbatim>\<open>cache/persist.rs\<close>. \<open>Protection\<close>: \<^verbatim>\<open>cache/leases.rs\<close>, \<^verbatim>\<open>cache/watch.rs\<close>, \<^verbatim>\<open>cache/protection.rs\<close>.
  \<^item> \<open>Backend\<close>: the provider interface of \<^verbatim>\<open>backend/mod.rs\<close> and its retrying wrapper. \<open>Openlist\<close>:
    \<^verbatim>\<open>backend/openlist.rs\<close>.
  \<^item> \<open>Flight\<close> and \<open>Reader\<close>: \<^verbatim>\<open>cache/flight.rs\<close> (the pump and the registry; the growing reader) and
    \<^verbatim>\<open>cache/ranged.rs\<close>. \<open>Session\<close>: \<^verbatim>\<open>cache/session.rs\<close>.
  \<^item> \<open>Cache\<close>: the definitions of \<^verbatim>\<open>cache/cache.rs\<close>. \<open>Serving\<close> proves what one answer promises, \<open>Upkeep\<close>
    what the cache keeps over time.
  \<^item> \<open>Signing\<close>: \<^verbatim>\<open>signing.rs\<close>. \<open>Sigv4\<close>: \<^verbatim>\<open>sigv4.rs\<close>. \<open>Content_Auth\<close>: \<^verbatim>\<open>content_auth.rs\<close>. \<open>Admission\<close>:
    \<^verbatim>\<open>front/src/admission.rs\<close> and the request hooks of \<^verbatim>\<open>front/src/lib.rs\<close>.
  \<^item> \<open>Response\<close>: \<^verbatim>\<open>response.rs\<close>. \<open>Listing\<close>: \<^verbatim>\<open>list.rs\<close>. \<open>Business\<close>: \<^verbatim>\<open>business.rs\<close>.
  \<^item> \<open>Lifecycle\<close>: the checks of \<^verbatim>\<open>main.rs\<close> before anything is opened, \<^verbatim>\<open>shutdown.rs\<close> and \<^verbatim>\<open>inflight.rs\<close>.

  \<^bold>\<open>State.\<close> Every struct behind a lock is a record, and every section that holds the lock is one
  function from the record to the record. \<open>cache_world\<close> holds what \<^verbatim>\<open>Cache\<close> owns; what one request sees
  of the outside (the provider's answers, the clock, free space, whether a commit or a permit succeeds)
  is its \<open>serve_env\<close>. The body of a response is a plan, run against the directory its reader finds.
  Where tasks interleave inside an operation, the steps are relations: \<open>session_step\<close> for the slots and
  atomics of a run, \<open>reader_step\<close> for a reader beside its driver, \<open>inflight_step\<close> for coalesced calls. Elsewhere a request is one
  uninterrupted step up to its answer, or up to the flight it waits for; histories of such steps
  (\<open>cache_step\<close> and its counterparts in \<open>Ledger\<close>, \<open>Magazine\<close>, \<open>Protection\<close>, \<open>Flight\<close>, \<open>Admission\<close>)
  carry the invariants.
\<close>

text \<open>
  \<^bold>\<open>What the lemmas show.\<close>

  \<^item> \<^emph>\<open>Requests and answers.\<close> A Range header that parses resolves to the bytes it names, an answer has
    the status and headers of its span, and the body that is sent is a prefix of those bytes of the
    provider's object, all of it when no error ends it (\<open>Client_Range\<close>, \<open>Staging\<close>, \<open>Serving\<close>); \<open>Business\<close>
    lifts this to the GET as the client sees it, and relates HEAD to GET. No handler panics while the
    provider's metadata is printable.
  \<^item> \<^emph>\<open>Accounts.\<close> The byte counts by which the cache evicts stay equal to the sum of the rows and to the
    bytes of the segment files, over every history of operations and after a start over whatever a
    crash left behind (\<open>Magazine\<close>, \<open>Staging\<close>, \<open>Upkeep\<close>).
  \<^item> \<^emph>\<open>Intervals.\<close> Rows of the ledger stay sorted, disjoint and bounded, and claim exactly what was
    recorded (\<open>Ledger\<close>).
  \<^item> \<^emph>\<open>Concurrency.\<close> One running driver per key, a reader that yields a prefix of its range under every
    interleaving and ends once the channel is terminal, one waiting start per key, a chain that never
    runs more than two windows ahead of a paused viewer, guards that protect while they live (\<open>Flight\<close>,
    \<open>Reader\<close>, \<open>Session\<close>, \<open>Protection\<close>).
  \<^item> \<^emph>\<open>Trust.\<close> Keys stay below the directory; a signed request carries the HMAC of its own method, path
    and query; a ticket verifies exactly during its life; budgets refine a log of what was charged; an
    admitted read is signed by the tenant it is charged to; the door refuses the unstamped for free and
    its table is bounded; a node that starts has the guards its configuration names (\<open>Keys\<close>, \<open>Sigv4\<close>,
    \<open>Content_Auth\<close>, \<open>Admission\<close>, \<open>Boot\<close>, \<open>Lifecycle\<close>).
  \<^item> \<^emph>\<open>Listings.\<close> The pages of a listing give every item once and in order, names survive their encoding,
    and the walk of the provider is bounded whatever it answers (\<open>Listing\<close>, \<open>Openlist\<close>).

  Lemmas at the end of a theory state where the code does something else than its comments or its
  neighbours say; they are about the same definitions as the properties, on a concrete input.

  \<^bold>\<open>Interfaces.\<close> \<open>segment_listing\<close> is what the ledger relies on in a scan of the directory, interpreted
  on \<open>segments_for_key\<close>; \<open>key_protection\<close> is what an eviction relies on in leases and watches,
  interpreted on \<open>wf_protection\<close>, \<open>spared\<close> and \<open>in_use\<close>; \<open>victim_pass\<close> is what the three selection passes of
  the magazine share; \<open>content_policy\<close> is the contract of the trait \<^verbatim>\<open>ContentAuth\<close>, interpreted on the gate
  the process boots with.

  \<^bold>\<open>Code outside the repository\<close> is an argument of the definitions that use it: the Range grammar, the
  extension table, HMAC and SHA-256 (\<open>crypto\<close>), URL parsing and percent decoding (\<open>url_lib\<close>), base64,
  dates and query parsing of a listing (\<open>list_lib\<close>), CIDR blocks and header names (\<open>cidr_lib\<close>), the rate
  window, the WebDAV and HTTP clients. A theorem that needs a documented law of one names it as a
  hypothesis, and its witness instantiates the argument with a function.

  \<^bold>\<open>Bounds and termination.\<close> No definition runs on fuel. A loop that is not structural has a measure: the
  bytes or events left (\<open>pump_loop\<close>, \<open>upstream_loop\<close>, \<open>read_piece\<close>), the characters or groups left (the
  parsers of \<open>Net\<close>, \<open>Sigv4\<close>, \<open>Listing\<close>), the intervals left (\<open>compact_intervals\<close>), the attempts left (\<open>attempt_from\<close>), the samples left (\<open>settle_from\<close>), and for
  the walk of a listing the multiset of the levels below \<open>MAX_LIST_DEPTH\<close> that its stack still has.
  \<open>reader_fuel\<close> is a bound of the proof, not of the program: it decreases in every step of a reader whose
  channel is terminal. A \<^verbatim>\<open>u64\<close> is a natural number, with saturation, wrap-around and truncation written
  out where the code has them; lengths that index memory are below \<open>2 ^ 64\<close> by hypothesis where it matters.

  \<^bold>\<open>Not modelled.\<close> The routing of paths to handlers, binding and serving (\<^verbatim>\<open>axum\<close>) and the network side of
  the proxy (\<^verbatim>\<open>pingora\<close>); counters and histograms (\<^verbatim>\<open>metrics.rs\<close>) and logging, which no decision reads; the
  system clock (\<^verbatim>\<open>clock.rs\<close>), whose every reading is an argument; TOML (\<^verbatim>\<open>serde\<close>); the file format of
  \<^verbatim>\<open>redb\<close>, with the opening and quarantine of a damaged store; threads, signals and wiring in \<^verbatim>\<open>main.rs\<close>;
  the coalescing of stat calls inside a request, whose registry is modelled on its own in \<open>Lifecycle\<close>;
  durations, so that a wait may stall at any point and a stall budget may end it; the module files, fakes
  and tests.
\<close>

end
